(* ===== verification/Bridge_Prelude.thy ===== *)
theory Bridge_Prelude
  imports
    Main
    "HOL-Library.Word"
    "HOL-Library.Multiset"
    "HOL-Library.AList"
    "HOL-Library.Product_Lexorder"
    "HOL-Library.List_Lexorder"
    "HOL-Library.Char_ord"
begin

text \<open>
  Shared vocabulary of the development: the machine integers of the bridge and the checked and
  saturating arithmetic of the Rust standard library on them, Rust's \<open>Result\<close> as a sum type,
  the textual helpers (decimal and hexadecimal printing, prefix stripping, substring search) that
  several components use, and a locale for components that are driven by a sequence of events.
  Strings are byte strings: a \<^typ>\<open>char\<close> is one byte of the UTF-8 text, so that
  \<^term>\<open>length\<close> is Rust's \<open>str::len\<close> and the order of \<^typ>\<open>string\<close> is
  the bytewise order of \<open>str\<close>.
\<close>

named_theorems u64_simps \<open>saturating and checked arithmetic read in \<^typ>\<open>nat\<close>\<close>
named_theorems step_inv \<open>preservation of a component's invariant by its operations\<close>

section \<open>Machine integers\<close>

type_synonym u8 = "8 word"
type_synonym u16 = "16 word"
type_synonym u32 = "32 word"
type_synonym u64 = "64 word"

definition sat_sub :: "'a::len word \<Rightarrow> 'a word \<Rightarrow> 'a word" where
  "sat_sub a b = (if b \<le> a then a - b else 0)"

definition sat_add :: "'a::len word \<Rightarrow> 'a word \<Rightarrow> 'a word" where
  "sat_add a b = (if unat a + unat b < 2 ^ LENGTH('a) then a + b else - 1)"

definition sat_mul :: "'a::len word \<Rightarrow> 'a word \<Rightarrow> 'a word" where
  "sat_mul a b = (if unat a * unat b < 2 ^ LENGTH('a) then a * b else - 1)"

definition checked_add :: "'a::len word \<Rightarrow> 'a word \<Rightarrow> 'a word option" where
  "checked_add a b = (if unat a + unat b < 2 ^ LENGTH('a) then Some (a + b) else None)"

definition checked_mul :: "'a::len word \<Rightarrow> 'a word \<Rightarrow> 'a word option" where
  "checked_mul a b = (if unat a * unat b < 2 ^ LENGTH('a) then Some (a * b) else None)"

lemma unat_max_word: "unat (- 1 :: 'a::len word) = 2 ^ LENGTH('a) - 1"
  by (simp add: unsigned_minus_1_eq_mask mask_eq_exp_minus_1)

lemma unat_le_max: "unat (a :: 'a::len word) \<le> 2 ^ LENGTH('a) - 1"
proof -
  have "unat a < 2 ^ LENGTH('a)" by (rule unsigned_less)
  then show ?thesis by linarith
qed

lemma unat_u8_less: "unat (b :: u8) < 256"
  by (rule order_less_le_trans [OF unsigned_less]) simp

lemma unat_u64_less: "unat (b :: u64) < 18446744073709551616"
  by (rule order_less_le_trans [OF unsigned_less]) simp

lemma map_of_Some_mem: "map_of al k = Some v \<Longrightarrow> k \<in> fst ` set al \<and> v \<in> snd ` set al"
  by (auto dest!: map_of_SomeD intro: rev_image_eqI)

lemma unat_sat_sub [u64_simps]: "unat (sat_sub a b) = unat a - unat b"
  by (simp add: sat_sub_def unat_sub word_le_nat_alt)

lemma unat_sat_add [u64_simps]:
  "unat (sat_add (a :: 'a::len word) b) = min (unat a + unat b) (2 ^ LENGTH('a) - 1)"
  by (auto simp: sat_add_def unat_word_ariths unat_max_word min_def)

lemma unat_sat_mul [u64_simps]:
  "unat (sat_mul (a :: 'a::len word) b) = min (unat a * unat b) (2 ^ LENGTH('a) - 1)"
proof (cases "unat a * unat b < 2 ^ LENGTH('a)")
  case True
  then have "unat a * unat b \<le> 2 ^ LENGTH('a) - 1" by linarith
  with True show ?thesis by (simp add: sat_mul_def unat_word_ariths)
next
  case False
  then have "2 ^ LENGTH('a) - 1 \<le> unat a * unat b" by simp
  with False show ?thesis by (simp add: sat_mul_def unat_max_word)
qed

lemma checked_add_SomeD: "checked_add a b = Some c \<Longrightarrow> unat c = unat a + unat b"
  by (auto simp: checked_add_def unat_word_ariths split: if_splits)

text \<open>A checked deadline has passed exactly when the unbounded sum has.\<close>

lemma checked_add_passed_iff:
  "(case checked_add a b of None \<Rightarrow> False | Some c \<Rightarrow> c \<le> now) \<longleftrightarrow> unat a + unat b \<le> unat now"
proof (cases "checked_add a b")
  case None
  then have "2 ^ LENGTH('a) \<le> unat a + unat b" by (simp add: checked_add_def split: if_splits)
  moreover have "unat now < 2 ^ LENGTH('a)" by (rule unsigned_less)
  ultimately have "\<not> unat a + unat b \<le> unat now" by linarith
  with None show ?thesis by simp
next
  case (Some c)
  then show ?thesis by (simp add: word_le_nat_alt checked_add_SomeD)
qed

lemma checked_mul_SomeD: "checked_mul a b = Some c \<Longrightarrow> unat c = unat a * unat b"
  by (auto simp: checked_mul_def unat_word_ariths split: if_splits)

lemma sat_sub_eq_0_iff [simp]: "sat_sub a b = 0 \<longleftrightarrow> a \<le> b"
proof -
  have "sat_sub a b = 0 \<longleftrightarrow> unat (sat_sub a b) = 0"
    by (simp add: unat_eq_0)
  then show ?thesis
    by (simp add: u64_simps word_le_nat_alt)
qed

lemma sat_add_mono: "a \<le> sat_add a b"
  using unat_le_max [of a] by (simp add: word_le_nat_alt u64_simps)

lemma unat_min [u64_simps]: "unat (min a b) = min (unat a) (unat b)"
  by (simp add: min_def word_le_nat_alt)

lemma unat_max [u64_simps]: "unat (max a b) = max (unat a) (unat b)"
  by (simp add: max_def word_le_nat_alt)

section \<open>Results\<close>

definition rbind :: "'e + 'a \<Rightarrow> ('a \<Rightarrow> 'e + 'b) \<Rightarrow> 'e + 'b" where
  "rbind r f = (case r of Inl e \<Rightarrow> Inl e | Inr a \<Rightarrow> f a)"

definition ensure :: "bool \<Rightarrow> 'e \<Rightarrow> 'e + unit" where
  "ensure b e = (if b then Inr () else Inl e)"

lemma rbind_simps [simp]: "rbind (Inl e) f = Inl e" "rbind (Inr a) f = f a"
  by (simp_all add: rbind_def)

lemma rbind_Inr_iff: "rbind r f = Inr b \<longleftrightarrow> (\<exists>a. r = Inr a \<and> f a = Inr b)"
  by (cases r) auto

lemma rbind_Inl_iff: "rbind r f = Inl e \<longleftrightarrow> r = Inl e \<or> (\<exists>a. r = Inr a \<and> f a = Inl e)"
  by (cases r) auto

lemma ensure_Inr_iff [simp]: "ensure b e = Inr u \<longleftrightarrow> b"
  by (simp add: ensure_def)

lemma ensure_Inl_iff [simp]: "ensure b e = Inl e' \<longleftrightarrow> \<not> b \<and> e' = e"
  by (auto simp: ensure_def)

lemma if_Inl_Inr_iff [simp]:
  "(if b then Inl e else Inr a) = Inr u \<longleftrightarrow> \<not> b \<and> u = a"
  "(if b then Inl e else Inr a) = Inl e' \<longleftrightarrow> b \<and> e' = e"
  by auto

definition is_ok :: "'e + 'a \<Rightarrow> bool" where
  "is_ok r = (case r of Inl _ \<Rightarrow> False | Inr _ \<Rightarrow> True)"

lemma is_ok_simps [simp]: "is_ok (Inr a)" "\<not> is_ok (Inl e)"
  by (simp_all add: is_ok_def)

section \<open>Text\<close>

subsection \<open>Decimal numbers: \<open>format!("{}", n)\<close>\<close>

definition digit_char :: "nat \<Rightarrow> char" where
  "digit_char d = char_of (48 + d)"

fun show_nat :: "nat \<Rightarrow> string" where
  "show_nat n = (if n < 10 then [digit_char n] else show_nat (n div 10) @ [digit_char (n mod 10)])"

declare show_nat.simps [simp del]

definition read_nat :: "string \<Rightarrow> nat" where
  "read_nat s = foldl (\<lambda>a c. 10 * a + (of_char c - 48)) 0 s"

definition is_digit :: "char \<Rightarrow> bool" where
  "is_digit c \<longleftrightarrow> 48 \<le> (of_char c :: nat) \<and> (of_char c :: nat) < 58"

lemma of_char_digit_char: "d < 10 \<Longrightarrow> (of_char (digit_char d) :: nat) = 48 + d"
  by (simp add: digit_char_def)

lemma is_digit_digit_char [simp]: "d < 10 \<Longrightarrow> is_digit (digit_char d)"
  by (simp add: is_digit_def of_char_digit_char)

lemma show_nat_digits: "c \<in> set (show_nat n) \<Longrightarrow> is_digit c"
proof (induction n rule: show_nat.induct)
  case (1 n)
  then show ?case
    by (cases "n < 10") (auto simp: show_nat.simps [of n])
qed

lemma show_nat_nonempty [simp]: "show_nat n \<noteq> []"
  by (simp add: show_nat.simps [of n])

lemma read_show_nat [simp]: "read_nat (show_nat n) = n"
proof (induction n rule: show_nat.induct)
  case (1 n)
  then show ?case
    by (cases "n < 10") (simp_all add: show_nat.simps [of n] read_nat_def of_char_digit_char)
qed

lemma show_nat_inject [simp]: "show_nat m = show_nat n \<longleftrightarrow> m = n"
  by (metis read_show_nat)

text \<open>
  A run of digits ends at the first character that is not one, so a printed number followed by
  such a separator can be read back from the front of a longer text.
\<close>

lemma span_split:
  assumes "\<forall>c\<in>set xs. P c" and "\<forall>c\<in>set ys. P c" and "\<not> P a" and "\<not> P b"
    and "xs @ a # us = ys @ b # vs"
  shows "xs = ys \<and> a = b \<and> us = vs"
proof -
  have "takeWhile P (xs @ a # us) = xs" "takeWhile P (ys @ b # vs) = ys"
    using assms(1-4) by (simp_all add: takeWhile_append2)
  with assms(5) have "xs = ys" by metis
  with assms(5) show ?thesis by simp
qed

lemma show_nat_span:
  assumes "show_nat m @ a # us = show_nat n @ b # vs" and "\<not> is_digit a" and "\<not> is_digit b"
  shows "m = n \<and> a = b \<and> us = vs"
  using span_split [of "show_nat m" is_digit "show_nat n" a b us vs] assms show_nat_digits by auto

subsection \<open>Hexadecimal numbers: \<open>{:02x}\<close> and \<open>{:016x}\<close>\<close>

definition hex_char :: "nat \<Rightarrow> char" where
  "hex_char d = (if d < 10 then char_of (48 + d) else char_of (87 + d))"

definition unhex_char :: "char \<Rightarrow> nat" where
  "unhex_char c = (let v = of_char c in if v < 58 then v - 48 else v - 87)"

text \<open>\<open>byte.is_ascii_digit() || (b'a'..=b'f').contains(&byte)\<close>\<close>

definition is_lower_hex :: "char \<Rightarrow> bool" where
  "is_lower_hex c \<longleftrightarrow> is_digit c \<or> (97 \<le> (of_char c :: nat) \<and> (of_char c :: nat) \<le> 102)"

fun show_hex :: "nat \<Rightarrow> nat \<Rightarrow> string" where
  "show_hex 0 v = []"
| "show_hex (Suc k) v = show_hex k (v div 16) @ [hex_char (v mod 16)]"

definition read_hex :: "string \<Rightarrow> nat" where
  "read_hex s = foldl (\<lambda>a c. 16 * a + unhex_char c) 0 s"

lemma of_char_hex_char:
  "d < 16 \<Longrightarrow> (of_char (hex_char d) :: nat) = (if d < 10 then 48 + d else 87 + d)"
  by (simp add: hex_char_def)

lemma unhex_hex_char [simp]: "d < 16 \<Longrightarrow> unhex_char (hex_char d) = d"
  by (simp add: unhex_char_def of_char_hex_char)

lemma is_lower_hex_hex_char [simp]: "d < 16 \<Longrightarrow> is_lower_hex (hex_char d)"
  by (auto simp: is_lower_hex_def is_digit_def of_char_hex_char)

lemma hex_char_0_iff: "d < 16 \<Longrightarrow> hex_char d = CHR ''0'' \<longleftrightarrow> d = 0"
proof
  assume "d < 16" and "hex_char d = CHR ''0''"
  then have "d = unhex_char (CHR ''0'')" by (metis unhex_hex_char)
  then show "d = 0" by (simp add: unhex_char_def)
next
  show "d = 0 \<Longrightarrow> hex_char d = CHR ''0''" by (simp add: hex_char_def char_of_eq_iff)
qed

lemma length_show_hex [simp]: "length (show_hex k v) = k"
  by (induction k arbitrary: v) simp_all

lemma show_hex_lower: "c \<in> set (show_hex k v) \<Longrightarrow> is_lower_hex c"
  by (induction k arbitrary: v) auto

lemma read_show_hex [simp]: "v < 16 ^ k \<Longrightarrow> read_hex (show_hex k v) = v"
proof (induction k arbitrary: v)
  case 0
  then show ?case by (simp add: read_hex_def)
next
  case (Suc k)
  then have "v div 16 < 16 ^ k" by (simp add: less_mult_imp_div_less mult.commute)
  from Suc.IH [OF this] show ?case by (simp add: read_hex_def)
qed

lemma show_hex_inject:
  "v < 16 ^ k \<Longrightarrow> w < 16 ^ k \<Longrightarrow> show_hex k v = show_hex k w \<longleftrightarrow> v = w"
  by (auto dest: arg_cong [of "show_hex k v" _ read_hex])

lemma show_hex_all_zero_iff: "v < 16 ^ k \<Longrightarrow> (\<forall>c\<in>set (show_hex k v). c = CHR ''0'') \<longleftrightarrow> v = 0"
proof (induction k arbitrary: v)
  case 0
  then show ?case by simp
next
  case (Suc k)
  then have "v div 16 < 16 ^ k" by (simp add: less_mult_imp_div_less mult.commute)
  from Suc.IH [OF this]
  have "(\<forall>c\<in>set (show_hex (Suc k) v). c = CHR ''0'') \<longleftrightarrow> v div 16 = 0 \<and> v mod 16 = 0"
    by (simp add: hex_char_0_iff ball_Un conj_commute)
  also have "\<dots> \<longleftrightarrow> v = 0" by presburger
  finally show ?case .
qed

subsection \<open>Prefixes and substrings: \<open>str::strip_prefix\<close>, \<open>str::find\<close>\<close>

fun strip_prefix :: "'a list \<Rightarrow> 'a list \<Rightarrow> 'a list option" where
  "strip_prefix [] s = Some s"
| "strip_prefix (p # ps) [] = None"
| "strip_prefix (p # ps) (c # cs) = (if p = c then strip_prefix ps cs else None)"

lemma strip_prefix_Some_iff: "strip_prefix p s = Some t \<longleftrightarrow> s = p @ t"
  by (induction p s rule: strip_prefix.induct) auto

lemma strip_prefix_append [simp]: "strip_prefix p (p @ t) = Some t"
  by (simp add: strip_prefix_Some_iff)

definition starts_with :: "'a list \<Rightarrow> 'a list \<Rightarrow> bool" where
  "starts_with p s \<longleftrightarrow> strip_prefix p s \<noteq> None"

fun find_sub :: "'a list \<Rightarrow> 'a list \<Rightarrow> nat option" where
  "find_sub p [] = (if p = [] then Some 0 else None)"
| "find_sub p (c # cs) = (if starts_with p (c # cs) then Some 0 else map_option Suc (find_sub p cs))"

lemma find_sub_Some: "find_sub p s = Some k \<Longrightarrow> \<exists>u t. s = u @ p @ t \<and> length u = k"
proof (induction s arbitrary: k)
  case Nil
  then show ?case by (auto split: if_splits)
next
  case (Cons c cs)
  show ?case
  proof (cases "starts_with p (c # cs)")
    case True
    then obtain t where "strip_prefix p (c # cs) = Some t" by (auto simp: starts_with_def)
    then have "c # cs = [] @ p @ t" by (simp only: strip_prefix_Some_iff append_Nil)
    moreover from True Cons.prems have "length ([] :: 'a list) = k" by simp
    ultimately show ?thesis by blast
  next
    case False
    with Cons.prems obtain j where j: "find_sub p cs = Some j" "k = Suc j" by auto
    from Cons.IH [OF j(1)] obtain u t where "cs = u @ p @ t" "length u = j" by blast
    with j(2) have "c # cs = (c # u) @ p @ t \<and> length (c # u) = k" by simp
    then show ?thesis by blast
  qed
qed

lemma find_sub_bound: "find_sub p s = Some k \<Longrightarrow> k + length p \<le> length s"
  by (auto dest!: find_sub_Some)

lemma find_sub_None_imp: "find_sub p s = None \<Longrightarrow> s \<noteq> a @ p @ b"
proof (induction s arbitrary: a)
  case Nil
  then show ?case by (auto split: if_splits)
next
  case (Cons c cs)
  then have no: "\<not> starts_with p (c # cs)" and tl: "find_sub p cs = None"
    by (auto split: if_splits)
  show ?case
  proof
    assume eq: "c # cs = a @ p @ b"
    show False
    proof (cases a)
      case Nil
      with eq have "strip_prefix p (c # cs) = Some b" by (simp only: strip_prefix_Some_iff append_Nil)
      with no show False by (simp add: starts_with_def)
    next
      case (Cons x xs)
      with eq have "cs = xs @ p @ b" by simp
      with \<open>\<And>a. find_sub p cs = None \<Longrightarrow> cs \<noteq> a @ p @ b\<close> tl show False by blast
    qed
  qed
qed

section \<open>Hash maps\<close>

text \<open>
  A hash map whose size or values are read is an association list with distinct keys; the
  library's \<^const>\<open>AList.update\<close> and \<^const>\<open>AList.delete\<close> insert and remove.
\<close>

lemma length_alist_update:
  "length (AList.update k v al) = (if k \<in> fst ` set al then length al else Suc (length al))"
  by (induction al) auto

lemma set_alist_update: "set (AList.update k v al) \<subseteq> insert (k, v) (set al)"
  by (induction al) auto

lemma set_alist_delete: "set (AList.delete k al) \<subseteq> set al"
  by (auto simp: AList.delete_eq)

lemma fst_set_alist_delete: "fst ` set (AList.delete k al) = fst ` set al - {k}"
  by (force simp: AList.delete_eq)

lemma map_of_None_iff: "map_of al k = None \<longleftrightarrow> k \<notin> fst ` set al"
  by (simp add: map_of_eq_None_iff)

lemma sum_list_alist_update:
  "sum_list (map (\<lambda>(_, x). f x) (AList.update k v al)) + (case map_of al k of None \<Rightarrow> 0 | Some u \<Rightarrow> f u)
     = sum_list (map (\<lambda>(_, x). f x) al) + (f v :: nat)"
  by (induction al) auto

lemma sum_list_alist_delete:
  "distinct (map fst al) \<Longrightarrow>
   sum_list (map (\<lambda>(_, x). f x) (AList.delete k al)) + (case map_of al k of None \<Rightarrow> 0 | Some u \<Rightarrow> f u)
     = sum_list (map (\<lambda>(_, x). (f x :: nat)) al)"
proof (induction al)
  case (Cons p al)
  then show ?case by (cases p) (auto simp: image_iff dest: map_of_SomeD split: option.splits)
qed simp

section \<open>Event-driven components\<close>

text \<open>
  A component that handles one event at a time: what each event preserves holds after every
  sequence of events, and what each event can only increase grows along every sequence.
\<close>

locale event_machine =
  fixes step :: "'s \<Rightarrow> 'e \<Rightarrow> 's"
    and inv :: "'s \<Rightarrow> bool"
  assumes inv_step: "inv s \<Longrightarrow> inv (step s e)"
begin

lemma inv_run: "inv s \<Longrightarrow> inv (foldl step s es)"
  by (induction es arbitrary: s) (auto intro: inv_step)

end

locale growing_machine =
  fixes step :: "'s \<Rightarrow> 'e \<Rightarrow> 's"
    and below :: "'s \<Rightarrow> 's \<Rightarrow> bool"
  assumes below_refl: "below s s"
    and below_trans: "below s t \<Longrightarrow> below t u \<Longrightarrow> below s u"
    and below_step: "below s (step s e)"
begin

lemma below_run: "below s (foldl step s es)"
proof (induction es arbitrary: s)
  case Nil
  show ?case by (simp add: below_refl)
next
  case (Cons e es)
  have "below (step s e) (foldl step (step s e) es)" by (rule Cons.IH)
  from below_trans [OF below_step this] show ?case by simp
qed

end

end
