(* ===== verification/Attempt_Activity.thy ===== *)
theory Attempt_Activity
  imports Bridge_Prelude
begin

text \<open>
  Activity and meaningful-progress recording of one attempt (\<open>attempt_activity.rs\<close>) and the
  no-progress warning cadence built on it (\<open>no_progress_warning.rs\<close>). The monotonic clock
  is read once by each observation, so an observation takes the milliseconds it read as an
  argument. A recorder is the state its mutex guards; the lock is never poisoned in the model, since no
  operation under it can panic. The trait \<open>AttemptRecorder\<close> is the locale \<open>attempt_recorder\<close>, and
  each of its implementations interprets it.
\<close>

section \<open>Phases, reasons and observations\<close>

definition MAX_ACTIVITY_RECORDS :: u32 where "MAX_ACTIVITY_RECORDS = 64"

datatype AttemptPhase =
  Admission | Checkout | Configure | Provider | Adapter | ToolPhase | Verification | Waiter
| CleanupPhase | TerminalStore

fun phase_index :: "AttemptPhase \<Rightarrow> nat" where
  "phase_index Admission = 0"
| "phase_index Checkout = 1"
| "phase_index Configure = 2"
| "phase_index Provider = 3"
| "phase_index Adapter = 4"
| "phase_index ToolPhase = 5"
| "phase_index Verification = 6"
| "phase_index Waiter = 7"
| "phase_index CleanupPhase = 8"
| "phase_index TerminalStore = 9"

definition ATTEMPT_PHASE_COUNT :: nat where "ATTEMPT_PHASE_COUNT = 10"

datatype ActivityReason =
  PhaseTransition | MessageDelta | ThoughtDelta | UsageHighWater | ToolTransition
| OwnedChildTransition | OwnedChildOutput | RepositoryOrdinal | GateStarted | GateExited
| CompletedSetGrowth | ProducerTerminal | Heartbeat

datatype ActivityKind = Activity | MeaningfulProgress

record AttemptActivity =
  activity_phase :: AttemptPhase
  activity_reason :: ActivityReason
  activity_kind :: ActivityKind
  activity_elapsed_ms :: u64
  activity_advance :: u64

fun reason_index :: "ActivityReason \<Rightarrow> nat" where
  "reason_index PhaseTransition = 0"
| "reason_index MessageDelta = 1"
| "reason_index ThoughtDelta = 2"
| "reason_index UsageHighWater = 3"
| "reason_index ToolTransition = 4"
| "reason_index OwnedChildTransition = 5"
| "reason_index OwnedChildOutput = 6"
| "reason_index RepositoryOrdinal = 7"
| "reason_index GateStarted = 8"
| "reason_index GateExited = 9"
| "reason_index CompletedSetGrowth = 10"
| "reason_index ProducerTerminal = 11"
| "reason_index Heartbeat = 12"

fun activity_reason_supports_meaningful_progress_v1 :: "ActivityReason \<Rightarrow> bool" where
  "activity_reason_supports_meaningful_progress_v1 PhaseTransition = True"
| "activity_reason_supports_meaningful_progress_v1 MessageDelta = True"
| "activity_reason_supports_meaningful_progress_v1 ThoughtDelta = True"
| "activity_reason_supports_meaningful_progress_v1 UsageHighWater = False"
| "activity_reason_supports_meaningful_progress_v1 ToolTransition = True"
| "activity_reason_supports_meaningful_progress_v1 OwnedChildTransition = True"
| "activity_reason_supports_meaningful_progress_v1 OwnedChildOutput = False"
| "activity_reason_supports_meaningful_progress_v1 RepositoryOrdinal = True"
| "activity_reason_supports_meaningful_progress_v1 GateStarted = True"
| "activity_reason_supports_meaningful_progress_v1 GateExited = True"
| "activity_reason_supports_meaningful_progress_v1 CompletedSetGrowth = True"
| "activity_reason_supports_meaningful_progress_v1 ProducerTerminal = True"
| "activity_reason_supports_meaningful_progress_v1 Heartbeat = False"

section \<open>Schedule mathematics\<close>

record AttemptScheduleObservationV1 =
  schedule_elapsed_ms :: u64
  schedule_remaining_ms :: u64
  schedule_due :: bool

definition schedule_observe :: "u64 \<Rightarrow> u64 \<Rightarrow> u64 \<Rightarrow> AttemptScheduleObservationV1" where
  "schedule_observe clock_ms started_ms bound_ms =
     (let elapsed = sat_sub clock_ms started_ms
      in \<lparr>schedule_elapsed_ms = elapsed, schedule_remaining_ms = sat_sub bound_ms elapsed,
          schedule_due = (bound_ms \<le> elapsed)\<rparr>)"

section \<open>The accumulator\<close>

record ActivityTally =
  activity :: u32
  meaningful_progress :: u32
  phase_activity :: "u32 list"
  last_elapsed_ms :: u64
  last_progress_elapsed_ms :: u64
  max_advance :: u64
  overflowed :: bool

record AttemptActivityAccumulator =
  tally :: ActivityTally
  high_water :: "u64 list list"

definition new_tally :: ActivityTally where
  "new_tally = \<lparr>activity = 0, meaningful_progress = 0, phase_activity = replicate ATTEMPT_PHASE_COUNT 0,
     last_elapsed_ms = 0, last_progress_elapsed_ms = 0, max_advance = 0, overflowed = False\<rparr>"

definition new_accumulator :: AttemptActivityAccumulator where
  "new_accumulator = \<lparr>tally = new_tally, high_water = replicate ATTEMPT_PHASE_COUNT (replicate 13 0)\<rparr>"

definition tally_activity :: "ActivityTally \<Rightarrow> AttemptPhase \<Rightarrow> ActivityKind \<Rightarrow> u64 \<Rightarrow> u64 \<Rightarrow> ActivityTally" where
  "tally_activity t ph k elapsed advance =
     (if MAX_ACTIVITY_RECORDS \<le> sat_add (activity t) (meaningful_progress t) then t\<lparr>overflowed := True\<rparr>
      else
        let t = (case k of
              Activity \<Rightarrow> t\<lparr>activity := sat_add (activity t) 1\<rparr>
            | MeaningfulProgress \<Rightarrow>
                t\<lparr>meaningful_progress := sat_add (meaningful_progress t) 1,
                  last_progress_elapsed_ms := elapsed,
                  max_advance := max (max_advance t) advance\<rparr>);
            i = phase_index ph
        in t\<lparr>phase_activity := (phase_activity t)[i := sat_add (phase_activity t ! i) 1],
             last_elapsed_ms := max (last_elapsed_ms t) elapsed\<rparr>)"

definition cell :: "u64 list list \<Rightarrow> AttemptPhase \<Rightarrow> ActivityReason \<Rightarrow> u64" where
  "cell hw ph rs = hw ! phase_index ph ! reason_index rs"

definition set_cell :: "u64 list list \<Rightarrow> AttemptPhase \<Rightarrow> ActivityReason \<Rightarrow> u64 \<Rightarrow> u64 list list" where
  "set_cell hw ph rs v = hw[phase_index ph := (hw ! phase_index ph)[reason_index rs := v]]"

definition accumulator_observe ::
  "AttemptActivityAccumulator \<Rightarrow> u64 \<Rightarrow> AttemptPhase \<Rightarrow> ActivityReason \<Rightarrow> u64
     \<Rightarrow> AttemptActivity \<times> AttemptActivityAccumulator" where
  "accumulator_observe acc elapsed ph rs proposed_advance =
     (let prior = cell (high_water acc) ph rs;
          progresses = (activity_reason_supports_meaningful_progress_v1 rs \<and> prior < proposed_advance);
          acc = (if progresses then acc\<lparr>high_water := set_cell (high_water acc) ph rs proposed_advance\<rparr> else acc);
          k = (if progresses then MeaningfulProgress else Activity);
          acc = acc\<lparr>tally := tally_activity (tally acc) ph k elapsed proposed_advance\<rparr>
      in (\<lparr>activity_phase = ph, activity_reason = rs, activity_kind = k, activity_elapsed_ms = elapsed,
           activity_advance = proposed_advance\<rparr>, acc))"

definition accumulator_mark_overflowed :: "AttemptActivityAccumulator \<Rightarrow> AttemptActivityAccumulator" where
  "accumulator_mark_overflowed acc = acc\<lparr>tally := (tally acc)\<lparr>overflowed := True\<rparr>\<rparr>"

section \<open>The recorders\<close>

text \<open>\<open>SharedAttemptRecorder\<close>: the accumulator behind a mutex.\<close>

definition shared_record ::
  "u64 \<Rightarrow> AttemptPhase \<Rightarrow> ActivityReason \<Rightarrow> u64 \<Rightarrow> AttemptActivityAccumulator
     \<Rightarrow> AttemptActivity option \<times> AttemptActivityAccumulator" where
  "shared_record now ph rs adv acc = (let (a, acc') = accumulator_observe acc now ph rs adv in (Some a, acc'))"

definition shared_tally :: "AttemptActivityAccumulator \<Rightarrow> ActivityTally option" where
  "shared_tally acc = Some (tally acc)"

text \<open>\<open>NoopAttemptRecorder\<close>: the trait's defaults.\<close>

definition noop_record ::
  "u64 \<Rightarrow> AttemptPhase \<Rightarrow> ActivityReason \<Rightarrow> u64 \<Rightarrow> unit \<Rightarrow> AttemptActivity option \<times> unit" where
  "noop_record now ph rs adv s = (None, s)"

definition noop_tally :: "unit \<Rightarrow> ActivityTally option" where
  "noop_tally s = None"

definition noop_mark_overflowed :: "unit \<Rightarrow> unit" where
  "noop_mark_overflowed s = s"

text \<open>\<open>ReplayEffectRecorderV1\<close>: a shared recorder and the sticky effects bit.\<close>

record ReplayEffectRecorderV1 =
  replay_inner :: AttemptActivityAccumulator
  effects :: bool

definition new_replay :: ReplayEffectRecorderV1 where
  "new_replay = \<lparr>replay_inner = new_accumulator, effects = False\<rparr>"

definition has_effects :: "ReplayEffectRecorderV1 \<Rightarrow> bool" where
  "has_effects r \<longleftrightarrow> effects r \<or> (case shared_tally (replay_inner r) of None \<Rightarrow> True | Some t \<Rightarrow> overflowed t)"

definition replay_record ::
  "u64 \<Rightarrow> AttemptPhase \<Rightarrow> ActivityReason \<Rightarrow> u64 \<Rightarrow> ReplayEffectRecorderV1
     \<Rightarrow> AttemptActivity option \<times> ReplayEffectRecorderV1" where
  "replay_record now ph rs adv r =
     (let r = (if rs \<in> {MessageDelta, ThoughtDelta, ToolTransition} then r\<lparr>effects := True\<rparr> else r);
          (a, inner) = shared_record now ph rs adv (replay_inner r)
      in (a, r\<lparr>replay_inner := inner\<rparr>))"

definition replay_tally :: "ReplayEffectRecorderV1 \<Rightarrow> ActivityTally option" where
  "replay_tally r = shared_tally (replay_inner r)"

definition replay_mark_overflowed :: "ReplayEffectRecorderV1 \<Rightarrow> ReplayEffectRecorderV1" where
  "replay_mark_overflowed r = r\<lparr>replay_inner := accumulator_mark_overflowed (replay_inner r)\<rparr>"

text \<open>
  \<open>AttemptScopeOwner\<close>: the attempt's recorder, the cumulative cells it shares with its turn scopes,
  and the local cells of the scopes it has handed out, in the order \<open>turn_scope\<close> made them.
\<close>

definition SCOPED_REASON_COUNT :: nat where "SCOPED_REASON_COUNT = 4"
definition SCOPED_CELL_COUNT :: nat where "SCOPED_CELL_COUNT = ATTEMPT_PHASE_COUNT * SCOPED_REASON_COUNT"

fun scoped_reason_index :: "ActivityReason \<Rightarrow> nat option" where
  "scoped_reason_index MessageDelta = Some 0"
| "scoped_reason_index ThoughtDelta = Some 1"
| "scoped_reason_index UsageHighWater = Some 2"
| "scoped_reason_index ToolTransition = Some 3"
| "scoped_reason_index _ = None"

record AttemptScopeOwner =
  recorder :: AttemptActivityAccumulator
  attempt_high_water :: "u64 list"
  local_high_waters :: "u64 list list"

definition new_scope_owner :: AttemptScopeOwner where
  "new_scope_owner = \<lparr>recorder = new_accumulator, attempt_high_water = replicate SCOPED_CELL_COUNT 0,
     local_high_waters = []\<rparr>"

definition turn_scope :: "AttemptScopeOwner \<Rightarrow> nat \<times> AttemptScopeOwner" where
  "turn_scope ow = (length (local_high_waters ow),
     ow\<lparr>local_high_waters := local_high_waters ow @ [replicate SCOPED_CELL_COUNT 0]\<rparr>)"

definition scoped_record ::
  "nat \<Rightarrow> u64 \<Rightarrow> AttemptPhase \<Rightarrow> ActivityReason \<Rightarrow> u64 \<Rightarrow> AttemptScopeOwner
     \<Rightarrow> AttemptActivity option \<times> AttemptScopeOwner" where
  "scoped_record sc now ph rs adv ow =
     (case scoped_reason_index rs of
        None \<Rightarrow> (let (a, acc) = shared_record now ph rs adv (recorder ow) in (a, ow\<lparr>recorder := acc\<rparr>))
      | Some scoped_reason \<Rightarrow>
          (let index = phase_index ph * SCOPED_REASON_COUNT + scoped_reason;
               local = local_high_waters ow ! sc;
               prior = local ! index;
               (translated, ow) =
                 (if prior < adv then
                    let ow = ow\<lparr>local_high_waters := (local_high_waters ow)[sc := local[index := adv]]\<rparr>;
                        delta = adv - prior
                    in case checked_add (attempt_high_water ow ! index) delta of
                         Some nxt \<Rightarrow>
                           (nxt, ow\<lparr>attempt_high_water := (attempt_high_water ow)[index := nxt]\<rparr>)
                       | None \<Rightarrow>
                           (- 1, ow\<lparr>attempt_high_water := (attempt_high_water ow)[index := - 1],
                                   recorder := accumulator_mark_overflowed (recorder ow)\<rparr>)
                  else (attempt_high_water ow ! index, ow));
               (observation, acc) = shared_record now ph rs translated (recorder ow)
           in (observation, ow\<lparr>recorder := acc\<rparr>)))"

definition scoped_tally :: "AttemptScopeOwner \<Rightarrow> ActivityTally option" where
  "scoped_tally ow = shared_tally (recorder ow)"

definition scoped_mark_overflowed :: "AttemptScopeOwner \<Rightarrow> AttemptScopeOwner" where
  "scoped_mark_overflowed ow = ow\<lparr>recorder := accumulator_mark_overflowed (recorder ow)\<rparr>"

section \<open>No-progress warnings\<close>

definition NO_PROGRESS_WARNING_INTERVAL_MS :: u64 where "NO_PROGRESS_WARNING_INTERVAL_MS = 1800000"

definition no_progress_warning_ordinal_v1 :: "u64 \<Rightarrow> u64 \<Rightarrow> u64" where
  "no_progress_warning_ordinal_v1 now_elapsed_ms last_ms =
     sat_sub now_elapsed_ms last_ms div NO_PROGRESS_WARNING_INTERVAL_MS"

record NoProgressWarningV1 =
  ordinal :: u64
  superseded_ordinal_count :: u64
  observed_at_elapsed_ms :: u64
  warning_last_activity_elapsed_ms :: u64
  warning_last_progress_elapsed_ms :: u64

record NoProgressWarningEpochV1 =
  last_activity_elapsed_ms :: u64
  last_meaningful_progress_elapsed_ms :: u64
  last_emitted_ordinal :: u64

definition new_epoch :: "u64 \<Rightarrow> NoProgressWarningEpochV1" where
  "new_epoch started = \<lparr>last_activity_elapsed_ms = started, last_meaningful_progress_elapsed_ms = started,
     last_emitted_ordinal = 0\<rparr>"

definition observe_activity :: "NoProgressWarningEpochV1 \<Rightarrow> AttemptActivity \<Rightarrow> NoProgressWarningEpochV1" where
  "observe_activity ep a =
     (let ep = ep\<lparr>last_activity_elapsed_ms := max (last_activity_elapsed_ms ep) (activity_elapsed_ms a)\<rparr>
      in if activity_kind a = MeaningfulProgress
            \<and> activity_reason_supports_meaningful_progress_v1 (activity_reason a)
            \<and> last_meaningful_progress_elapsed_ms ep < activity_elapsed_ms a
         then ep\<lparr>last_meaningful_progress_elapsed_ms :=
                   max (last_meaningful_progress_elapsed_ms ep) (activity_elapsed_ms a),
                 last_emitted_ordinal := 0\<rparr>
         else ep)"

definition poll_elapsed ::
  "NoProgressWarningEpochV1 \<Rightarrow> u64 \<Rightarrow> NoProgressWarningV1 option \<times> NoProgressWarningEpochV1" where
  "poll_elapsed ep now =
     (let n = no_progress_warning_ordinal_v1 now (last_meaningful_progress_elapsed_ms ep)
      in if last_emitted_ordinal ep < n then
           (Some \<lparr>ordinal = n,
                  superseded_ordinal_count = sat_sub (sat_sub n (last_emitted_ordinal ep)) 1,
                  observed_at_elapsed_ms = now,
                  warning_last_activity_elapsed_ms = last_activity_elapsed_ms ep,
                  warning_last_progress_elapsed_ms = last_meaningful_progress_elapsed_ms ep\<rparr>,
            ep\<lparr>last_emitted_ordinal := n\<rparr>)
         else (None, ep))"

section \<open>What the tally records\<close>

lemma phase_index_less [simp]: "phase_index p < 10"
  by (cases p) auto

lemma phase_index_inject [simp]: "phase_index p = phase_index q \<longleftrightarrow> p = q"
  by (cases p; cases q) auto

lemma reason_index_less [simp]: "reason_index r < 13"
  by (cases r) auto

lemma reason_index_inject [simp]: "reason_index r = reason_index q \<longleftrightarrow> r = q"
  by (cases r; cases q) auto

type_synonym observation = "u64 \<times> AttemptPhase \<times> ActivityReason \<times> u64"

fun accumulator_run ::
  "AttemptActivityAccumulator \<Rightarrow> observation list \<Rightarrow> AttemptActivity list \<times> AttemptActivityAccumulator" where
  "accumulator_run acc [] = ([], acc)"
| "accumulator_run acc ((now, ph, rs, adv) # os) =
     (let (a, acc') = accumulator_observe acc now ph rs adv;
          (as, acc'') = accumulator_run acc' os
      in (a # as, acc''))"

text \<open>What a tally says of the observations it stands for.\<close>

definition tally_stands_for :: "ActivityTally \<Rightarrow> AttemptActivity list \<Rightarrow> bool" where
  "tally_stands_for t as \<longleftrightarrow>
     unat (activity t) = length (filter (\<lambda>a. activity_kind a = Activity) as)
     \<and> unat (meaningful_progress t) = length (filter (\<lambda>a. activity_kind a = MeaningfulProgress) as)
     \<and> length (phase_activity t) = ATTEMPT_PHASE_COUNT
     \<and> (\<forall>p. unat (phase_activity t ! phase_index p) = length (filter (\<lambda>a. activity_phase a = p) as))
     \<and> last_elapsed_ms t = fold max (map activity_elapsed_ms as) 0
     \<and> max_advance t = fold max (map activity_advance (filter (\<lambda>a. activity_kind a = MeaningfulProgress) as)) 0
     \<and> last_progress_elapsed_ms t =
         fold (\<lambda>a _. activity_elapsed_ms a) (filter (\<lambda>a. activity_kind a = MeaningfulProgress) as) 0"

lemma tally_stands_for_new: "tally_stands_for new_tally []"
  by (simp add: tally_stands_for_def new_tally_def ATTEMPT_PHASE_COUNT_def)

lemma kinds_partition:
  "length (filter (\<lambda>a. activity_kind a = Activity) as)
     + length (filter (\<lambda>a. activity_kind a = MeaningfulProgress) as) = length as"
proof (induction as)
  case (Cons a as)
  then show ?case by (cases "activity_kind a") simp_all
qed simp

lemma tally_full_iff:
  assumes "tally_stands_for t as" "length as \<le> 64"
  shows "MAX_ACTIVITY_RECORDS \<le> sat_add (activity t) (meaningful_progress t) \<longleftrightarrow> 64 \<le> length as"
  using assms kinds_partition [of as]
  by (simp add: tally_stands_for_def MAX_ACTIVITY_RECORDS_def word_le_nat_alt unat_sat_add)

lemma unat_sat_Suc: "unat (x :: u32) < 2 ^ 31 \<Longrightarrow> unat (sat_add x 1) = Suc (unat x)"
  by (simp add: unat_sat_add)

lemma tally_activity_below:
  assumes st: "tally_stands_for t as" and len: "length as < 64"
    and a: "a = \<lparr>activity_phase = ph, activity_reason = rs, activity_kind = k,
      activity_elapsed_ms = now, activity_advance = adv\<rparr>"
  shows "tally_stands_for (tally_activity t ph k now adv) (as @ [a])"
    and "overflowed (tally_activity t ph k now adv) = overflowed t"
proof -
  have room: "\<not> MAX_ACTIVITY_RECORDS \<le> sat_add (activity t) (meaningful_progress t)"
    using tally_full_iff [OF st] len by simp
  have le: "length (filter P as) < 2 ^ 31" for P
    using order_le_less_trans [OF length_filter_le len, of P] by (rule order_less_trans) simp
  have counts: "unat (activity t) < 2 ^ 31" "unat (meaningful_progress t) < 2 ^ 31"
    "unat (phase_activity t ! phase_index p) < 2 ^ 31" for p
    using st le by (simp_all add: tally_stands_for_def)
  have sat: "unat (sat_add (activity t) 1) = Suc (unat (activity t))"
    "unat (sat_add (meaningful_progress t) 1) = Suc (unat (meaningful_progress t))"
    "unat (sat_add (phase_activity t ! phase_index p) 1) = Suc (unat (phase_activity t ! phase_index p))" for p
    by (rule unat_sat_Suc, rule counts)+
  show "tally_stands_for (tally_activity t ph k now adv) (as @ [a])"
    using st room sat
    by (cases k) (auto simp: tally_stands_for_def tally_activity_def a nth_list_update
        ATTEMPT_PHASE_COUNT_def max.commute Let_def)
  show "overflowed (tally_activity t ph k now adv) = overflowed t"
    using room by (cases k) (simp_all add: tally_activity_def Let_def)
qed

lemma accumulator_run_append:
  "accumulator_run acc (os @ os') =
     (let (as, acc') = accumulator_run acc os; (as', acc'') = accumulator_run acc' os' in (as @ as', acc''))"
  by (induction acc os rule: accumulator_run.induct) (auto simp: Let_def split: prod.splits)

lemma accumulator_observe_parts:
  "snd (accumulator_observe acc now ph rs adv) =
     \<lparr>tally = tally_activity (tally acc) ph (activity_kind (fst (accumulator_observe acc now ph rs adv))) now adv,
      high_water = (if activity_reason_supports_meaningful_progress_v1 rs
          \<and> cell (high_water acc) ph rs < adv then set_cell (high_water acc) ph rs adv else high_water acc)\<rparr>"
  "fst (accumulator_observe acc now ph rs adv) =
     \<lparr>activity_phase = ph, activity_reason = rs,
      activity_kind = (if activity_reason_supports_meaningful_progress_v1 rs
          \<and> cell (high_water acc) ph rs < adv then MeaningfulProgress else Activity),
      activity_elapsed_ms = now, activity_advance = adv\<rparr>"
  by (simp_all add: accumulator_observe_def Let_def)

lemma length_accumulator_run [simp]: "length (fst (accumulator_run acc os)) = length os"
  by (induction acc os rule: accumulator_run.induct) (auto simp: Let_def split: prod.splits)

lemma accumulator_run_snoc:
  "fst (accumulator_run acc (os @ [(now, ph, rs, adv)])) =
     fst (accumulator_run acc os) @ [fst (accumulator_observe (snd (accumulator_run acc os)) now ph rs adv)]"
  "snd (accumulator_run acc (os @ [(now, ph, rs, adv)])) =
     snd (accumulator_observe (snd (accumulator_run acc os)) now ph rs adv)"
  by (simp_all add: accumulator_run_append Let_def split_beta)

text \<open>
  An attempt's activity tally is exactly the summary of its first 64 observations. The counts of
  activity and of meaningful progress, the count of each phase, the latest elapsed time, the largest
  advance and the time of the last progress are those of the first 64 observations, whatever follows,
  and the overflow marker is set exactly when there were more.
\<close>

theorem tally_summarises_first_64:
  "tally_stands_for (tally (snd (accumulator_run new_accumulator os)))
     (take 64 (fst (accumulator_run new_accumulator os)))
   \<and> (overflowed (tally (snd (accumulator_run new_accumulator os))) \<longleftrightarrow> 64 < length os)"
proof (induction os rule: rev_induct)
  case Nil
  show ?case by (simp add: new_accumulator_def tally_stands_for_new) (simp add: new_tally_def)
next
  case (snoc ob os)
  obtain now ph rs adv where ob: "ob = (now, ph, rs, adv)" by (cases ob)
  let ?acc = "snd (accumulator_run new_accumulator os)" and ?as = "fst (accumulator_run new_accumulator os)"
  show ?case
  proof (cases "length os < 64")
    case True
    with snoc tally_activity_below [of "tally ?acc" ?as _ ph rs _ now adv] show ?thesis
      by (simp add: ob accumulator_run_snoc accumulator_observe_parts)
  next
    case False
    then have "MAX_ACTIVITY_RECORDS \<le> sat_add (activity (tally ?acc)) (meaningful_progress (tally ?acc))"
      using tally_full_iff [of "tally ?acc" "take 64 ?as"] snoc by simp
    then have "tally_activity (tally ?acc) ph k now adv = (tally ?acc)\<lparr>overflowed := True\<rparr>" for k
      by (simp add: tally_activity_def)
    with snoc False show ?thesis
      by (simp add: ob accumulator_run_snoc accumulator_observe_parts) (simp add: tally_stands_for_def)
  qed
qed

section \<open>What counts as progress\<close>

definition water_ok :: "u64 list list \<Rightarrow> bool" where
  "water_ok hw \<longleftrightarrow> length hw = ATTEMPT_PHASE_COUNT \<and> (\<forall>row\<in>set hw. length row = 13)"

lemma water_ok_row: "water_ok hw \<Longrightarrow> length (hw ! phase_index p) = 13"
  by (simp add: water_ok_def ATTEMPT_PHASE_COUNT_def)

lemma cell_set_cell:
  "water_ok hw \<Longrightarrow> cell (set_cell hw p r v) q s = (if p = q \<and> r = s then v else cell hw q s)"
  using water_ok_row [of hw p]
  by (auto simp: cell_def set_cell_def nth_list_update water_ok_def ATTEMPT_PHASE_COUNT_def)

lemma water_ok_set_cell: "water_ok hw \<Longrightarrow> water_ok (set_cell hw p r v)"
  using water_ok_row [of hw p]
  by (auto simp: water_ok_def set_cell_def dest!: set_update_subset_insert [THEN subsetD])

lemma water_ok_new: "water_ok (high_water new_accumulator)"
  "cell (high_water new_accumulator) p r = 0"
  by (auto simp: water_ok_def new_accumulator_def cell_def ATTEMPT_PHASE_COUNT_def)

text \<open>The advances an attempt has submitted for one phase and reason.\<close>

definition advances :: "observation list \<Rightarrow> AttemptPhase \<Rightarrow> ActivityReason \<Rightarrow> u64 list" where
  "advances os p r = map (snd \<circ> snd \<circ> snd) (filter (\<lambda>ob. fst (snd ob) = p \<and> fst (snd (snd ob)) = r) os)"

lemma advances_snoc:
  "advances (os @ [(now, ph, rs, adv)]) p r = advances os p r @ (if ph = p \<and> rs = r then [adv] else [])"
  by (simp add: advances_def)

lemma fold_max_less_iff: "fold max xs (m :: 'a :: linorder) < v \<longleftrightarrow> m < v \<and> (\<forall>x\<in>set xs. x < v)"
  by (induction xs arbitrary: m) auto

lemma high_water_run:
  "water_ok (high_water (snd (accumulator_run new_accumulator os)))
   \<and> (activity_reason_supports_meaningful_progress_v1 r \<longrightarrow>
      cell (high_water (snd (accumulator_run new_accumulator os))) p r = fold max (advances os p r) 0)"
proof (induction os rule: rev_induct)
  case Nil
  show ?case by (simp add: water_ok_new advances_def)
next
  case (snoc ob os)
  obtain now ph rs adv where ob: "ob = (now, ph, rs, adv)" by (cases ob)
  with snoc show ?case
    by (auto simp: accumulator_run_snoc accumulator_observe_parts advances_snoc cell_set_cell
        water_ok_set_cell max_def not_less)
qed

text \<open>
  Meaningful progress is a strictly larger advance and nothing else. Of the observations of an
  attempt, the one at any position is classified as meaningful progress exactly when its reason can
  show progress, its advance is positive and it exceeds every earlier advance submitted for the same
  phase and reason; elapsed time, repetition and other phases or reasons never make it progress.
\<close>

theorem progress_iff_new_maximum:
  "activity_kind (fst (accumulator_observe (snd (accumulator_run new_accumulator os)) now ph rs adv))
     = MeaningfulProgress
   \<longleftrightarrow> activity_reason_supports_meaningful_progress_v1 rs \<and> 0 < adv
       \<and> list_all (\<lambda>earlier. earlier < adv) (advances os ph rs)"
  using high_water_run [of os rs ph]
  by (auto simp: accumulator_observe_parts fold_max_less_iff list_all_iff)

section \<open>The recorder contract\<close>

datatype recorder_event = Record u64 AttemptPhase ActivityReason u64 | MarkOverflowed

fun recorder_step ::
  "(u64 \<Rightarrow> AttemptPhase \<Rightarrow> ActivityReason \<Rightarrow> u64 \<Rightarrow> 's \<Rightarrow> AttemptActivity option \<times> 's)
     \<Rightarrow> ('s \<Rightarrow> 's) \<Rightarrow> 's \<Rightarrow> recorder_event \<Rightarrow> 's" where
  "recorder_step rec mark s (Record now ph rs adv) = snd (rec now ph rs adv s)"
| "recorder_step rec mark s MarkOverflowed = mark s"

definition records :: "ActivityTally \<Rightarrow> nat" where
  "records t = unat (activity t) + unat (meaningful_progress t)"

locale attempt_recorder =
  fixes rec :: "u64 \<Rightarrow> AttemptPhase \<Rightarrow> ActivityReason \<Rightarrow> u64 \<Rightarrow> 's \<Rightarrow> AttemptActivity option \<times> 's"
    and tly :: "'s \<Rightarrow> ActivityTally option"
    and mark :: "'s \<Rightarrow> 's"
  assumes record_counts: "tly s = Some t \<Longrightarrow>
      \<exists>t'. tly (snd (rec now ph rs adv s)) = Some t' \<and> (overflowed t \<longrightarrow> overflowed t')
        \<and> (\<not> overflowed t' \<longrightarrow> records t' = records t + 1)"
    and mark_overflows: "tly s = Some t \<Longrightarrow> tly (mark s) = Some (t\<lparr>overflowed := True\<rparr>)"
begin

lemma counted_or_flagged:
  assumes "tly s = Some t"
  shows "\<exists>t'. tly (foldl (recorder_step rec mark) s es) = Some t'
    \<and> (overflowed t \<or> MarkOverflowed \<in> set es \<longrightarrow> overflowed t')
    \<and> (\<not> overflowed t' \<longrightarrow> records t' = records t + length es)"
  using assms
proof (induction es arbitrary: s t)
  case (Cons e es)
  obtain t1 where t1: "tly (recorder_step rec mark s e) = Some t1"
    "overflowed t \<or> e = MarkOverflowed \<longrightarrow> overflowed t1" "\<not> overflowed t1 \<longrightarrow> records t1 = records t + 1"
    using record_counts [OF Cons.prems] mark_overflows [OF Cons.prems] by (cases e) fastforce+
  from Cons.IH [OF t1(1)] t1(2,3) show ?case by auto
qed simp

end

subsection \<open>The implementations keep the contract\<close>

lemma tally_activity_cases:
  "64 \<le> records t \<Longrightarrow> tally_activity t ph k now adv = t\<lparr>overflowed := True\<rparr>"
  "records t < 64 \<Longrightarrow> records (tally_activity t ph k now adv) = records t + 1"
  "records t < 64 \<Longrightarrow> overflowed (tally_activity t ph k now adv) = overflowed t"
proof -
  have full: "MAX_ACTIVITY_RECORDS \<le> sat_add (activity t) (meaningful_progress t) \<longleftrightarrow> 64 \<le> records t"
    by (simp add: MAX_ACTIVITY_RECORDS_def word_le_nat_alt unat_sat_add records_def)
  then show "64 \<le> records t \<Longrightarrow> tally_activity t ph k now adv = t\<lparr>overflowed := True\<rparr>"
    by (simp add: tally_activity_def)
  assume room: "records t < 64"
  then have "unat (sat_add (activity t) 1) = Suc (unat (activity t))"
    "unat (sat_add (meaningful_progress t) 1) = Suc (unat (meaningful_progress t))"
    by (simp_all add: unat_sat_add records_def)
  with room full show "records (tally_activity t ph k now adv) = records t + 1"
    by (cases k) (simp_all add: tally_activity_def records_def Let_def)
  show "overflowed (tally_activity t ph k now adv) = overflowed t"
    using room full by (cases k) (simp_all add: tally_activity_def Let_def)
qed

lemma tally_activity_counts:
  "overflowed t \<Longrightarrow> overflowed (tally_activity t ph k now adv)"
  "\<not> overflowed (tally_activity t ph k now adv) \<Longrightarrow> records (tally_activity t ph k now adv) = records t + 1"
  using tally_activity_cases [of t ph k now adv] by (cases "records t < 64"; simp)+

lemma shared_record_simps:
  "snd (shared_record now ph rs adv acc) = snd (accumulator_observe acc now ph rs adv)"
  "fst (shared_record now ph rs adv acc) = Some (fst (accumulator_observe acc now ph rs adv))"
  by (simp_all add: shared_record_def Let_def split_beta)

lemma shared_record_tally:
  "\<exists>k. tally (snd (shared_record now ph rs adv acc)) = tally_activity (tally acc) ph k now adv"
  by (auto simp: shared_record_simps accumulator_observe_parts)

interpretation shared: attempt_recorder shared_record shared_tally accumulator_mark_overflowed
proof
  fix acc t now ph rs adv
  assume "shared_tally acc = Some t"
  then show "\<exists>t'. shared_tally (snd (shared_record now ph rs adv acc)) = Some t'
      \<and> (overflowed t \<longrightarrow> overflowed t') \<and> (\<not> overflowed t' \<longrightarrow> records t' = records t + 1)"
    using shared_record_tally [of now ph rs adv acc] tally_activity_counts [of "tally acc"]
    by (auto simp: shared_tally_def)
qed (simp add: shared_tally_def accumulator_mark_overflowed_def)

interpretation noop: attempt_recorder noop_record noop_tally noop_mark_overflowed
  by unfold_locales (simp_all add: noop_tally_def)

lemma replay_record_inner:
  "replay_inner (snd (replay_record now ph rs adv r)) = snd (shared_record now ph rs adv (replay_inner r))"
  "effects (snd (replay_record now ph rs adv r)) \<longleftrightarrow>
     effects r \<or> rs \<in> {MessageDelta, ThoughtDelta, ToolTransition}"
  by (simp_all add: replay_record_def Let_def split_beta)

interpretation replay: attempt_recorder replay_record replay_tally replay_mark_overflowed
  using shared.record_counts shared.mark_overflows
  by unfold_locales (simp_all add: replay_tally_def replay_record_inner replay_mark_overflowed_def)

lemma scoped_record_recorder:
  "\<exists>acc adv'. recorder (snd (scoped_record sc now ph rs adv ow)) = snd (shared_record now ph rs adv' acc)
     \<and> (acc = recorder ow \<or> acc = accumulator_mark_overflowed (recorder ow))"
  unfolding scoped_record_def
  by (cases "scoped_reason_index rs") (auto simp: Let_def split_beta split: option.split)

interpretation scoped: attempt_recorder "scoped_record sc" scoped_tally scoped_mark_overflowed
proof
  fix ow t now ph rs adv
  assume tly: "scoped_tally ow = Some t"
  obtain acc adv' where acc: "recorder (snd (scoped_record sc now ph rs adv ow)) = snd (shared_record now ph rs adv' acc)"
    "acc = recorder ow \<or> acc = accumulator_mark_overflowed (recorder ow)"
    using scoped_record_recorder by blast
  obtain u where u: "shared_tally acc = Some u" "u = t \<or> u = t\<lparr>overflowed := True\<rparr>"
    using acc(2) tly by (auto simp: scoped_tally_def shared_tally_def accumulator_mark_overflowed_def)
  then have "records u = records t" "overflowed t \<longrightarrow> overflowed u" by (auto simp: records_def)
  with shared.record_counts [OF u(1)] show "\<exists>t'. scoped_tally (snd (scoped_record sc now ph rs adv ow)) = Some t'
      \<and> (overflowed t \<longrightarrow> overflowed t') \<and> (\<not> overflowed t' \<longrightarrow> records t' = records t + 1)"
    unfolding scoped_tally_def acc(1) by metis
next
  fix ow t
  show "scoped_tally ow = Some t \<Longrightarrow> scoped_tally (scoped_mark_overflowed ow) = Some (t\<lparr>overflowed := True\<rparr>)"
    by (simp add: scoped_tally_def scoped_mark_overflowed_def shared.mark_overflows)
qed

lemma replay_run_tally:
  fixes es
  defines "t \<equiv> tally (replay_inner (foldl (recorder_step replay_record replay_mark_overflowed) new_replay es))"
  shows "if MarkOverflowed \<in> set es then overflowed t
    else records t = min 64 (length es) \<and> (overflowed t \<longleftrightarrow> 64 < length es)"
  unfolding t_def
proof (induction es rule: rev_induct)
  case Nil
  show ?case by (simp add: new_replay_def new_accumulator_def new_tally_def records_def)
next
  case (snoc e es)
  let ?r = "foldl (recorder_step replay_record replay_mark_overflowed) new_replay es"
  show ?case
  proof (cases e)
    case (Record now ph rs adv)
    obtain k where "tally (replay_inner (snd (replay_record now ph rs adv ?r))) =
        tally_activity (tally (replay_inner ?r)) ph k now adv"
      using shared_record_tally replay_record_inner(1) by metis
    with snoc Record tally_activity_cases [of "tally (replay_inner ?r)" ph k now adv]
      tally_activity_counts(1) [of "tally (replay_inner ?r)" ph k now adv]
    show ?thesis by (cases "length es < 64") (auto simp: records_def split: if_splits)
  next
    case MarkOverflowed
    then show ?thesis by (simp add: replay_mark_overflowed_def accumulator_mark_overflowed_def)
  qed
qed

fun provider_effect :: "recorder_event \<Rightarrow> bool" where
  "provider_effect (Record now ph rs adv) \<longleftrightarrow> rs \<in> {MessageDelta, ThoughtDelta, ToolTransition}"
| "provider_effect MarkOverflowed \<longleftrightarrow> False"

lemma replay_run_effects:
  "effects (foldl (recorder_step replay_record replay_mark_overflowed) r es) \<longleftrightarrow>
     effects r \<or> list_ex provider_effect es"
proof (induction es arbitrary: r)
  case (Cons e es)
  then show ?case
    by (cases e) (auto simp: replay_record_inner replay_mark_overflowed_def)
qed simp

text \<open>
  A replay is allowed only when nothing happened that could be lost. After any sequence of
  observations and overflow marks, the replay recorder reports effects exactly when some observation
  was a message, a thought or a tool transition, or an overflow was marked, or there were more
  observations than the tally holds.
\<close>

theorem replay_has_effects_iff:
  "has_effects (foldl (recorder_step replay_record replay_mark_overflowed) new_replay es) \<longleftrightarrow>
     list_ex provider_effect es \<or> MarkOverflowed \<in> set es \<or> 64 < length es"
  using replay_run_tally [of es] replay_run_effects [of new_replay es]
  by (auto simp: has_effects_def shared_tally_def new_replay_def split: if_splits)

section \<open>Turn scopes\<close>

definition scoped_cell :: "AttemptPhase \<Rightarrow> ActivityReason \<Rightarrow> nat" where
  "scoped_cell ph rs = phase_index ph * SCOPED_REASON_COUNT + (case scoped_reason_index rs of None \<Rightarrow> 0 | Some k \<Rightarrow> k)"

lemma scoped_reason_index_less: "scoped_reason_index rs = Some k \<Longrightarrow> k < 4"
  by (cases rs) auto

lemma scoped_reason_index_inject:
  "scoped_reason_index rs = Some k \<Longrightarrow> scoped_reason_index rs' = Some k \<Longrightarrow> rs = rs'"
  by (cases rs; cases rs') auto

lemma scoped_cell_less [simp]: "scoped_cell ph rs < SCOPED_CELL_COUNT"
proof -
  have "(case scoped_reason_index rs of None \<Rightarrow> 0 | Some k \<Rightarrow> k) < 4"
    using scoped_reason_index_less by (auto split: option.split)
  moreover have "phase_index ph < 10" by simp
  ultimately show ?thesis
    unfolding scoped_cell_def SCOPED_CELL_COUNT_def SCOPED_REASON_COUNT_def ATTEMPT_PHASE_COUNT_def by linarith
qed

lemma scoped_cell_inject:
  assumes "scoped_reason_index rs = Some k" "scoped_reason_index rs' = Some k'"
  shows "scoped_cell ph rs = scoped_cell ph' rs' \<longleftrightarrow> ph = ph' \<and> rs = rs'"
proof
  assume "scoped_cell ph rs = scoped_cell ph' rs'"
  then have eq: "phase_index ph * 4 + k = phase_index ph' * 4 + k'"
    using assms by (simp add: scoped_cell_def SCOPED_REASON_COUNT_def)
  have "k < 4" "k' < 4" using assms scoped_reason_index_less by blast+
  with eq have "phase_index ph = phase_index ph'" "k = k'" by presburger+
  with assms show "ph = ph' \<and> rs = rs'" using scoped_reason_index_inject by auto
qed simp

datatype scope_event = TurnScope | ScopeRecord nat u64 AttemptPhase ActivityReason u64

text \<open>A scope that was never handed out cannot record: there is no handle to call.\<close>

fun scope_step :: "AttemptScopeOwner \<Rightarrow> scope_event \<Rightarrow> AttemptScopeOwner" where
  "scope_step ow TurnScope = snd (turn_scope ow)"
| "scope_step ow (ScopeRecord sc now ph rs adv) =
     (if sc < length (local_high_waters ow) then snd (scoped_record sc now ph rs adv ow) else ow)"

definition scope_inv :: "AttemptScopeOwner \<Rightarrow> bool" where
  "scope_inv ow \<longleftrightarrow>
     water_ok (high_water (recorder ow)) \<and> length (attempt_high_water ow) = SCOPED_CELL_COUNT
     \<and> (\<forall>local\<in>set (local_high_waters ow). length local = SCOPED_CELL_COUNT)
     \<and> (\<forall>ph rs. activity_reason_supports_meaningful_progress_v1 rs \<and> scoped_reason_index rs \<noteq> None \<longrightarrow>
          cell (high_water (recorder ow)) ph rs = attempt_high_water ow ! scoped_cell ph rs)"

lemma observe_cell:
  assumes "water_ok (high_water acc)"
  shows "cell (high_water (snd (accumulator_observe acc now ph rs v))) p r =
      (if p = ph \<and> r = rs \<and> activity_reason_supports_meaningful_progress_v1 rs
       then max (cell (high_water acc) ph rs) v else cell (high_water acc) p r)"
    and "water_ok (high_water (snd (accumulator_observe acc now ph rs v)))"
  using assms by (auto simp: accumulator_observe_parts cell_set_cell water_ok_set_cell max_def)

lemma scope_invD:
  assumes "scope_inv ow"
  shows "water_ok (high_water (recorder ow))" "length (attempt_high_water ow) = SCOPED_CELL_COUNT"
    "local \<in> set (local_high_waters ow) \<Longrightarrow> length local = SCOPED_CELL_COUNT"
    "activity_reason_supports_meaningful_progress_v1 rs \<Longrightarrow> scoped_reason_index rs \<noteq> None \<Longrightarrow>
      cell (high_water (recorder ow)) ph rs = attempt_high_water ow ! scoped_cell ph rs"
  using assms by (auto simp: scope_inv_def)

text \<open>The three ways a scope records a scoped reason.\<close>

lemma scoped_record_cases:
  fixes sc ow ph rs
  defines "i \<equiv> scoped_cell ph rs"
  defines "prior \<equiv> local_high_waters ow ! sc ! i"
  assumes "scoped_reason_index rs = Some k"
  shows "\<not> prior < adv \<Longrightarrow> scoped_record sc now ph rs adv ow =
      (let (a, acc) = shared_record now ph rs (attempt_high_water ow ! i) (recorder ow)
       in (a, ow\<lparr>recorder := acc\<rparr>))"
    and "prior < adv \<Longrightarrow> checked_add (attempt_high_water ow ! i) (adv - prior) = Some nxt \<Longrightarrow>
      scoped_record sc now ph rs adv ow =
      (let (a, acc) = shared_record now ph rs nxt (recorder ow)
       in (a, ow\<lparr>recorder := acc, attempt_high_water := (attempt_high_water ow)[i := nxt],
              local_high_waters := (local_high_waters ow)[sc := (local_high_waters ow ! sc)[i := adv]]\<rparr>))"
    and "prior < adv \<Longrightarrow> checked_add (attempt_high_water ow ! i) (adv - prior) = None \<Longrightarrow>
      scoped_record sc now ph rs adv ow =
      (let (a, acc) = shared_record now ph rs (- 1) (accumulator_mark_overflowed (recorder ow))
       in (a, ow\<lparr>recorder := acc, attempt_high_water := (attempt_high_water ow)[i := - 1],
              local_high_waters := (local_high_waters ow)[sc := (local_high_waters ow ! sc)[i := adv]]\<rparr>))"
  using assms by (simp_all add: scoped_record_def scoped_cell_def Let_def split_beta)

lemma scope_inv_record:
  assumes "scope_inv ow" "high_water acc = high_water (recorder ow)" "scoped_reason_index rs = Some k"
    and "attempt_high_water ow ! scoped_cell ph rs \<le> v"
    and "\<And>local. local \<in> set L \<Longrightarrow> length local = SCOPED_CELL_COUNT"
  shows "scope_inv \<lparr>recorder = snd (accumulator_observe acc now ph rs v),
      attempt_high_water = (attempt_high_water ow)[scoped_cell ph rs := v], local_high_waters = L\<rparr>"
proof -
  note inv = scope_invD [OF assms(1)]
  have water: "water_ok (high_water acc)" using inv(1) assms(2) by simp
  have "cell (high_water (snd (accumulator_observe acc now ph rs v))) p r =
      (attempt_high_water ow)[scoped_cell ph rs := v] ! scoped_cell p r"
    if "activity_reason_supports_meaningful_progress_v1 r" "scoped_reason_index r = Some k'" for p r k'
  proof (cases "p = ph \<and> r = rs")
    case True
    with that inv(2,4) assms(2,4) show ?thesis by (simp add: observe_cell(1) [OF water] max_def)
  next
    case False
    then have "scoped_cell ph rs \<noteq> scoped_cell p r"
      using scoped_cell_inject [OF assms(3) that(2), of ph p] by blast
    with False that inv(4) assms(2) show ?thesis by (auto simp: observe_cell(1) [OF water])
  qed
  with inv(2) assms(5) observe_cell(2) [OF water] show ?thesis by (auto simp: scope_inv_def)
qed

lemma scope_inv_unscoped:
  assumes "scope_inv ow" "scoped_reason_index rs = None"
  shows "scope_inv (snd (scoped_record sc now ph rs adv ow))"
proof -
  note inv = scope_invD [OF assms(1)]
  have rec: "snd (scoped_record sc now ph rs adv ow) =
      ow\<lparr>recorder := snd (accumulator_observe (recorder ow) now ph rs adv)\<rparr>"
    using assms(2) by (simp add: scoped_record_def shared_record_simps Let_def split_beta)
  have "r \<noteq> rs" if "scoped_reason_index r \<noteq> None" for r using that assms(2) by auto
  with inv show ?thesis
    unfolding rec scope_inv_def by (auto simp: observe_cell [OF inv(1)])
qed

lemma scope_inv_scoped:
  assumes "scope_inv ow" "scoped_reason_index rs = Some k" "sc < length (local_high_waters ow)"
  shows "scope_inv (snd (scoped_record sc now ph rs adv ow))"
proof -
  define i where "i = scoped_cell ph rs"
  define prior where "prior = local_high_waters ow ! sc ! i"
  note inv = scope_invD [OF assms(1)]
  note cases3 = scoped_record_cases [OF assms(2), where ow = ow and sc = sc and ph = ph and adv = adv and now = now,
      folded i_def, folded prior_def]
  have locals: "length l = SCOPED_CELL_COUNT"
    if "l \<in> set ((local_high_waters ow)[sc := (local_high_waters ow ! sc)[i := adv]])" for l
    using set_update_subset_insert [THEN subsetD, OF that] inv(3) nth_mem [OF assms(3)] by auto
  show ?thesis
  proof (cases "prior < adv")
    case False
    have "scope_inv \<lparr>recorder = snd (accumulator_observe (recorder ow) now ph rs (attempt_high_water ow ! i)),
        attempt_high_water = (attempt_high_water ow)[i := attempt_high_water ow ! i],
        local_high_waters = local_high_waters ow\<rparr>"
      unfolding i_def by (rule scope_inv_record [OF assms(1) _ assms(2)]) (use inv(3) in simp_all)
    then show ?thesis
      unfolding cases3(1) [OF False] by (cases ow) (simp add: shared_record_simps split_beta)
  next
    case True
    show ?thesis
    proof (cases "checked_add (attempt_high_water ow ! i) (adv - prior)")
      case None
      have "scope_inv \<lparr>recorder = snd (accumulator_observe (accumulator_mark_overflowed (recorder ow)) now ph rs (- 1)),
          attempt_high_water = (attempt_high_water ow)[i := - 1],
          local_high_waters = (local_high_waters ow)[sc := (local_high_waters ow ! sc)[i := adv]]\<rparr>"
        unfolding i_def
        by (rule scope_inv_record [OF assms(1) _ assms(2)])
          (use locals in \<open>simp_all add: accumulator_mark_overflowed_def i_def\<close>)
      then show ?thesis
        unfolding cases3(3) [OF True None] by (cases ow) (simp add: shared_record_simps split_beta)
    next
      case (Some nxt)
      have "attempt_high_water ow ! i \<le> nxt"
        using checked_add_SomeD [OF Some] by (simp add: word_le_nat_alt)
      then have "scope_inv \<lparr>recorder = snd (accumulator_observe (recorder ow) now ph rs nxt),
          attempt_high_water = (attempt_high_water ow)[i := nxt],
          local_high_waters = (local_high_waters ow)[sc := (local_high_waters ow ! sc)[i := adv]]\<rparr>"
        unfolding i_def
        by (intro scope_inv_record [OF assms(1) _ assms(2)]) (use locals in \<open>simp_all add: i_def\<close>)
      then show ?thesis
        unfolding cases3(2) [OF True Some] by (cases ow) (simp add: shared_record_simps split_beta)
    qed
  qed
qed

lemma scope_step_inv [step_inv]: "scope_inv ow \<Longrightarrow> scope_inv (scope_step ow e)"
proof (cases e)
  case TurnScope
  then show "scope_inv ow \<Longrightarrow> ?thesis" by (auto simp: scope_inv_def turn_scope_def)
next
  case (ScopeRecord sc now ph rs adv)
  then show "scope_inv ow \<Longrightarrow> ?thesis"
    using scope_inv_scoped scope_inv_unscoped by (cases "scoped_reason_index rs") auto
qed

interpretation scopes: event_machine scope_step scope_inv
  by unfold_locales (rule scope_step_inv)

lemma scope_inv_new: "scope_inv new_scope_owner"
  by (simp add: scope_inv_def new_scope_owner_def water_ok_new scoped_cell_less [unfolded SCOPED_CELL_COUNT_def])

subsection \<open>What the scopes of an attempt have seen\<close>

text \<open>
  The specification reads the history of events alone, the latest event first: how many scopes were handed out, the largest
  advance recorded through a scope for a phase and reason, and the sum of these over the scopes of the attempt.
\<close>

fun handed :: "scope_event list \<Rightarrow> nat" where
  "handed [] = 0"
| "handed (TurnScope # h) = Suc (handed h)"
| "handed (ScopeRecord _ _ _ _ _ # h) = handed h"

fun scope_seen :: "scope_event list \<Rightarrow> nat \<Rightarrow> AttemptPhase \<Rightarrow> ActivityReason \<Rightarrow> u64" where
  "scope_seen [] sc ph rs = 0"
| "scope_seen (TurnScope # h) sc ph rs = scope_seen h sc ph rs"
| "scope_seen (ScopeRecord sc' now ph' rs' adv # h) sc ph rs =
     (if sc' = sc \<and> ph' = ph \<and> rs' = rs \<and> sc < handed h then max (scope_seen h sc ph rs) adv else scope_seen h sc ph rs)"

definition attempt_total :: "scope_event list \<Rightarrow> AttemptPhase \<Rightarrow> ActivityReason \<Rightarrow> nat" where
  "attempt_total h ph rs = (\<Sum>sc<handed h. unat (scope_seen h sc ph rs))"

lemma scope_seen_fresh: "handed h \<le> sc \<Longrightarrow> scope_seen h sc ph rs = 0"
  by (induction h sc ph rs rule: scope_seen.induct) auto

lemma attempt_total_record:
  assumes "sc < handed h"
  shows "attempt_total (ScopeRecord sc now ph rs adv # h) ph' rs' =
    (if ph' = ph \<and> rs' = rs then attempt_total h ph rs + (unat (max (scope_seen h sc ph rs) adv) - unat (scope_seen h sc ph rs))
     else attempt_total h ph' rs')"
proof (cases "ph' = ph \<and> rs' = rs")
  case True
  let ?f = "\<lambda>s. unat (scope_seen h s ph rs)" and ?g = "\<lambda>s. unat (scope_seen (ScopeRecord sc now ph rs adv # h) s ph rs)"
  have "sum ?g {..<handed h} = ?g sc + sum ?g ({..<handed h} - {sc})"
    and "sum ?f {..<handed h} = ?f sc + sum ?f ({..<handed h} - {sc})"
    using assms by (simp_all add: sum.remove)
  moreover have "sum ?g ({..<handed h} - {sc}) = sum ?f ({..<handed h} - {sc})" by (rule sum.cong) auto
  moreover have "?f sc \<le> ?g sc" using assms by (simp add: word_le_nat_alt [symmetric])
  ultimately show ?thesis using True assms by (simp add: attempt_total_def)
qed (auto simp: attempt_total_def intro!: sum.cong)

lemma attempt_total_unseen:
  assumes "\<not> sc < handed h"
  shows "attempt_total (ScopeRecord sc now ph rs adv # h) ph' rs' = attempt_total h ph' rs'"
  using assms by (auto simp: attempt_total_def intro!: sum.cong)

lemma scoped_record_waters:
  fixes sc ow ph rs
  defines "i \<equiv> scoped_cell ph rs"
  defines "prior \<equiv> local_high_waters ow ! sc ! i"
  assumes "scoped_reason_index rs = Some k"
  shows "local_high_waters (snd (scoped_record sc now ph rs adv ow)) =
      (local_high_waters ow)[sc := (local_high_waters ow ! sc)[i := max prior adv]]"
    and "attempt_high_water (snd (scoped_record sc now ph rs adv ow)) =
      (attempt_high_water ow)[i := sat_add (attempt_high_water ow ! i) (max prior adv - prior)]"
proof -
  have "unat x < 18446744073709551616" for x :: u64 using unsigned_less [of x, where ?'a = nat] by simp
  with assms(3) show "local_high_waters (snd (scoped_record sc now ph rs adv ow)) =
      (local_high_waters ow)[sc := (local_high_waters ow ! sc)[i := max prior adv]]"
    and "attempt_high_water (snd (scoped_record sc now ph rs adv ow)) =
      (attempt_high_water ow)[i := sat_add (attempt_high_water ow ! i) (max prior adv - prior)]"
    by (auto simp: scoped_record_def scoped_cell_def i_def prior_def Let_def split_beta max_def sat_add_def checked_add_def
        split: option.splits if_splits)
qed

lemma scoped_record_unscoped:
  assumes "scoped_reason_index rs = None"
  shows "local_high_waters (snd (scoped_record sc now ph rs adv ow)) = local_high_waters ow"
    and "attempt_high_water (snd (scoped_record sc now ph rs adv ow)) = attempt_high_water ow"
  using assms by (simp_all add: scoped_record_def split_beta)

definition scope_history :: "scope_event list \<Rightarrow> AttemptScopeOwner \<Rightarrow> bool" where
  "scope_history h ow \<longleftrightarrow> length (local_high_waters ow) = handed h
     \<and> (\<forall>ph rs k. scoped_reason_index rs = Some k \<longrightarrow>
          (\<forall>sc<handed h. local_high_waters ow ! sc ! scoped_cell ph rs = scope_seen h sc ph rs)
          \<and> unat (attempt_high_water ow ! scoped_cell ph rs) = min (2 ^ 64 - 1) (attempt_total h ph rs))"

lemma scope_historyD:
  assumes "scope_history h ow"
  shows "length (local_high_waters ow) = handed h"
    and "scoped_reason_index rs = Some k \<Longrightarrow> sc < handed h \<Longrightarrow> local_high_waters ow ! sc ! scoped_cell ph rs = scope_seen h sc ph rs"
    and "scoped_reason_index rs = Some k \<Longrightarrow> unat (attempt_high_water ow ! scoped_cell ph rs) = min (2 ^ 64 - 1) (attempt_total h ph rs)"
  using assms by (auto simp: scope_history_def)

lemma scope_history_scoped:
  assumes inv: "scope_inv ow" and hist: "scope_history h ow" and sc: "sc < handed h" and k: "scoped_reason_index rs = Some k"
  shows "scope_history (ScopeRecord sc now ph rs adv # h) (snd (scoped_record sc now ph rs adv ow))"
proof -
  let ?L = "local_high_waters ow" and ?A = "attempt_high_water ow" and ?h = "ScopeRecord sc now ph rs adv # h"
  have len: "length ?L = handed h" "length ?A = SCOPED_CELL_COUNT" "length (?L ! sc) = SCOPED_CELL_COUNT"
    using scope_historyD(1) [OF hist] inv sc by (auto simp: scope_inv_def)
  have prior: "?L ! sc ! scoped_cell ph rs = scope_seen h sc ph rs" by (rule scope_historyD(2) [OF hist k sc])
  have total: "unat (?A ! scoped_cell ph rs) = min (2 ^ 64 - 1) (attempt_total h ph rs)" by (rule scope_historyD(3) [OF hist k])
  have "scope_seen h sc ph rs \<le> max (scope_seen h sc ph rs) adv" by simp
  then have "unat (sat_add (?A ! scoped_cell ph rs) (max (scope_seen h sc ph rs) adv - scope_seen h sc ph rs))
      = min (2 ^ 64 - 1) (attempt_total ?h ph rs)"
    using total sc by (simp add: attempt_total_record unat_sat_add unat_sub)
  then show ?thesis
    unfolding scope_history_def scoped_record_waters [OF k] prior
    using len sc hist k
    by (auto simp: scope_history_def attempt_total_record nth_list_update scoped_cell_inject)
qed

lemma scope_history_step:
  assumes "scope_inv ow" and "scope_history h ow"
  shows "scope_history (e # h) (scope_step ow e)"
proof (cases e)
  case TurnScope
  have "attempt_total (TurnScope # h) ph rs = attempt_total h ph rs" for ph rs
    by (simp add: attempt_total_def scope_seen_fresh)
  with TurnScope assms(2) show ?thesis
    by (auto simp: scope_history_def turn_scope_def nth_append less_Suc_eq scope_seen_fresh)
next
  case (ScopeRecord sc now ph rs adv)
  note len = scope_historyD(1) [OF assms(2)]
  show ?thesis
  proof (cases "sc < handed h")
    case False
    with ScopeRecord len assms(2) show ?thesis by (auto simp: scope_history_def attempt_total_unseen)
  next
    case True
    show ?thesis
    proof (cases "scoped_reason_index rs")
      case None
      with ScopeRecord True len assms(2) show ?thesis
        by (auto simp: scope_history_def scoped_record_unscoped attempt_total_record)
    next
      case (Some k)
      with ScopeRecord True len scope_history_scoped [OF assms True Some] show ?thesis by simp
    qed
  qed
qed

lemma scope_history_run: "scope_history (rev es) (foldl scope_step new_scope_owner es)"
proof (induction es rule: rev_induct)
  case Nil
  show ?case by (auto simp: scope_history_def new_scope_owner_def attempt_total_def scoped_cell_less [unfolded SCOPED_CELL_COUNT_def])
next
  case (snoc e es)
  then show ?case by (simp add: scope_history_step scopes.inv_run [OF scope_inv_new])
qed

text \<open>
  C11: A turn scope translates its own counters into progress of the attempt. In every history of turn scopes handed out and of
  observations recorded through them, a message, thought or tool advance recorded through a scope is meaningful progress
  exactly when it exceeds every advance that was recorded through that scope before for the same phase and reason, even if
  other turns reached larger counters. The one exception is a sum of the scopes' largest advances that no longer fits 64 bits: then the
  overflow marker of the tally is set.
\<close>

theorem scope_progress_exact_or_flagged:
  assumes "sc < handed (rev es)" and "rs = MessageDelta \<or> rs = ThoughtDelta \<or> rs = ToolTransition"
  shows "\<exists>a ow. scoped_record sc now ph rs adv (foldl scope_step new_scope_owner es) = (Some a, ow)
    \<and> (if 2 ^ 64 \<le> attempt_total (rev es) ph rs + (unat adv - unat (scope_seen (rev es) sc ph rs))
         \<and> scope_seen (rev es) sc ph rs < adv
       then overflowed (tally (recorder ow))
       else activity_kind a = MeaningfulProgress \<longleftrightarrow> scope_seen (rev es) sc ph rs < adv)"
proof -
  let ?ow = "foldl scope_step new_scope_owner es" and ?p = "scope_seen (rev es) sc ph rs" and ?i = "scoped_cell ph rs"
  obtain k where k: "scoped_reason_index rs = Some k" and sup: "activity_reason_supports_meaningful_progress_v1 rs"
    using assms(2) by auto
  have inv: "scope_inv ?ow" by (rule scopes.inv_run [OF scope_inv_new])
  have water: "cell (high_water (recorder ?ow)) ph rs = attempt_high_water ?ow ! ?i"
    using scope_invD(4) [OF inv sup] k by simp
  have prior: "local_high_waters ?ow ! sc ! ?i = ?p" by (rule scope_historyD(2) [OF scope_history_run k assms(1)])
  have total: "unat (attempt_high_water ?ow ! ?i) = min (2 ^ 64 - 1) (attempt_total (rev es) ph rs)"
    by (rule scope_historyD(3) [OF scope_history_run k])
  note cases3 = scoped_record_cases [OF k, where ow = ?ow and sc = sc and ph = ph and adv = adv and now = now, unfolded prior]
  show ?thesis
  proof (cases "?p < adv")
    case False
    with water show ?thesis
      by (simp add: cases3(1) shared_record_def accumulator_observe_parts split_beta Let_def)
  next
    case True
    then have "0 < unat adv - unat ?p" "unat (adv - ?p) = unat adv - unat ?p" by (simp_all add: word_less_nat_alt unat_sub_if')
    then have fits: "checked_add (attempt_high_water ?ow ! ?i) (adv - ?p) = None
        \<longleftrightarrow> 2 ^ 64 \<le> attempt_total (rev es) ph rs + (unat adv - unat ?p)"
      using total by (auto simp: checked_add_def min_def)
    show ?thesis
    proof (cases "checked_add (attempt_high_water ?ow ! ?i) (adv - ?p)")
      case None
      with True fits show ?thesis
        by (simp add: cases3(3) shared_record_def accumulator_observe_parts split_beta Let_def
            accumulator_mark_overflowed_def tally_activity_counts(1))
    next
      case (Some nxt)
      have "attempt_high_water ?ow ! ?i < nxt"
        using checked_add_SomeD [OF Some] True by (simp add: word_less_nat_alt unat_sub_if')
      with True Some fits water sup show ?thesis
        by (simp add: cases3(2) shared_record_def accumulator_observe_parts split_beta Let_def)
    qed
  qed
qed

text \<open>The second turn of an attempt starts its message counter again at one, which is progress again.\<close>

theorem scope_progress_exact_or_flagged_witness:
  "\<exists>a ow. scoped_record 1 30 Provider MessageDelta 1
      (foldl scope_step new_scope_owner [TurnScope, ScopeRecord 0 10 Provider MessageDelta 50, TurnScope]) = (Some a, ow)
    \<and> activity_kind a = MeaningfulProgress"
  using scope_progress_exact_or_flagged
    [of 1 "[TurnScope, ScopeRecord 0 10 Provider MessageDelta 50, TurnScope]" MessageDelta 30 Provider 1]
  by (simp add: attempt_total_def lessThan_Suc del: foldl_Cons foldl_Nil)

section \<open>The warning cadence\<close>

datatype epoch_event = Poll u64 | Observed AttemptActivity

fun epoch_run :: "NoProgressWarningEpochV1 \<Rightarrow> epoch_event list \<Rightarrow> NoProgressWarningV1 list \<times> NoProgressWarningEpochV1" where
  "epoch_run ep [] = ([], ep)"
| "epoch_run ep (Observed a # es) = epoch_run (observe_activity ep a) es"
| "epoch_run ep (Poll now # es) =
     (let (w, ep') = poll_elapsed ep now; (ws, ep'') = epoch_run ep' es
      in ((case w of None \<Rightarrow> ws | Some x \<Rightarrow> x # ws), ep''))"

text \<open>An event that is not progress past the start of the epoch.\<close>

fun quiet :: "u64 \<Rightarrow> epoch_event \<Rightarrow> bool" where
  "quiet start (Observed a) \<longleftrightarrow>
     \<not> (activity_kind a = MeaningfulProgress
        \<and> activity_reason_supports_meaningful_progress_v1 (activity_reason a)
        \<and> start < activity_elapsed_ms a)"
| "quiet start (Poll now) \<longleftrightarrow> True"

fun polled :: "epoch_event \<Rightarrow> u64 list" where
  "polled (Poll now) = [now]"
| "polled (Observed a) = []"

definition silent_intervals :: "u64 \<Rightarrow> u64 \<Rightarrow> nat" where
  "silent_intervals start now = (unat now - unat start) div 1800000"

lemma unat_ordinal: "unat (no_progress_warning_ordinal_v1 now start) = silent_intervals start now"
  by (simp add: no_progress_warning_ordinal_v1_def silent_intervals_def NO_PROGRESS_WARNING_INTERVAL_MS_def
      unat_div unat_sat_sub)

lemma observe_activity_quiet:
  "quiet (last_meaningful_progress_elapsed_ms ep) (Observed a) \<Longrightarrow>
   last_meaningful_progress_elapsed_ms (observe_activity ep a) = last_meaningful_progress_elapsed_ms ep
   \<and> last_emitted_ordinal (observe_activity ep a) = last_emitted_ordinal ep"
  by (auto simp: observe_activity_def Let_def)

lemma poll_elapsed_quiet:
  fixes ep now
  defines "n \<equiv> silent_intervals (last_meaningful_progress_elapsed_ms ep) now"
  defines "m \<equiv> unat (last_emitted_ordinal ep)"
  shows "last_meaningful_progress_elapsed_ms (snd (poll_elapsed ep now)) = last_meaningful_progress_elapsed_ms ep"
    and "unat (last_emitted_ordinal (snd (poll_elapsed ep now))) = max m n"
    and "case fst (poll_elapsed ep now) of None \<Rightarrow> n \<le> m
      | Some w \<Rightarrow> m < n \<and> unat (ordinal w) = n \<and> unat (superseded_ordinal_count w) + 1 = n - m
          \<and> warning_last_progress_elapsed_ms w = last_meaningful_progress_elapsed_ms ep"
  unfolding n_def m_def
  by (auto simp: poll_elapsed_def Let_def word_less_nat_alt unat_ordinal unat_sat_sub max_def)

definition due_warnings :: "NoProgressWarningEpochV1 \<Rightarrow> NoProgressWarningV1 list \<Rightarrow> nat \<Rightarrow> bool" where
  "due_warnings ep ws most \<longleftrightarrow>
     sorted_wrt (<) (map (\<lambda>w. unat (ordinal w)) ws)
     \<and> list_all (\<lambda>w. unat (last_emitted_ordinal ep) < unat (ordinal w)
          \<and> warning_last_progress_elapsed_ms w = last_meaningful_progress_elapsed_ms ep) ws
     \<and> unat (last_emitted_ordinal ep) + sum_list (map (\<lambda>w. unat (superseded_ordinal_count w) + 1) ws) = most"

lemma epoch_run_quiet:
  assumes "list_all (quiet (last_meaningful_progress_elapsed_ms ep)) es"
  shows "due_warnings ep (fst (epoch_run ep es))
    (fold max (map (silent_intervals (last_meaningful_progress_elapsed_ms ep)) (concat (map polled es)))
      (unat (last_emitted_ordinal ep)))"
  using assms
proof (induction es arbitrary: ep)
  case Nil
  show ?case by (simp add: due_warnings_def)
next
  case (Cons e es)
  show ?case
  proof (cases e)
    case (Observed a)
    with Cons.prems have "quiet (last_meaningful_progress_elapsed_ms ep) (Observed a)" by simp
    with Cons Observed show ?thesis
      using Cons.IH [of "observe_activity ep a"] observe_activity_quiet [of ep a]
      by (simp add: due_warnings_def del: quiet.simps)
  next
    case (Poll now)
    note poll = poll_elapsed_quiet [of ep now]
    have "due_warnings (snd (poll_elapsed ep now)) (fst (epoch_run (snd (poll_elapsed ep now)) es))
      (fold max (map (silent_intervals (last_meaningful_progress_elapsed_ms ep)) (concat (map polled es)))
        (max (unat (last_emitted_ordinal ep)) (silent_intervals (last_meaningful_progress_elapsed_ms ep) now)))"
      using Cons.IH [of "snd (poll_elapsed ep now)"] Cons.prems poll(1,2) by simp
    with poll show ?thesis
      by (cases "fst (poll_elapsed ep now)")
        (auto simp: Poll due_warnings_def split_beta max.commute list_all_iff)
  qed
qed

text \<open>
  The no-progress cadence loses no warning and repeats none. As long as nothing is progress, however
  chatty the activity and however irregular the polls, the warnings of an epoch have strictly increasing
  ordinals, each names the epoch's start, and together with the ordinals they supersede they are as many
  as the largest number of whole 30-minute intervals any poll has seen.
\<close>

theorem warnings_cover_silence:
  assumes "list_all (quiet start) es"
  shows "sorted_wrt (<) (map (\<lambda>w. unat (ordinal w)) (fst (epoch_run (new_epoch start) es)))
    \<and> list_all (\<lambda>w. warning_last_progress_elapsed_ms w = start) (fst (epoch_run (new_epoch start) es))
    \<and> sum_list (map (\<lambda>w. unat (superseded_ordinal_count w) + 1) (fst (epoch_run (new_epoch start) es)))
      = fold max (map (silent_intervals start) (concat (map polled es))) 0"
  using epoch_run_quiet [of "new_epoch start" es] assms
  by (auto simp: new_epoch_def due_warnings_def list_all_iff)

text \<open>Polls at one, two and a half and two hours, with a heartbeat between them.\<close>

definition example_epoch :: "epoch_event list" where
  "example_epoch = [Poll 3600000,
     Observed \<lparr>activity_phase = Provider, activity_reason = Heartbeat, activity_kind = Activity,
       activity_elapsed_ms = 4000000, activity_advance = 7\<rparr>, Poll 9000000, Poll 7200000]"

theorem warnings_cover_silence_witness:
  "sum_list (map (\<lambda>w. unat (superseded_ordinal_count w) + 1) (fst (epoch_run (new_epoch 0) example_epoch))) = 5"
proof -
  have "list_all (quiet 0) example_epoch" by (simp add: example_epoch_def)
  moreover have "fold max (map (silent_intervals 0) (concat (map polled example_epoch))) 0 = 5"
    by (simp add: example_epoch_def silent_intervals_def)
  ultimately show ?thesis using warnings_cover_silence [of 0 example_epoch] by simp
qed

end
