(* ===== verification/Unicode_Text.thy ===== *)
theory Unicode_Text
  imports Bridge_Prelude
begin

text \<open>
  Text whose handling depends on its characters: a \<open>str\<close> as the list of its Unicode scalar values. The
  operations of the Rust standard library that the redactor and the bounded evidence use are
  defined on it: the UTF-8 length, the character classes, case folding of ASCII letters,
  trimming, replacement and truncation at a character boundary. Offsets into such a text count
  scalar values where the source counts bytes; both number the same positions in the same order.
\<close>

type_synonym scalar_text = "nat list"

definition lit :: "string \<Rightarrow> scalar_text" where
  "lit s = map of_char s"

definition len_utf8 :: "nat \<Rightarrow> nat" where
  "len_utf8 c = (if c < 128 then 1 else if c < 2048 then 2 else if c < 65536 then 3 else 4)"

definition text_len :: "scalar_text \<Rightarrow> nat" where
  "text_len t = sum_list (map len_utf8 t)"

text \<open>\<open>char::is_whitespace\<close> (the White_Space property) and \<open>char::is_control\<close> (category Cc).\<close>

definition is_whitespace :: "nat \<Rightarrow> bool" where
  "is_whitespace c \<longleftrightarrow>
     9 \<le> c \<and> c \<le> 13 \<or> c = 32 \<or> c = 133 \<or> c = 160 \<or> c = 5760 \<or> 8192 \<le> c \<and> c \<le> 8202
     \<or> c = 8232 \<or> c = 8233 \<or> c = 8239 \<or> c = 8287 \<or> c = 12288"

definition is_control :: "nat \<Rightarrow> bool" where
  "is_control c \<longleftrightarrow> c < 32 \<or> 127 \<le> c \<and> c < 160"

definition digit_scalar :: "nat \<Rightarrow> bool" where
  "digit_scalar c \<longleftrightarrow> 48 \<le> c \<and> c \<le> 57"

definition lowercase_scalar :: "nat \<Rightarrow> bool" where
  "lowercase_scalar c \<longleftrightarrow> 97 \<le> c \<and> c \<le> 122"

definition alphabetic_scalar :: "nat \<Rightarrow> bool" where
  "alphabetic_scalar c \<longleftrightarrow> 65 \<le> c \<and> c \<le> 90 \<or> lowercase_scalar c"

definition alphanumeric_scalar :: "nat \<Rightarrow> bool" where
  "alphanumeric_scalar c \<longleftrightarrow> alphabetic_scalar c \<or> digit_scalar c"

definition ascii_lower :: "nat \<Rightarrow> nat" where
  "ascii_lower c = (if 65 \<le> c \<and> c \<le> 90 then c + 32 else c)"

definition trim_end :: "scalar_text \<Rightarrow> scalar_text" where
  "trim_end t = rev (dropWhile is_whitespace (rev t))"

definition trim :: "scalar_text \<Rightarrow> scalar_text" where
  "trim t = trim_end (dropWhile is_whitespace t)"

text \<open>The scalar values of a text given by its UTF-8 bytes: \<open>str::chars\<close>.\<close>

definition continuation :: "char \<Rightarrow> nat" where
  "continuation c = of_char c mod 64"

fun chars :: "string \<Rightarrow> scalar_text" where
  "chars [] = []"
| "chars (a # s) =
     (let v = of_char a in
      if v < 128 then v # chars s
      else if v < 224 then
        (case s of b # s' \<Rightarrow> (v mod 32 * 64 + continuation b) # chars s' | _ \<Rightarrow> [])
      else if v < 240 then
        (case s of b # c # s' \<Rightarrow> (v mod 16 * 4096 + continuation b * 64 + continuation c) # chars s' | _ \<Rightarrow> [])
      else
        (case s of b # c # d # s' \<Rightarrow>
           (v mod 8 * 262144 + continuation b * 4096 + continuation c * 64 + continuation d) # chars s'
         | _ \<Rightarrow> []))"

text \<open>\<open>Iterator::position\<close>, and \<open>str::split\<close> at the characters of a set.\<close>

fun position :: "('a \<Rightarrow> bool) \<Rightarrow> 'a list \<Rightarrow> nat option" where
  "position P [] = None"
| "position P (x # xs) = (if P x then Some 0 else map_option Suc (position P xs))"

fun split_on :: "('a \<Rightarrow> bool) \<Rightarrow> 'a list \<Rightarrow> 'a list list" where
  "split_on P [] = [[]]"
| "split_on P (x # xs) =
     (if P x then [] # split_on P xs
      else case split_on P xs of [] \<Rightarrow> [[x]] | seg # segs \<Rightarrow> (x # seg) # segs)"

text \<open>The longest prefix of at most the given number of bytes that ends at a character boundary.\<close>

fun truncate_utf8 :: "scalar_text \<Rightarrow> nat \<Rightarrow> scalar_text" where
  "truncate_utf8 [] n = []"
| "truncate_utf8 (c # cs) n = (if len_utf8 c \<le> n then c # truncate_utf8 cs (n - len_utf8 c) else [])"

lemma find_sub_drop_less:
  "find_sub p s = Some k \<Longrightarrow> p \<noteq> [] \<Longrightarrow> length (drop (k + length p) s) < length s"
  by (drule find_sub_Some) auto

text \<open>\<open>str::replace\<close>: the occurrences from left to right, none overlapping; an empty pattern matches at every boundary.\<close>

function replace_all :: "'a list \<Rightarrow> 'a list \<Rightarrow> 'a list \<Rightarrow> 'a list" where
  "replace_all pat rep s =
     (if pat = [] then rep @ concat (map (\<lambda>c. c # rep) s)
      else case find_sub pat s of
        None \<Rightarrow> s
      | Some k \<Rightarrow> take k s @ rep @ replace_all pat rep (drop (k + length pat) s))"
  by auto
termination
  by (relation "measure (\<lambda>(_, _, s). length s)") (auto dest!: find_sub_drop_less)

declare replace_all.simps [simp del]

lemma position_Some:
  "position P xs = Some n \<Longrightarrow> n < length xs \<and> P (xs ! n) \<and> (\<forall>x\<in>set (take n xs). \<not> P x)"
proof (induction xs arbitrary: n)
  case (Cons x xs)
  then show ?case by (cases "P x") (auto split: option.splits)
qed simp

lemma position_None: "position P xs = None \<longleftrightarrow> (\<forall>x\<in>set xs. \<not> P x)"
  by (induction xs) auto

section \<open>Lengths and truncation\<close>

lemma text_len_simps [simp]:
  "text_len [] = 0" "text_len (c # t) = len_utf8 c + text_len t" "text_len (s @ t) = text_len s + text_len t"
  by (simp_all add: text_len_def)

lemma len_utf8_pos: "0 < len_utf8 c"
  by (simp add: len_utf8_def)

lemma len_utf8_le: "len_utf8 c \<le> 4"
  by (simp add: len_utf8_def)

lemma length_le_text_len: "length t \<le> text_len t"
proof (induction t)
  case (Cons c t)
  with len_utf8_pos [of c] show ?case by simp
qed simp

lemma lit_simps [simp]: "lit [] = []" "lit (c # s) = of_char c # lit s" "length (lit s) = length s"
  by (simp_all add: lit_def)

lemma truncate_utf8_prefix: "\<exists>rest. t = truncate_utf8 t n @ rest"
  by (induction t n rule: truncate_utf8.induct) auto

lemma truncate_utf8_len: "text_len (truncate_utf8 t n) \<le> n"
  by (induction t n rule: truncate_utf8.induct) auto

lemma truncate_utf8_id [simp]: "text_len t \<le> n \<Longrightarrow> truncate_utf8 t n = t"
  by (induction t n rule: truncate_utf8.induct) auto

text \<open>Truncation loses no more than it has to: the next character would not fit.\<close>

lemma truncate_utf8_maximal:
  "n < text_len t \<Longrightarrow> n < text_len (truncate_utf8 t n) + 4"
proof (induction t n rule: truncate_utf8.induct)
  case (2 c cs n)
  show ?case
  proof (cases "len_utf8 c \<le> n")
    case True
    with 2 have "n - len_utf8 c < text_len cs" by simp
    from 2(1) [OF True this] True show ?thesis by simp
  next
    case False
    with len_utf8_le [of c] show ?thesis by simp
  qed
qed simp

lemma truncate_utf8_mono: "m \<le> n \<Longrightarrow> truncate_utf8 (truncate_utf8 t n) m = truncate_utf8 t m"
  by (induction t n arbitrary: m rule: truncate_utf8.induct) auto

lemma set_truncate_utf8: "set (truncate_utf8 t n) \<subseteq> set t"
  by (induction t n rule: truncate_utf8.induct) auto

lemma set_trim_end: "set (trim_end t) \<subseteq> set t"
  unfolding trim_end_def by (auto dest: set_dropWhileD)

lemma trim_end_prefix: "\<exists>rest. t = trim_end t @ rest"
proof -
  have "rev t = takeWhile is_whitespace (rev t) @ dropWhile is_whitespace (rev t)" by simp
  then have "t = rev (takeWhile is_whitespace (rev t) @ dropWhile is_whitespace (rev t))" by (metis rev_rev_ident)
  then have "t = trim_end t @ rev (takeWhile is_whitespace (rev t))" unfolding trim_end_def rev_append .
  then show ?thesis ..
qed

section \<open>Texts without a given factor\<close>

definition occurs :: "'a list \<Rightarrow> 'a list \<Rightarrow> bool" where
  "occurs k s \<longleftrightarrow> find_sub k s \<noteq> None"

lemma occurs_iff: "occurs k s \<longleftrightarrow> (\<exists>a b. s = a @ k @ b)"
proof
  assume "occurs k s"
  then show "\<exists>a b. s = a @ k @ b" unfolding occurs_def by (blast dest: find_sub_Some)
next
  assume "\<exists>a b. s = a @ k @ b"
  then show "occurs k s" using find_sub_None_imp [of k s] by (auto simp: occurs_def)
qed

lemma occurs_prefix: "\<not> occurs k s \<Longrightarrow> s = t @ rest \<Longrightarrow> \<not> occurs k t"
  unfolding occurs_iff by (metis append.assoc)

lemma occurs_suffix: "\<not> occurs k s \<Longrightarrow> s = rest @ t \<Longrightarrow> \<not> occurs k t"
  unfolding occurs_iff by (metis append.assoc)

lemma occurs_take: "\<not> occurs k s \<Longrightarrow> \<not> occurs k (take n s)"
  by (rule occurs_prefix [OF _ append_take_drop_id [symmetric]])

lemma occurs_drop: "\<not> occurs k s \<Longrightarrow> \<not> occurs k (drop n s)"
  by (rule occurs_suffix [OF _ append_take_drop_id [symmetric]])

lemma occurs_truncate: "\<not> occurs k t \<Longrightarrow> \<not> occurs k (truncate_utf8 t n)"
  using truncate_utf8_prefix [of t n] occurs_prefix by blast

lemma occurs_trim_end: "\<not> occurs k t \<Longrightarrow> \<not> occurs k (trim_end t)"
  using trim_end_prefix [of t] occurs_prefix by blast

text \<open>A factor that avoids a separator lies on one side of it.\<close>

lemma occurs_around:
  assumes "x \<notin> set k" and "k \<noteq> []"
  shows "occurs k (s @ x # t) \<longleftrightarrow> occurs k s \<or> occurs k t"
proof
  assume "occurs k (s @ x # t)"
  then obtain a b where eq: "s @ x # t = a @ k @ b" by (auto simp: occurs_iff)
  show "occurs k s \<or> occurs k t"
  proof (cases "length (a @ k) \<le> length s")
    case True
    then have "take (length (a @ k)) (s @ x # t) = take (length (a @ k)) s" by simp
    moreover have "take (length (a @ k)) (s @ x # t) = a @ k" using eq by (metis append.assoc append_eq_conv_conj)
    ultimately have "s = a @ k @ drop (length (a @ k)) s" by (metis append_take_drop_id append.assoc)
    then show ?thesis by (auto simp: occurs_iff)
  next
    case False
    have "\<not> (length a \<le> length s)"
    proof
      assume le: "length a \<le> length s"
      then have less: "length s - length a < length k" using False by simp
      have "(s @ x # t) ! length s = x" by simp
      moreover have "(a @ k @ b) ! length s = k ! (length s - length a)"
        using le False less by (simp add: nth_append)
      ultimately have "x = k ! (length s - length a)" using eq by simp
      with less show False using assms(1) by (metis nth_mem)
    qed
    then have "drop (length a) (s @ x # t) = drop (length a - Suc (length s)) t"
      by (simp add: drop_Cons')
    with eq have "drop (length a - Suc (length s)) t = k @ b" by simp
    then have "t = take (length a - Suc (length s)) t @ k @ b" by (metis append_take_drop_id)
    then show ?thesis unfolding occurs_iff by blast
  qed
next
  assume "occurs k s \<or> occurs k t"
  then show "occurs k (s @ x # t)"
  proof
    assume "occurs k s"
    then obtain a b where "s = a @ k @ b" by (auto simp: occurs_iff)
    then have "s @ x # t = a @ k @ (b @ x # t)" by simp
    then show ?thesis unfolding occurs_iff by blast
  next
    assume "occurs k t"
    then obtain a b where "t = a @ k @ b" by (auto simp: occurs_iff)
    then have "s @ x # t = (s @ x # a) @ k @ b" by simp
    then show ?thesis unfolding occurs_iff by blast
  qed
qed

end
