(* ===== verification/Bridge_Errors.thy ===== *)
theory Bridge_Errors
  imports Unicode_Text
begin

text \<open>
  The error vocabulary of the bridge: the closed enumerations and the admission rules of a
  structured failure diagnostic (\<open>diagnostics.rs\<close>), the refusal record of
  \<open>governance.rs\<close>, and \<open>BridgeError\<close> with the classifications every adapter reads off it
  (\<open>error.rs\<close>): the A2A disposition, resumability, transience (the workflow retry test) and
  the survivability of the warm session the error came from.
\<close>

section \<open>Structured failure diagnostics\<close>

datatype DiagnosticPhase =
    Resolve | Spawn | Initialize | Authenticate | SessionCreate | ConfigApply
  | PromptStart | PromptStream | PromptFinish | Teardown

definition is_pre_prompt :: "DiagnosticPhase \<Rightarrow> bool" where
  "is_pre_prompt p \<longleftrightarrow>
     p \<in> {Resolve, Spawn, Initialize, Authenticate, SessionCreate, ConfigApply}"

datatype DiagnosticFailureClass =
    ClassConfig | ClassAuthentication | ClassModel | ClassProtocol | ClassTransport
  | ClassAgentProcess | ClassContainerRuntime | ClassContainerImage | ClassContainerNetwork
  | ClassContainerMount | ClassContainerCredentials | ClassTimeout | ClassOverloaded
  | ClassQuotaExhausted | ClassRegionRestricted | ClassBillingFailure | ClassRateLimited
  | ClassProviderLimit | ClassPersistence | ClassCanceled | ClassUnknown

definition is_container_fallback_class :: "DiagnosticFailureClass \<Rightarrow> bool" where
  "is_container_fallback_class c \<longleftrightarrow>
     c \<in> {ClassContainerRuntime, ClassContainerImage, ClassContainerNetwork, ClassContainerMount,
          ClassContainerCredentials}"

definition allows_retry_same_target :: "DiagnosticFailureClass \<Rightarrow> bool" where
  "allows_retry_same_target c \<longleftrightarrow>
     c \<in> {ClassTransport, ClassAgentProcess, ClassTimeout, ClassOverloaded}"

datatype FailureDisposition = Fatal | RetrySameTarget | ContainerFallbackCandidate

datatype StderrScope = Process

datatype StderrRedaction = BestEffort

datatype DiagnosticBuildError =
    InvalidCode | InvalidDisposition | InvalidStderrEvidence | InvalidRetryMetadata
  | InvalidEvent | UnsupportedSchema | InvalidObserverCapacity

text \<open>The built record has the fields of the builder's input and the schema version.\<close>

record FailureDiagnosticInput =
  failed_phase :: DiagnosticPhase
  last_completed_phase :: "DiagnosticPhase option"
  failure_class :: DiagnosticFailureClass
  disposition :: FailureDisposition
  code :: scalar_text
  summary :: scalar_text
  causes :: "scalar_text list"
  stderr_observed :: bool
  stderr_line_count :: u32
  stderr_scope :: "StderrScope option"
  stderr_tail :: "scalar_text list option"
  stderr_redaction :: "StderrRedaction option"
  retry_after_ms :: "u64 option"
  reset_at_ms :: "int option"
  prompt_may_have_been_accepted :: bool

record FailureDiagnostic = FailureDiagnosticInput +
  schema_version :: u16

definition barrier_is_consistent :: "'a FailureDiagnosticInput_scheme \<Rightarrow> bool" where
  "barrier_is_consistent i =
     (case failed_phase i of
        Resolve \<Rightarrow> \<not> prompt_may_have_been_accepted i
      | Spawn \<Rightarrow> \<not> prompt_may_have_been_accepted i
      | Initialize \<Rightarrow> \<not> prompt_may_have_been_accepted i
      | Authenticate \<Rightarrow> \<not> prompt_may_have_been_accepted i
      | SessionCreate \<Rightarrow> \<not> prompt_may_have_been_accepted i
      | ConfigApply \<Rightarrow> \<not> prompt_may_have_been_accepted i
      | PromptStream \<Rightarrow> prompt_may_have_been_accepted i
      | PromptFinish \<Rightarrow> prompt_may_have_been_accepted i
      | PromptStart \<Rightarrow> True
      | Teardown \<Rightarrow> True)"

definition validate_disposition ::
  "'a FailureDiagnosticInput_scheme \<Rightarrow> DiagnosticBuildError + unit" where
  "validate_disposition i =
     (if \<not> barrier_is_consistent i then Inl InvalidDisposition
      else case disposition i of
        Fatal \<Rightarrow> Inr ()
      | RetrySameTarget \<Rightarrow>
          ensure (\<not> prompt_may_have_been_accepted i \<and> is_pre_prompt (failed_phase i)
                  \<and> allows_retry_same_target (failure_class i)) InvalidDisposition
      | ContainerFallbackCandidate \<Rightarrow>
          ensure (\<not> prompt_may_have_been_accepted i \<and> is_pre_prompt (failed_phase i)
                  \<and> is_container_fallback_class (failure_class i)) InvalidDisposition)"

definition validate_stderr ::
  "'a FailureDiagnosticInput_scheme \<Rightarrow> DiagnosticBuildError + unit" where
  "validate_stderr i =
     (if \<not> stderr_observed i then
        ensure (stderr_line_count i = 0 \<and> stderr_scope i = None \<and> stderr_tail i = None
                \<and> stderr_redaction i = None) InvalidStderrEvidence
      else if stderr_line_count i = 0 \<or> stderr_scope i \<noteq> Some Process then Inl InvalidStderrEvidence
      else if (case stderr_tail i of None \<Rightarrow> False
               | Some lines \<Rightarrow> unat (stderr_line_count i) < length lines)
      then Inl InvalidStderrEvidence
      else case (stderr_tail i, stderr_redaction i) of
        (Some _, Some BestEffort) \<Rightarrow> Inr ()
      | (None, None) \<Rightarrow> Inr ()
      | _ \<Rightarrow> Inl InvalidStderrEvidence)"

text \<open>The retry metadata guard of \<open>build_with_reference_time_inner\<close>.\<close>

definition MAX_RETRY_AFTER_MS :: nat where
  "MAX_RETRY_AFTER_MS = 2592000000"

definition MAX_RESET_HORIZON_MS :: int where
  "MAX_RESET_HORIZON_MS = 2592000000"

definition i64_max :: int where
  "i64_max = 2 ^ 63 - 1"

definition validate_retry_metadata ::
  "'a FailureDiagnosticInput_scheme \<Rightarrow> int option \<Rightarrow> DiagnosticBuildError + unit" where
  "validate_retry_metadata i reference_time_ms =
     (let reset_horizon =
        (case reference_time_ms of None \<Rightarrow> None
         | Some t \<Rightarrow> if 0 \<le> t \<and> t + MAX_RESET_HORIZON_MS \<le> i64_max
                     then Some (t + MAX_RESET_HORIZON_MS) else None)
      in if (case retry_after_ms i of None \<Rightarrow> False | Some v \<Rightarrow> MAX_RETRY_AFTER_MS < unat v)
          \<or> (case reset_at_ms i of None \<Rightarrow> False
             | Some v \<Rightarrow> v < 0 \<or> (case reset_horizon of None \<Rightarrow> True | Some h \<Rightarrow> h < v))
         then Inl InvalidRetryMetadata else Inr ())"

lemma validate_disposition_retry:
  assumes "validate_disposition i = Inr ()" and "disposition i \<noteq> Fatal"
  shows "\<not> prompt_may_have_been_accepted i \<and> is_pre_prompt (failed_phase i)"
  using assms by (auto simp: validate_disposition_def split: if_splits FailureDisposition.splits)

section \<open>The bridge error\<close>

datatype BudgetMetricV1 = Turns | TerminalTokens

datatype BudgetRequestIdV1 = Execution string | Batch string

datatype BudgetScopeOwnerV1 =
  ScopeRequest BudgetRequestIdV1 | ScopeWorkflowRun string | ScopeUtcDayAgent string int

record BudgetScopeKeyV1 =
  rule_id :: string
  owner :: BudgetScopeOwnerV1

datatype BudgetRefusalReasonV1 =
    LimitExceeded | UnknownMeasurement | IncompleteCoverage | MissingAllowance
  | IdentityMismatch | PolicyMismatch | DuplicateAttempt | Overflow
  | AccountingUnavailable | UnsupportedRoute

datatype BridgeError =
    A2aVersionMismatch
  | InvalidRequest string
  | IdentityUnavailable
  | DurableEvidenceUnavailable string
  | TaskNotFound
  | SessionNotFound
  | ConfigMismatch string
  | ConfigReseedRequired string
  | BoundSessionUnsupported
  | BindUnsupported
  | ResourceFlightUnsupported
  | SessionExpired
  | HandleBusy
  | AuthRequired string
  | PermissionRequired string
  | PermissionDenied
  | AgentNotAuthenticated
  | ModelNotAvailable
  | CancelTimeout
  | AgentTimedOut
  | FrameError
  | MissingTerminal
  | MessageTooLarge
  | EmptyFinal
  | AgentCrashed scalar_text
  | AgentFailure FailureDiagnostic
  | AgentOverloaded
  | UpstreamA2aError
  | BudgetRefused BudgetRefusalV1
  | StoreFailure
  | HarvestAuditPersistFailed string
  | InvalidStateTransition
  | UnknownAgent scalar_text
  | ConfigInvalid scalar_text
  | TaskSpecInvalid scalar_text
and BudgetRefusalV1 =
    BudgetRefusalV1 BudgetRefusalReasonV1 "BudgetScopeKeyV1 option" "BudgetMetricV1 option"
      "BridgeError option"

text \<open>The \<open>Display\<close> texts of the enumeration, and the part of them a client may see.\<close>

fun display :: "BridgeError \<Rightarrow> scalar_text" where
  "display A2aVersionMismatch = lit ''a2a version mismatch''"
| "display (InvalidRequest field) = lit (''invalid request: '' @ field)"
| "display IdentityUnavailable = lit ''execution identity unavailable''"
| "display (DurableEvidenceUnavailable reason) = lit (''durable evidence unavailable: '' @ reason)"
| "display TaskNotFound = lit ''task not found''"
| "display SessionNotFound = lit ''session not found''"
| "display (ConfigMismatch field) = lit (''config mismatch: '' @ field)"
| "display (ConfigReseedRequired field) = lit (''config reseed required: '' @ field)"
| "display BoundSessionUnsupported = lit ''bound session configuration is unsupported''"
| "display BindUnsupported = lit ''bound registry resolution is unsupported''"
| "display ResourceFlightUnsupported = lit ''retained resource flight is unsupported''"
| "display SessionExpired = lit ''session expired''"
| "display HandleBusy = lit ''session busy''"
| "display (AuthRequired _) = lit ''auth required''"
| "display (PermissionRequired _) = lit ''permission required''"
| "display PermissionDenied = lit ''permission denied''"
| "display AgentNotAuthenticated = lit ''agent not authenticated''"
| "display ModelNotAvailable = lit ''model not available''"
| "display CancelTimeout = lit ''cancel timeout''"
| "display AgentTimedOut = lit ''agent timed out''"
| "display FrameError = lit ''frame error''"
| "display MissingTerminal = lit ''protocol missing terminal event''"
| "display MessageTooLarge = lit ''message too large''"
| "display EmptyFinal = lit ''empty final agent message''"
| "display (AgentCrashed reason) = lit ''agent crashed: '' @ reason"
| "display (AgentFailure _) = lit ''agent crashed''"
| "display AgentOverloaded = lit ''agent overloaded''"
| "display UpstreamA2aError = lit ''upstream a2a error''"
| "display (BudgetRefused _) = lit ''budget refused''"
| "display StoreFailure = lit ''store failure''"
| "display (HarvestAuditPersistFailed _) = lit ''harvest_audit_persist_failed''"
| "display InvalidStateTransition = lit ''invalid state transition''"
| "display (UnknownAgent agent) = lit ''unknown agent: '' @ agent"
| "display (ConfigInvalid reason) = lit ''invalid config: '' @ reason"
| "display (TaskSpecInvalid message) = message"

fun client_message :: "BridgeError \<Rightarrow> scalar_text" where
  "client_message (AgentCrashed _) = lit ''agent crashed''"
| "client_message (AgentFailure _) = lit ''agent crashed''"
| "client_message (ConfigInvalid _) = lit ''invalid config''"
| "client_message (BudgetRefused _) = lit ''budget refused''"
| "client_message other = display other"

datatype A2aState =
    StateSubmitted | StateWorking | StateInputRequired | StateAuthRequired
  | StateCompleted | StateFailed | StateCanceled

datatype A2aDisposition = RejectRequest | SetState A2aState

datatype WarmSessionSurvivability = PreserveOwnerBehavior | Expire

fun warm_session_survivability :: "BridgeError \<Rightarrow> WarmSessionSurvivability" where
  "warm_session_survivability (DurableEvidenceUnavailable _) = Expire"
| "warm_session_survivability (AgentFailure _) = Expire"
| "warm_session_survivability EmptyFinal = Expire"
| "warm_session_survivability MissingTerminal = Expire"
| "warm_session_survivability _ = PreserveOwnerBehavior"

text \<open>\<open>BridgeError::disposition\<close>\<close>

fun a2a_disposition :: "BridgeError \<Rightarrow> A2aDisposition" where
  "a2a_disposition A2aVersionMismatch = RejectRequest"
| "a2a_disposition (InvalidRequest _) = RejectRequest"
| "a2a_disposition TaskNotFound = RejectRequest"
| "a2a_disposition SessionNotFound = RejectRequest"
| "a2a_disposition (ConfigMismatch _) = RejectRequest"
| "a2a_disposition (ConfigReseedRequired _) = RejectRequest"
| "a2a_disposition ResourceFlightUnsupported = RejectRequest"
| "a2a_disposition SessionExpired = RejectRequest"
| "a2a_disposition HandleBusy = RejectRequest"
| "a2a_disposition IdentityUnavailable = RejectRequest"
| "a2a_disposition (DurableEvidenceUnavailable _) = RejectRequest"
| "a2a_disposition (AuthRequired _) = SetState StateAuthRequired"
| "a2a_disposition AgentNotAuthenticated = SetState StateAuthRequired"
| "a2a_disposition (PermissionRequired _) = SetState StateInputRequired"
| "a2a_disposition CancelTimeout = SetState StateCanceled"
| "a2a_disposition (TaskSpecInvalid _) = RejectRequest"
| "a2a_disposition _ = SetState StateFailed"

fun is_resumable :: "BridgeError \<Rightarrow> bool" where
  "is_resumable (AuthRequired _) = True"
| "is_resumable (PermissionRequired _) = True"
| "is_resumable _ = False"

fun is_transient :: "BridgeError \<Rightarrow> bool" where
  "is_transient (AgentFailure d) =
     (case disposition d of Fatal \<Rightarrow> False | RetrySameTarget \<Rightarrow> True
      | ContainerFallbackCandidate \<Rightarrow> False)"
| "is_transient (AgentCrashed _) = True"
| "is_transient AgentOverloaded = True"
| "is_transient AgentTimedOut = True"
| "is_transient _ = False"

text \<open>
  A structured agent failure whose diagnostic passed the builder's disposition check is
  retried by a workflow node only when it is proved that the prompt was not accepted: the failure
  happened before the prompt phase, its class is one of the four retryable ones, the task state
  the error maps to is failed, and the warm session it came from is not reused.
\<close>

theorem transient_failure_precedes_prompt:
  assumes "validate_disposition d = Inr ()" and "is_transient (AgentFailure d)"
  shows "\<not> prompt_may_have_been_accepted d \<and> is_pre_prompt (failed_phase d)
       \<and> allows_retry_same_target (failure_class d)
       \<and> a2a_disposition (AgentFailure d) = SetState StateFailed
       \<and> warm_session_survivability (AgentFailure d) = Expire"
  using assms by (auto simp: validate_disposition_def split: if_splits FailureDisposition.splits)

text \<open>An overloaded provider refuses the session before any prompt.\<close>

definition example_diagnostic :: FailureDiagnostic where
  "example_diagnostic =
     \<lparr>failed_phase = SessionCreate, last_completed_phase = Some Authenticate, failure_class = ClassOverloaded,
      disposition = RetrySameTarget, code = lit ''agent.overloaded'', summary = lit ''busy'', causes = [],
      stderr_observed = False, stderr_line_count = 0, stderr_scope = None, stderr_tail = None,
      stderr_redaction = None, retry_after_ms = None, reset_at_ms = None,
      prompt_may_have_been_accepted = False, schema_version = 1\<rparr>"

theorem transient_failure_precedes_prompt_witness:
  "\<not> prompt_may_have_been_accepted example_diagnostic
   \<and> warm_session_survivability (AgentFailure example_diagnostic) = Expire"
  using transient_failure_precedes_prompt [of example_diagnostic]
  by (simp add: example_diagnostic_def validate_disposition_def barrier_is_consistent_def is_pre_prompt_def
      allows_retry_same_target_def)

end
