(* ===== verification/Identities.thy ===== *)
theory Identities
  imports Bridge_Errors
begin

text \<open>
  The parse-don't-validate identifiers of the bridge: the plain and the strict newtypes of
  \<open>ids.rs\<close>, the high-entropy identities (a fixed prefix and the lower-case hexadecimal
  rendering of random bytes) minted there, in \<open>resource_flight.rs\<close>,
  \<open>preparation_flight.rs\<close> and \<open>execution_policy.rs\<close>, and the lineage of an attempt.
  The operating system's random source is an argument: \<^term>\<open>None\<close> when it fails.
\<close>

section \<open>Rendering bytes\<close>

definition hex_bytes :: "u8 list \<Rightarrow> string" where
  "hex_bytes bs = concat (map (\<lambda>b. show_hex 2 (unat b)) bs)"

fun unhex_bytes :: "string \<Rightarrow> u8 list" where
  "unhex_bytes (c # d # s) = of_nat (16 * unhex_char c + unhex_char d) # unhex_bytes s"
| "unhex_bytes _ = []"

lemma hex_bytes_simps [simp]:
  "hex_bytes [] = []"
  "hex_bytes (b # bs) = hex_char (unat b div 16) # hex_char (unat b mod 16) # hex_bytes bs"
proof -
  have "unat b div 16 < 16" using unat_u8_less [of b] by simp
  then have "unat b div 16 mod 16 = unat b div 16" by simp
  then show "hex_bytes (b # bs) = hex_char (unat b div 16) # hex_char (unat b mod 16) # hex_bytes bs"
    by (simp add: hex_bytes_def numeral_2_eq_2)
qed (simp add: hex_bytes_def)

lemma byte_div_16 [simp]: "unat (b :: u8) div 16 < 16"
  using unat_u8_less [of b] by simp

lemma length_hex_bytes [simp]: "length (hex_bytes bs) = 2 * length bs"
  by (induction bs) simp_all

lemma hex_bytes_lower: "c \<in> set (hex_bytes bs) \<Longrightarrow> is_lower_hex c"
  by (induction bs) auto

lemma hex_byte_zero:
  "hex_char (unat b div 16) = CHR ''0'' \<and> hex_char (unat b mod 16) = CHR ''0'' \<longleftrightarrow> b = (0 :: u8)"
proof -
  have "n div 16 = 0 \<and> n mod 16 = 0 \<longleftrightarrow> n = 0" for n :: nat
    using div_mult_mod_eq [of n 16] by auto
  then have "unat b div 16 = 0 \<and> unat b mod 16 = 0 \<longleftrightarrow> unat b = 0" .
  also have "\<dots> \<longleftrightarrow> b = 0" by (rule unat_eq_0)
  finally show ?thesis by (simp only: hex_char_0_iff [OF byte_div_16] hex_char_0_iff [of "unat b mod 16"] mod_less_divisor)
qed

lemma hex_bytes_zero: "(\<forall>c\<in>set (hex_bytes bs). c = CHR ''0'') \<longleftrightarrow> (\<forall>b\<in>set bs. b = 0)"
proof (induction bs)
  case (Cons b bs)
  then show ?case
    by (simp only: hex_bytes_simps list.set ball_simps hex_byte_zero flip: conj_assoc)
qed simp

lemma unhex_hex_bytes [simp]: "unhex_bytes (hex_bytes bs) = bs"
proof (induction bs)
  case (Cons b bs)
  have "16 * unhex_char (hex_char (unat b div 16)) + unhex_char (hex_char (unat b mod 16))
      = 16 * (unat b div 16) + unat b mod 16"
    by (simp only: unhex_hex_char [OF byte_div_16] unhex_hex_char [OF mod_less_divisor] zero_less_numeral)
  also have "\<dots> = unat b" by simp
  finally show ?case by (simp only: hex_bytes_simps unhex_bytes.simps Cons.IH of_nat_unat ucast_id)
qed simp

lemma hex_unhex_char:
  assumes "is_lower_hex c"
  shows "unhex_char c < 16 \<and> hex_char (unhex_char c) = c"
proof -
  let ?v = "of_char c :: nat"
  have "?v < 58 \<and> 48 \<le> ?v \<or> 97 \<le> ?v \<and> ?v \<le> 102"
    using assms by (auto simp: is_lower_hex_def is_digit_def)
  then have "unhex_char c < 16 \<and> hex_char (unhex_char c) = char_of ?v"
    by (auto simp: unhex_char_def hex_char_def Let_def)
  then show ?thesis by simp
qed

lemma hex_unhex_bytes:
  "even (length s) \<Longrightarrow> \<forall>c\<in>set s. is_lower_hex c \<Longrightarrow> hex_bytes (unhex_bytes s) = s"
proof (induction s rule: unhex_bytes.induct)
  case (1 c d s)
  let ?b = "of_nat (16 * unhex_char c + unhex_char d) :: u8"
  have c: "unhex_char c < 16" "hex_char (unhex_char c) = c"
    and d: "unhex_char d < 16" "hex_char (unhex_char d) = d"
    using "1.prems" by (simp_all add: hex_unhex_char)
  have "unat ?b = (16 * unhex_char c + unhex_char d) mod 256" by (simp only: unat_of_nat) simp
  with c(1) d(1) have b: "unat ?b = 16 * unhex_char c + unhex_char d" by simp
  have "unat ?b div 16 = unhex_char c" "unat ?b mod 16 = unhex_char d"
    unfolding b using d(1) by simp_all
  moreover have "hex_bytes (unhex_bytes s) = s" using 1 by simp
  ultimately show ?case by (simp only: unhex_bytes.simps hex_bytes_simps c(2) d(2))
qed simp_all

lemma length_unhex_bytes: "even (length s) \<Longrightarrow> length (unhex_bytes s) = length s div 2"
  by (induction s rule: unhex_bytes.induct) auto

section \<open>Newtypes\<close>

text \<open>\<open>id_newtype!\<close>, for the type named in the first argument\<close>

definition parse_id :: "string \<Rightarrow> string \<Rightarrow> BridgeError + string" where
  "parse_id name s = (if s = [] then Inl (InvalidRequest name) else Inr s)"

text \<open>\<open>id_newtype_strict!\<close>\<close>

definition is_ascii_lowercase :: "char \<Rightarrow> bool" where
  "is_ascii_lowercase c \<longleftrightarrow> 97 \<le> (of_char c :: nat) \<and> (of_char c :: nat) \<le> 122"

definition strict_byte :: "char \<Rightarrow> bool" where
  "strict_byte b \<longleftrightarrow> is_ascii_lowercase b \<or> is_digit b \<or> b = CHR ''_'' \<or> b = CHR ''-''"

definition parse_id_strict :: "string \<Rightarrow> string \<Rightarrow> BridgeError + string" where
  "parse_id_strict name s =
     (if s = [] \<or> \<not> list_all strict_byte s then Inl (InvalidRequest name) else Inr s)"

section \<open>High-entropy identities\<close>

text \<open>
  The parser shared by \<open>high_entropy_id!\<close> and the four hand-written identities: the prefix, the
  exact length, at least one digit that is not zero, lower-case hexadecimal digits only.
\<close>

definition parse_hex_identity :: "string \<Rightarrow> nat \<Rightarrow> 'e \<Rightarrow> string \<Rightarrow> 'e + string" where
  "parse_hex_identity prefix encoded_len err v =
     (case strip_prefix prefix v of
        None \<Rightarrow> Inl err
      | Some suffix \<Rightarrow>
          if length v \<noteq> encoded_len \<or> list_all (\<lambda>b. b = CHR ''0'') suffix
             \<or> \<not> list_all is_lower_hex suffix
          then Inl err else Inr v)"

definition ExecutionId_mint :: "u8 list option \<Rightarrow> BridgeError + string" where
  "ExecutionId_mint rand =
     (case rand of None \<Rightarrow> Inl IdentityUnavailable | Some bytes \<Rightarrow> Inr (''exec-'' @ hex_bytes bytes))"

definition ExecutionId_parse :: "string \<Rightarrow> BridgeError + string" where
  "ExecutionId_parse = parse_hex_identity ''exec-'' (length ''exec-'' + 32) (InvalidRequest ''execution_id'')"

definition AttemptId_mint :: "u8 list option \<Rightarrow> BridgeError + string" where
  "AttemptId_mint rand =
     (case rand of None \<Rightarrow> Inl IdentityUnavailable
      | Some bytes \<Rightarrow> Inr (''attempt-'' @ hex_bytes bytes))"

definition AttemptId_parse :: "string \<Rightarrow> BridgeError + string" where
  "AttemptId_parse = parse_hex_identity ''attempt-'' (length ''attempt-'' + 32) (InvalidRequest ''attempt_id'')"

definition ResourceFlightIdV1_from_bytes :: "u8 list \<Rightarrow> BridgeError + string" where
  "ResourceFlightIdV1_from_bytes bytes =
     (if list_all (\<lambda>b. b = 0) bytes then Inl IdentityUnavailable
      else Inr (''resource-flight-'' @ hex_bytes bytes))"

definition ResourceFlightIdV1_mint :: "u8 list option \<Rightarrow> BridgeError + string" where
  "ResourceFlightIdV1_mint rand =
     (case rand of None \<Rightarrow> Inl IdentityUnavailable | Some bytes \<Rightarrow> ResourceFlightIdV1_from_bytes bytes)"

definition ResourceFlightIdV1_parse :: "string \<Rightarrow> BridgeError + string" where
  "ResourceFlightIdV1_parse =
     parse_hex_identity ''resource-flight-'' (length ''resource-flight-'' + 64)
       (InvalidRequest ''resource_flight_id'')"

definition PreparationFlightIdV1_mint :: "u8 list option \<Rightarrow> BridgeError + string" where
  "PreparationFlightIdV1_mint rand =
     (case rand of None \<Rightarrow> Inl IdentityUnavailable
      | Some bytes \<Rightarrow>
          if list_all (\<lambda>b. b = 0) bytes then Inl IdentityUnavailable
          else Inr (''preparation-flight-'' @ hex_bytes bytes))"

definition PreparationFlightIdV1_parse :: "string \<Rightarrow> BridgeError + string" where
  "PreparationFlightIdV1_parse =
     parse_hex_identity ''preparation-flight-'' (length ''preparation-flight-'' + 64)
       (InvalidRequest ''preparation_flight_id'')"

definition WorktreeCustodyIdV1_mint :: "u8 list option \<Rightarrow> BridgeError + string" where
  "WorktreeCustodyIdV1_mint rand =
     (case rand of None \<Rightarrow> Inl IdentityUnavailable
      | Some bytes \<Rightarrow>
          if list_all (\<lambda>b. b = 0) bytes then Inl IdentityUnavailable
          else Inr (''custody-'' @ hex_bytes bytes))"

text \<open>The error is the \<open>ExecutionPolicyError\<close> of the calling module.\<close>

definition WorktreeCustodyIdV1_parse :: "'e \<Rightarrow> string \<Rightarrow> 'e + string" where
  "WorktreeCustodyIdV1_parse invalid_structured_evidence =
     parse_hex_identity ''custody-'' (length ''custody-'' + 64) invalid_structured_evidence"

definition DedicatedRemoteRequestIdV1_from_bytes :: "u8 list \<Rightarrow> BridgeError + string" where
  "DedicatedRemoteRequestIdV1_from_bytes bytes =
     (if list_all (\<lambda>b. b = 0) bytes then Inl IdentityUnavailable
      else Inr (''remote-request-'' @ hex_bytes bytes))"

definition is_ascii_alphanumeric :: "char \<Rightarrow> bool" where
  "is_ascii_alphanumeric c \<longleftrightarrow>
     is_digit c \<or> is_ascii_lowercase c \<or> (65 \<le> (of_char c :: nat) \<and> (of_char c :: nat) \<le> 90)"

definition DedicatedRemoteRequestIdV1_parse :: "string \<Rightarrow> BridgeError + string" where
  "DedicatedRemoteRequestIdV1_parse value =
     (let bounded_opaque = (value \<noteq> [] \<and> length value \<le> 128
            \<and> list_all (\<lambda>b. is_ascii_alphanumeric b \<or> b \<in> set ''-_.:'') value);
          bridge_shape_valid = (case strip_prefix ''remote-request-'' value of None \<Rightarrow> True
            | Some suffix \<Rightarrow> length value = length ''remote-request-'' + 64
                \<and> \<not> list_all (\<lambda>b. b = CHR ''0'') suffix \<and> list_all is_lower_hex suffix)
      in if \<not> bounded_opaque \<or> \<not> bridge_shape_valid
         then Inl (InvalidRequest ''dedicated_remote_request_id'') else Inr value)"

text \<open>
  What a client of an identity type relies on: the parser accepts a value exactly when it is the
  rendering of some byte string of the right length that is not all zero, so minting, parsing and
  comparing identities is minting, reading and comparing their bytes.
\<close>

locale hex_identity =
  fixes parse :: "string \<Rightarrow> 'e + string"
    and prefix :: string
    and width :: nat
  assumes parse_eq: "parse v = Inr u \<longleftrightarrow>
      u = v \<and> (\<exists>x. v = prefix @ x \<and> length x = 2 * width
        \<and> (\<exists>c\<in>set x. c \<noteq> CHR ''0'') \<and> (\<forall>c\<in>set x. is_lower_hex c))"
begin

lemma parse_rendering:
  "length bs = width \<Longrightarrow> \<exists>b\<in>set bs. b \<noteq> 0 \<Longrightarrow> parse (prefix @ hex_bytes bs) = Inr (prefix @ hex_bytes bs)"
  using hex_bytes_zero [of bs] by (auto simp: parse_eq hex_bytes_lower)

lemma parse_iff_rendering:
  "parse v = Inr u \<longleftrightarrow>
     u = v \<and> (\<exists>bs. length bs = width \<and> (\<exists>b\<in>set bs. b \<noteq> 0) \<and> v = prefix @ hex_bytes bs)"
proof
  assume "parse v = Inr u"
  then obtain x where v: "u = v" "v = prefix @ x" and x: "length x = 2 * width"
      "\<exists>c\<in>set x. c \<noteq> CHR ''0''" "\<forall>c\<in>set x. is_lower_hex c"
    by (auto simp: parse_eq)
  have "hex_bytes (unhex_bytes x) = x" using x by (simp add: hex_unhex_bytes)
  moreover have "length (unhex_bytes x) = width" using x by (simp add: length_unhex_bytes)
  ultimately show "u = v \<and> (\<exists>bs. length bs = width \<and> (\<exists>b\<in>set bs. b \<noteq> 0) \<and> v = prefix @ hex_bytes bs)"
    using v x(2) hex_bytes_zero [of "unhex_bytes x"] by metis
next
  assume "u = v \<and> (\<exists>bs. length bs = width \<and> (\<exists>b\<in>set bs. b \<noteq> 0) \<and> v = prefix @ hex_bytes bs)"
  then show "parse v = Inr u" using parse_rendering by auto
qed

lemma rendering_inject: "prefix @ hex_bytes bs = prefix @ hex_bytes cs \<longleftrightarrow> bs = cs"
  using unhex_hex_bytes [of bs] unhex_hex_bytes [of cs] by (metis same_append_eq)

end

lemma parse_hex_identity_eq:
  assumes "encoded_len = length prefix + 2 * width"
  shows "parse_hex_identity prefix encoded_len err v = Inr u \<longleftrightarrow>
      u = v \<and> (\<exists>x. v = prefix @ x \<and> length x = 2 * width
        \<and> (\<exists>c\<in>set x. c \<noteq> CHR ''0'') \<and> (\<forall>c\<in>set x. is_lower_hex c))"
  using assms
  by (auto simp: parse_hex_identity_def strip_prefix_Some_iff list_all_iff split: option.splits if_splits)

interpretation execution_id: hex_identity ExecutionId_parse "''exec-''" 16
  by unfold_locales (simp only: ExecutionId_parse_def, rule parse_hex_identity_eq, simp)

interpretation attempt_id: hex_identity AttemptId_parse "''attempt-''" 16
  by unfold_locales (simp only: AttemptId_parse_def, rule parse_hex_identity_eq, simp)

interpretation resource_flight_id: hex_identity ResourceFlightIdV1_parse "''resource-flight-''" 32
  by unfold_locales (simp only: ResourceFlightIdV1_parse_def, rule parse_hex_identity_eq, simp)

interpretation preparation_flight_id: hex_identity PreparationFlightIdV1_parse "''preparation-flight-''" 32
  by unfold_locales (simp only: PreparationFlightIdV1_parse_def, rule parse_hex_identity_eq, simp)

interpretation worktree_custody_id: hex_identity "WorktreeCustodyIdV1_parse e" "''custody-''" 32
  by unfold_locales (simp only: WorktreeCustodyIdV1_parse_def, rule parse_hex_identity_eq, simp)

text \<open>
  The identity of a resource flight can be minted from a random byte string exactly when its
  bytes are not all zero, and the parser accepts exactly the identities that can be minted: a
  32-byte draw renders to a value that parses back to itself, no other text is accepted, and two
  draws with the same identity are the same draw.
\<close>

theorem resource_flight_id_parse_mint:
  "ResourceFlightIdV1_parse v = Inr u \<longleftrightarrow>
     u = v \<and> (\<exists>!bytes. length bytes = 32 \<and> ResourceFlightIdV1_mint (Some bytes) = Inr v)"
proof -
  let ?P = "\<lambda>bytes. length bytes = 32 \<and> ResourceFlightIdV1_mint (Some bytes) = Inr v"
  have P: "?P bytes \<longleftrightarrow> length bytes = 32 \<and> (\<exists>b\<in>set bytes. b \<noteq> 0)
      \<and> v = ''resource-flight-'' @ hex_bytes bytes" for bytes
    by (auto simp: ResourceFlightIdV1_mint_def ResourceFlightIdV1_from_bytes_def list_all_iff)
  have "x = y" if "?P x" "?P y" for x y
    using that unfolding P by (simp only: resource_flight_id.rendering_inject)
  then have "Ex1 ?P \<longleftrightarrow> Ex ?P" by blast
  then show ?thesis by (simp only: resource_flight_id.parse_iff_rendering P)
qed

text \<open>
  The identities of \<open>high_entropy_id!\<close> are minted without the zero test: the all-zero draw yields
  an execution or attempt identity that the parser of the same type refuses.
\<close>

lemma attempt_id_zero_draw:
  "\<exists>v. AttemptId_mint (Some (replicate 16 0)) = Inr v \<and> AttemptId_parse v = Inl (InvalidRequest ''attempt_id'')"
proof -
  have "list_all (\<lambda>b. b = CHR ''0'') (hex_bytes (replicate 16 0))"
    using hex_bytes_zero [of "replicate 16 0"] by (simp only: list_all_iff set_replicate) simp
  then have "AttemptId_parse (''attempt-'' @ hex_bytes (replicate 16 0)) = Inl (InvalidRequest ''attempt_id'')"
    by (simp only: AttemptId_parse_def parse_hex_identity_def strip_prefix_append option.case if_True disj.left_neutral simp_thms)
  then show ?thesis by (simp only: AttemptId_mint_def option.case sum.inject ex_simps simp_thms)
qed

text \<open>
  A legacy remote-request identity may be any bounded opaque token, but a value that carries the
  bridge's own prefix is accepted only in the minted form.
\<close>

lemma remote_request_prefix_is_minted:
  assumes "DedicatedRemoteRequestIdV1_parse (''remote-request-'' @ x) = Inr u"
  shows "\<exists>bytes. length bytes = 32 \<and> DedicatedRemoteRequestIdV1_from_bytes bytes = Inr u"
proof -
  define p where "p = ''remote-request-''"
  have "length (p @ x) = length p + 64 \<and> \<not> list_all (\<lambda>b. b = CHR ''0'') x \<and> list_all is_lower_hex x
      \<and> u = p @ x"
    using assms unfolding DedicatedRemoteRequestIdV1_parse_def Let_def p_def [symmetric]
      strip_prefix_append option.case if_Inl_Inr_iff
    by blast
  then have x: "length x = 64" "\<exists>c\<in>set x. c \<noteq> CHR ''0''" "\<forall>c\<in>set x. is_lower_hex c"
    and u: "u = p @ x"
    by (simp_all add: list_all_iff)
  have hx: "hex_bytes (unhex_bytes x) = x" using x by (simp add: hex_unhex_bytes)
  have len: "length (unhex_bytes x) = 32" using x(1) by (simp add: length_unhex_bytes)
  have "\<not> list_all (\<lambda>b. b = 0) (unhex_bytes x)"
    using x(2) hex_bytes_zero [of "unhex_bytes x"] unfolding hx list_all_iff by blast
  then have "DedicatedRemoteRequestIdV1_from_bytes (unhex_bytes x) = Inr u"
    unfolding DedicatedRemoteRequestIdV1_from_bytes_def p_def [symmetric] hx u by simp
  with len show ?thesis by blast
qed

section \<open>Attempt lineage\<close>

record AttemptIdentity =
  execution_id :: string
  attempt_id :: string
  ordinal :: u32
  parent_attempt_id :: "string option"

definition AttemptIdentity_initial ::
  "u8 list option \<Rightarrow> u8 list option \<Rightarrow> BridgeError + AttemptIdentity" where
  "AttemptIdentity_initial rand_execution rand_attempt =
     rbind (ExecutionId_mint rand_execution) (\<lambda>execution.
     rbind (AttemptId_mint rand_attempt) (\<lambda>attempt.
     Inr \<lparr>execution_id = execution, attempt_id = attempt, ordinal = 0, parent_attempt_id = None\<rparr>))"

definition AttemptIdentity_resume ::
  "AttemptIdentity \<Rightarrow> u8 list option \<Rightarrow> BridgeError + AttemptIdentity" where
  "AttemptIdentity_resume self rand =
     rbind (AttemptId_mint rand) (\<lambda>attempt.
     case checked_add (ordinal self) 1 of
       None \<Rightarrow> Inl (InvalidRequest ''attempt ordinal overflow'')
     | Some n \<Rightarrow>
         Inr \<lparr>execution_id = execution_id self, attempt_id = attempt, ordinal = n,
              parent_attempt_id = Some (attempt_id self)\<rparr>)"

fun AttemptIdentity_resumes ::
  "AttemptIdentity \<Rightarrow> u8 list option list \<Rightarrow> BridgeError + AttemptIdentity" where
  "AttemptIdentity_resumes self [] = Inr self"
| "AttemptIdentity_resumes self (r # rs) =
     rbind (AttemptIdentity_resume self r) (\<lambda>next. AttemptIdentity_resumes next rs)"

lemma AttemptIdentity_resume_ordinal:
  "AttemptIdentity_resume self r = Inr next \<Longrightarrow>
     execution_id next = execution_id self \<and> unat (ordinal next) = Suc (unat (ordinal self))
     \<and> parent_attempt_id next = Some (attempt_id self)"
  by (cases "checked_add (ordinal self) 1")
    (auto simp: AttemptIdentity_resume_def rbind_Inr_iff dest: checked_add_SomeD)

lemma AttemptIdentity_resumes_ordinal:
  "AttemptIdentity_resumes self rs = Inr final \<Longrightarrow>
     execution_id final = execution_id self \<and> unat (ordinal final) = unat (ordinal self) + length rs"
proof (induction rs arbitrary: self)
  case (Cons r rs)
  then obtain "next" where "AttemptIdentity_resume self r = Inr next"
      and "AttemptIdentity_resumes next rs = Inr final"
    by (auto simp: rbind_Inr_iff)
  with Cons.IH AttemptIdentity_resume_ordinal show ?case by fastforce
qed simp

end
