(* ===== verification/Turn_Liveness.thy ===== *)
theory Turn_Liveness
  imports Identities
begin

text \<open>
  Per-turn activity liveness (\<open>turn_liveness.rs\<close>): the duration parser, the resolution of a
  turn's bounds, the tracker that decides which bound is due, the snapshot a heartbeat shows, and
  the board of in-flight turns. Every function takes the monotonic time it is called at, as the
  source does. SHA-256 (crate \<open>ring\<close>) is the parameter \<open>digest\<close>. The hash map of open tool
  calls is an association list with distinct keys; its size and its lookups are those of the hash
  map, its iteration order is not used except by the snapshot, which sorts.
\<close>

section \<open>Durations\<close>

definition DEFAULT_WORK_CUTOFF_MS :: u64 where "DEFAULT_WORK_CUTOFF_MS = 7200000"
definition DEFAULT_SILENCE_CUTOFF_MS :: u64 where "DEFAULT_SILENCE_CUTOFF_MS = 1800000"
definition MAX_LIVENESS_SECS :: u64 where "MAX_LIVENESS_SECS = 30 * 24 * 3600"
definition MAX_OPEN_TOOL_CALLS :: nat where "MAX_OPEN_TOOL_CALLS = 4096"
definition TOOL_ID_PREVIEW_MAX_BYTES :: nat where "TOOL_ID_PREVIEW_MAX_BYTES = 64"
definition TOOL_TITLE_MAX_BYTES :: nat where "TOOL_TITLE_MAX_BYTES = 128"
definition SNAPSHOT_OPEN_TOOLS_MAX :: nat where "SNAPSHOT_OPEN_TOOLS_MAX = 8"

datatype LivenessOverrideV1 = Off | Ms u64

datatype LivenessDurationError = TooLong u64

definition parse_liveness_secs_v1 :: "u64 \<Rightarrow> LivenessDurationError + LivenessOverrideV1" where
  "parse_liveness_secs_v1 secs =
     (if secs = 0 then Inr Off
      else if MAX_LIVENESS_SECS < secs then Inl (TooLong secs)
      else case checked_mul secs 1000 of Some ms \<Rightarrow> Inr (Ms ms) | None \<Rightarrow> Inl (TooLong secs))"

lemma unat_MAX_LIVENESS_SECS: "unat MAX_LIVENESS_SECS = 2592000"
  by (simp add: MAX_LIVENESS_SECS_def)

lemma checked_mul_secs:
  assumes "secs \<le> MAX_LIVENESS_SECS"
  shows "checked_mul secs 1000 = Some (secs * 1000)" and "unat (secs * 1000) = unat secs * 1000"
proof -
  have "unat secs \<le> 2592000" using assms by (simp add: word_le_nat_alt unat_MAX_LIVENESS_SECS)
  then have "unat secs * unat (1000 :: u64) < 2 ^ 64" by simp
  then show "checked_mul secs 1000 = Some (secs * 1000)"
    by (simp add: checked_mul_def)
  then show "unat (secs * 1000) = unat secs * 1000"
    by (auto dest: checked_mul_SomeD)
qed

datatype TurnLivenessValueV1 = Inherit | ValueOff | ValueMs u64

record TurnLivenessRequestV1 =
  silence :: TurnLivenessValueV1
  work_cutoff :: TurnLivenessValueV1
  client_watching :: bool
  observer_key :: "string option"

record AgentLivenessConfig =
  agent_silence_cutoff :: "LivenessOverrideV1 option"
  agent_work_cutoff :: "LivenessOverrideV1 option"

record ResolvedTurnLivenessV1 =
  silence_ms :: "u64 option"
  work_cutoff_ms :: "u64 option"

definition resolve_value ::
  "TurnLivenessValueV1 \<Rightarrow> LivenessOverrideV1 option \<Rightarrow> u64 option \<Rightarrow> u64 option" where
  "resolve_value request agent_value default_ms =
     (let ms = (case request of
          ValueOff \<Rightarrow> None
        | ValueMs ms \<Rightarrow> Some ms
        | Inherit \<Rightarrow>
            (case agent_value of
               Some Off \<Rightarrow> None
             | Some (Ms ms) \<Rightarrow> Some ms
             | None \<Rightarrow> default_ms))
      in case ms of Some v \<Rightarrow> if v \<noteq> 0 then Some v else None | None \<Rightarrow> None)"

definition resolve_turn_liveness_v1 ::
  "TurnLivenessRequestV1 \<Rightarrow> AgentLivenessConfig option \<Rightarrow> ResolvedTurnLivenessV1" where
  "resolve_turn_liveness_v1 request agent_config =
     (let silence_default = Some DEFAULT_SILENCE_CUTOFF_MS;
          work_default = (if client_watching request then None else Some DEFAULT_WORK_CUTOFF_MS)
      in \<lparr>silence_ms = resolve_value (silence request)
            (Option.bind agent_config agent_silence_cutoff) silence_default,
          work_cutoff_ms = resolve_value (work_cutoff request)
            (Option.bind agent_config agent_work_cutoff) work_default\<rparr>)"

datatype TurnLivenessCauseV1 = LegacyWatchdog | WorkCutoff | Silence

section \<open>Bounded text\<close>

text \<open>\<open>str::is_char_boundary\<close>: the byte at the index does not continue a character.\<close>

definition is_continuation :: "char \<Rightarrow> bool" where
  "is_continuation c \<longleftrightarrow> 128 \<le> (of_char c :: nat) \<and> (of_char c :: nat) < 192"

definition is_char_boundary :: "string \<Rightarrow> nat \<Rightarrow> bool" where
  "is_char_boundary s i \<longleftrightarrow> i = 0 \<or> i = length s \<or> (i < length s \<and> \<not> is_continuation (s ! i))"

fun floor_char_boundary :: "string \<Rightarrow> nat \<Rightarrow> nat" where
  "floor_char_boundary s 0 = 0"
| "floor_char_boundary s (Suc e) =
     (if is_char_boundary s (Suc e) then Suc e else floor_char_boundary s e)"

definition bounded :: "string \<Rightarrow> nat \<Rightarrow> string" where
  "bounded s max_bytes = take (floor_char_boundary s (min (length s) max_bytes)) s"

lemma floor_char_boundary_le: "floor_char_boundary s e \<le> e"
  by (induction e) auto

lemma floor_char_boundary_ok: "is_char_boundary s (floor_char_boundary s e)"
  by (induction e) (auto simp: is_char_boundary_def)

lemma floor_char_boundary_greatest:
  "k \<le> e \<Longrightarrow> is_char_boundary s k \<Longrightarrow> k \<le> floor_char_boundary s e"
  by (induction e) (auto simp: le_Suc_eq)

lemma length_bounded_le: "length (bounded s m) \<le> m"
proof -
  have "floor_char_boundary s (min (length s) m) \<le> m"
    by (rule order_trans [OF floor_char_boundary_le]) simp
  then show ?thesis by (simp add: bounded_def)
qed

lemma bounded_id: "length s \<le> m \<Longrightarrow> bounded s m = s"
proof -
  assume "length s \<le> m"
  moreover have "length s \<le> floor_char_boundary s (length s)"
    by (rule floor_char_boundary_greatest) (simp_all add: is_char_boundary_def)
  ultimately show ?thesis by (simp add: bounded_def min_def)
qed

section \<open>The tracker\<close>

record UsageTotalsKeyV1 =
  used :: u64
  size_total :: u64
  cost :: "(u64 \<times> string) option"

datatype ToolCallPhaseV1 = Pending | InProgress | Completed | Failed

record ToolObservationV1 =
  raw_id :: string
  status :: "ToolCallPhaseV1 option"
  title :: "string option"
  kind :: "string option"

datatype TurnActivityV1 = Update | Usage UsageTotalsKeyV1 | Tool ToolObservationV1

record OpenToolV1 =
  id_preview :: string
  tool_title :: string
  tool_kind :: string
  opened_ms :: u64

record TurnLivenessTransitionV1 =
  counted :: bool
  unpaused :: bool
  overflowed :: bool

definition no_transition :: TurnLivenessTransitionV1 where
  "no_transition = \<lparr>counted = False, unpaused = False, overflowed = False\<rparr>"

type_synonym tool_key = "u8 list"

record TurnLivenessTracker =
  resolved :: ResolvedTurnLivenessV1
  last_activity_ms :: u64
  last_unpause_ms :: u64
  open_tools :: "(tool_key \<times> OpenToolV1) list"
  open_capacity :: nat
  open_overflowed :: bool
  pending_permissions :: u64
  last_usage :: "UsageTotalsKeyV1 option"

definition with_open_tool_capacity :: "ResolvedTurnLivenessV1 \<Rightarrow> nat \<Rightarrow> TurnLivenessTracker" where
  "with_open_tool_capacity r capacity =
     \<lparr>resolved = r, last_activity_ms = 0, last_unpause_ms = 0, open_tools = [],
      open_capacity = capacity, open_overflowed = False, pending_permissions = 0,
      last_usage = None\<rparr>"

definition new_tracker :: "ResolvedTurnLivenessV1 \<Rightarrow> TurnLivenessTracker" where
  "new_tracker r = with_open_tool_capacity r MAX_OPEN_TOOL_CALLS"

definition paused :: "TurnLivenessTracker \<Rightarrow> bool" where
  "paused t \<longleftrightarrow> open_tools t \<noteq> [] \<or> open_overflowed t \<or> 0 < pending_permissions t"

definition note_counted ::
  "TurnLivenessTracker \<Rightarrow> u64 \<Rightarrow> bool \<Rightarrow> bool \<Rightarrow> TurnLivenessTracker \<times> TurnLivenessTransitionV1" where
  "note_counted t now_ms was_paused ovf =
     (let t = t\<lparr>last_activity_ms := max (last_activity_ms t) now_ms\<rparr>;
          unp = (was_paused \<and> \<not> paused t);
          t = (if unp then t\<lparr>last_unpause_ms := max (last_unpause_ms t) now_ms\<rparr> else t)
      in (t, \<lparr>counted = True, unpaused = unp, overflowed = ovf\<rparr>))"

definition option_or :: "'a option \<Rightarrow> 'a \<Rightarrow> 'a" where
  "option_or v d = (case v of None \<Rightarrow> d | Some x \<Rightarrow> x)"

text \<open>The two arms of \<open>observe_tool\<close> that keep an open call: refresh it, or open it.\<close>

definition refresh_open :: "OpenToolV1 \<Rightarrow> ToolObservationV1 \<Rightarrow> OpenToolV1" where
  "refresh_open entry tool =
     (let entry = (case title tool of None \<Rightarrow> entry
            | Some x \<Rightarrow> entry\<lparr>tool_title := bounded x TOOL_TITLE_MAX_BYTES\<rparr>)
      in case kind tool of None \<Rightarrow> entry
         | Some x \<Rightarrow> entry\<lparr>tool_kind := bounded x TOOL_TITLE_MAX_BYTES\<rparr>)"

definition opened_tool :: "u64 \<Rightarrow> ToolObservationV1 \<Rightarrow> OpenToolV1" where
  "opened_tool now_ms tool =
     \<lparr>id_preview = bounded (raw_id tool) TOOL_ID_PREVIEW_MAX_BYTES,
      tool_title = bounded (option_or (title tool) ''?'') TOOL_TITLE_MAX_BYTES,
      tool_kind = bounded (option_or (kind tool) ''?'') TOOL_TITLE_MAX_BYTES,
      opened_ms = now_ms\<rparr>"

definition observe_tool ::
  "(string \<Rightarrow> tool_key) \<Rightarrow> TurnLivenessTracker \<Rightarrow> u64 \<Rightarrow> ToolObservationV1
     \<Rightarrow> TurnLivenessTracker \<times> bool" where
  "observe_tool digest t now_ms tool =
     (let key = digest (raw_id tool) in
      if status tool = Some Pending \<or> status tool = Some InProgress then
        (case map_of (open_tools t) key of
           Some entry \<Rightarrow>
             (t\<lparr>open_tools := AList.update key (refresh_open entry tool) (open_tools t)\<rparr>, False)
         | None \<Rightarrow>
             if open_capacity t \<le> length (open_tools t) then
               (t\<lparr>open_overflowed := True\<rparr>, \<not> open_overflowed t)
             else
               (t\<lparr>open_tools := AList.update key (opened_tool now_ms tool) (open_tools t)\<rparr>, False))
      else if status tool = Some Completed \<or> status tool = Some Failed then
        (t\<lparr>open_tools := AList.delete key (open_tools t)\<rparr>, False)
      else (t, False))"

definition observe ::
  "(string \<Rightarrow> tool_key) \<Rightarrow> TurnLivenessTracker \<Rightarrow> u64 \<Rightarrow> TurnActivityV1
     \<Rightarrow> TurnLivenessTracker \<times> TurnLivenessTransitionV1" where
  "observe digest t now_ms activity =
     (let was_paused = paused t in
      case activity of
        Update \<Rightarrow> note_counted t now_ms was_paused False
      | Usage key \<Rightarrow>
          if last_usage t = Some key then (t, no_transition)
          else note_counted (t\<lparr>last_usage := Some key\<rparr>) now_ms was_paused False
      | Tool tool \<Rightarrow>
          (let (t', ovf) = observe_tool digest t now_ms tool
           in note_counted t' now_ms was_paused ovf))"

definition permission_arrived ::
  "TurnLivenessTracker \<Rightarrow> u64 \<Rightarrow> TurnLivenessTracker \<times> TurnLivenessTransitionV1" where
  "permission_arrived t now_ms =
     note_counted (t\<lparr>pending_permissions := sat_add (pending_permissions t) 1\<rparr>) now_ms (paused t) False"

definition permission_resolved ::
  "TurnLivenessTracker \<Rightarrow> u64 \<Rightarrow> TurnLivenessTracker \<times> TurnLivenessTransitionV1" where
  "permission_resolved t now_ms =
     note_counted (t\<lparr>pending_permissions := sat_sub (pending_permissions t) 1\<rparr>) now_ms (paused t) False"

definition silence_due_ms :: "TurnLivenessTracker \<Rightarrow> u64 option" where
  "silence_due_ms t =
     (if paused t then None
      else let anchor = max (last_activity_ms t) (last_unpause_ms t)
           in Option.bind (silence_ms (resolved t)) (\<lambda>s. checked_add anchor s))"

definition work_due_ms :: "TurnLivenessTracker \<Rightarrow> u64 option" where
  "work_due_ms t = work_cutoff_ms (resolved t)"

definition due_at :: "u64 option \<Rightarrow> u64 \<Rightarrow> bool" where
  "due_at d now_ms = (case d of None \<Rightarrow> False | Some due \<Rightarrow> due \<le> now_ms)"

definition due_cause :: "TurnLivenessTracker \<Rightarrow> u64 \<Rightarrow> bool \<Rightarrow> TurnLivenessCauseV1 option" where
  "due_cause t now_ms legacy_watchdog_due =
     (if legacy_watchdog_due then Some LegacyWatchdog
      else if due_at (work_due_ms t) now_ms then Some WorkCutoff
      else if due_at (silence_due_ms t) now_ms then Some Silence
      else None)"

section \<open>Snapshots\<close>

record OpenToolSnapshotV1 =
  snap_title :: string
  snap_kind :: string
  age_ms :: u64

record TurnLivenessSnapshotV1 =
  turn_id :: string
  snap_agent :: string
  elapsed_ms :: u64
  last_activity_age_ms :: u64
  open_tool_count :: u64
  snap_open_tools :: "OpenToolSnapshotV1 list"
  snap_open_overflowed :: bool
  snap_pending_permissions :: u64
  snap_paused :: bool
  snap_silence_cutoff_ms :: "u64 option"
  snap_work_cutoff_ms :: "u64 option"

definition oldest_first :: "TurnLivenessTracker \<Rightarrow> OpenToolV1 list" where
  "oldest_first t = sort_key (\<lambda>tool. (opened_ms tool, id_preview tool)) (map snd (open_tools t))"

definition snapshot :: "TurnLivenessTracker \<Rightarrow> u64 \<Rightarrow> string \<Rightarrow> TurnLivenessSnapshotV1" where
  "snapshot t now_ms agent_name =
     \<lparr>turn_id = [], snap_agent = agent_name, elapsed_ms = now_ms,
      last_activity_age_ms = sat_sub now_ms (last_activity_ms t),
      open_tool_count =
        (if length (open_tools t) < 2 ^ 64 then of_nat (length (open_tools t)) else - 1),
      snap_open_tools =
        map (\<lambda>tool. \<lparr>snap_title = tool_title tool, snap_kind = tool_kind tool,
                     age_ms = sat_sub now_ms (opened_ms tool)\<rparr>)
          (take SNAPSHOT_OPEN_TOOLS_MAX (oldest_first t)),
      snap_open_overflowed = open_overflowed t,
      snap_pending_permissions = pending_permissions t,
      snap_paused = paused t,
      snap_silence_cutoff_ms = silence_ms (resolved t),
      snap_work_cutoff_ms = work_cutoff_ms (resolved t)\<rparr>"

section \<open>The board of in-flight turns\<close>

text \<open>A probe is the snapshot it yields when the board reads it.\<close>

record BoardEntry =
  serial :: u64
  entry_turn_id :: string
  probe :: TurnLivenessSnapshotV1

record TurnLivenessBoard =
  next_serial :: u64
  turns :: "(string \<times> BoardEntry list) list"

record TurnLivenessRegistrationV1 =
  reg_observer_key :: string
  reg_serial :: u64

definition empty_board :: TurnLivenessBoard where
  "empty_board = \<lparr>next_serial = 0, turns = []\<rparr>"

definition entries_of :: "TurnLivenessBoard \<Rightarrow> string \<Rightarrow> BoardEntry list" where
  "entries_of b key = option_or (map_of (turns b) key) []"

definition register ::
  "TurnLivenessBoard \<Rightarrow> string \<Rightarrow> string \<Rightarrow> TurnLivenessSnapshotV1
     \<Rightarrow> TurnLivenessBoard \<times> TurnLivenessRegistrationV1" where
  "register b key tid p =
     (let s = next_serial b;
          entry = \<lparr>serial = s, entry_turn_id = tid, probe = p\<rparr>
      in (b\<lparr>next_serial := s + 1,
             turns := AList.update key (entries_of b key @ [entry]) (turns b)\<rparr>,
          \<lparr>reg_observer_key = key, reg_serial = s\<rparr>))"

definition drop_registration ::
  "TurnLivenessBoard \<Rightarrow> TurnLivenessRegistrationV1 \<Rightarrow> TurnLivenessBoard" where
  "drop_registration b r =
     (case map_of (turns b) (reg_observer_key r) of
        None \<Rightarrow> b
      | Some entries \<Rightarrow>
          (let kept = filter (\<lambda>e. serial e \<noteq> reg_serial r) entries
           in if kept = [] then b\<lparr>turns := AList.delete (reg_observer_key r) (turns b)\<rparr>
              else b\<lparr>turns := AList.update (reg_observer_key r) kept (turns b)\<rparr>))"

definition board_snapshot :: "TurnLivenessBoard \<Rightarrow> string \<Rightarrow> TurnLivenessSnapshotV1 list" where
  "board_snapshot b key = map (\<lambda>e. (probe e)\<lparr>turn_id := entry_turn_id e\<rparr>) (entries_of b key)"

definition turn_count :: "TurnLivenessBoard \<Rightarrow> nat" where
  "turn_count b = sum_list (map (\<lambda>(_, entries). length entries) (turns b))"

section \<open>Durations and bounds\<close>

text \<open>
  The liveness duration parser, the one parser every configuration source goes through, is
  exact: zero seconds is off, 1 second to 30 days is that many milliseconds with no overflow, and
  everything longer is refused with the seconds it was given.
\<close>

theorem parse_liveness_secs_exact:
  "if unat secs = 0 then parse_liveness_secs_v1 secs = Inr Off
   else if unat secs \<le> 30 * 24 * 3600
   then \<exists>ms. parse_liveness_secs_v1 secs = Inr (Ms ms) \<and> unat ms = unat secs * 1000
   else parse_liveness_secs_v1 secs = Inl (TooLong secs)"
  using checked_mul_secs [of secs]
  by (auto simp: parse_liveness_secs_v1_def word_less_nat_alt word_le_nat_alt unat_MAX_LIVENESS_SECS
      unat_eq_0)

section \<open>The tracker along a turn\<close>

datatype tracker_event =
  Observe u64 TurnActivityV1 | PermissionArrived u64 | PermissionResolved u64

fun tracker_handle ::
  "(string \<Rightarrow> tool_key) \<Rightarrow> TurnLivenessTracker \<Rightarrow> tracker_event
     \<Rightarrow> TurnLivenessTracker \<times> TurnLivenessTransitionV1" where
  "tracker_handle digest t (Observe now_ms activity) = observe digest t now_ms activity"
| "tracker_handle digest t (PermissionArrived now_ms) = permission_arrived t now_ms"
| "tracker_handle digest t (PermissionResolved now_ms) = permission_resolved t now_ms"

definition tracker_step ::
  "(string \<Rightarrow> tool_key) \<Rightarrow> TurnLivenessTracker \<Rightarrow> tracker_event \<Rightarrow> TurnLivenessTracker" where
  "tracker_step digest t e = fst (tracker_handle digest t e)"

fun event_ms :: "tracker_event \<Rightarrow> u64" where
  "event_ms (Observe now_ms _) = now_ms"
| "event_ms (PermissionArrived now_ms) = now_ms"
| "event_ms (PermissionResolved now_ms) = now_ms"

abbreviation tracker_run ::
  "(string \<Rightarrow> tool_key) \<Rightarrow> ResolvedTurnLivenessV1 \<Rightarrow> tracker_event list \<Rightarrow> TurnLivenessTracker" where
  "tracker_run digest r es \<equiv> foldl (tracker_step digest) (new_tracker r) es"

definition open_tool_ok :: "TurnLivenessTracker \<Rightarrow> OpenToolV1 \<Rightarrow> bool" where
  "open_tool_ok t tool \<longleftrightarrow>
     length (id_preview tool) \<le> TOOL_ID_PREVIEW_MAX_BYTES
     \<and> length (tool_title tool) \<le> TOOL_TITLE_MAX_BYTES
     \<and> length (tool_kind tool) \<le> TOOL_TITLE_MAX_BYTES
     \<and> opened_ms tool \<le> last_activity_ms t"

definition tracker_inv :: "TurnLivenessTracker \<Rightarrow> bool" where
  "tracker_inv t \<longleftrightarrow>
     distinct (map fst (open_tools t))
     \<and> length (open_tools t) \<le> open_capacity t
     \<and> (\<forall>tool\<in>snd ` set (open_tools t). open_tool_ok t tool)
     \<and> last_unpause_ms t \<le> last_activity_ms t"

subsection \<open>What one event does\<close>

lemma note_counted_simps [simp]:
  "open_tools (fst (note_counted t n w v)) = open_tools t"
  "open_overflowed (fst (note_counted t n w v)) = open_overflowed t"
  "pending_permissions (fst (note_counted t n w v)) = pending_permissions t"
  "open_capacity (fst (note_counted t n w v)) = open_capacity t"
  "resolved (fst (note_counted t n w v)) = resolved t"
  "last_activity_ms (fst (note_counted t n w v)) = max (last_activity_ms t) n"
  "counted (snd (note_counted t n w v))"
  by (simp_all add: note_counted_def Let_def)

lemma note_counted_unpause:
  "last_unpause_ms (fst (note_counted t n w v)) \<le> max (last_unpause_ms t) n"
  by (simp add: note_counted_def Let_def)

lemma note_counted_inv:
  assumes "distinct (map fst (open_tools t))" and "length (open_tools t) \<le> open_capacity t"
    and "\<And>tool. tool \<in> snd ` set (open_tools t) \<Longrightarrow> open_tool_ok (t\<lparr>last_activity_ms := max (last_activity_ms t) n\<rparr>) tool"
    and "last_unpause_ms t \<le> last_activity_ms t"
  shows "tracker_inv (fst (note_counted t n w v))"
proof -
  have "last_unpause_ms (fst (note_counted t n w v)) \<le> max (last_activity_ms t) n"
    using note_counted_unpause [of t n w v] assms(4) by (auto simp: max_def split: if_splits)
  with assms(1-3) show ?thesis by (simp add: tracker_inv_def open_tool_ok_def)
qed

lemma open_tool_ok_later:
  "open_tool_ok t tool \<Longrightarrow> last_activity_ms t \<le> last_activity_ms t' \<Longrightarrow> open_tool_ok t' tool"
  by (auto simp: open_tool_ok_def)

lemma tracker_invD:
  assumes "tracker_inv t"
  shows "distinct (map fst (open_tools t))" "length (open_tools t) \<le> open_capacity t"
    "tool \<in> snd ` set (open_tools t) \<Longrightarrow> open_tool_ok t tool" "last_unpause_ms t \<le> last_activity_ms t"
  using assms by (auto simp: tracker_inv_def)

lemma observe_tool_simps [simp]:
  "open_capacity (fst (observe_tool digest t n tool)) = open_capacity t"
  "resolved (fst (observe_tool digest t n tool)) = resolved t"
  "last_activity_ms (fst (observe_tool digest t n tool)) = last_activity_ms t"
  "last_unpause_ms (fst (observe_tool digest t n tool)) = last_unpause_ms t"
  "pending_permissions (fst (observe_tool digest t n tool)) = pending_permissions t"
  by (auto simp: observe_tool_def Let_def split: option.split)

lemma open_tool_ok_refresh: "open_tool_ok t entry \<Longrightarrow> open_tool_ok t (refresh_open entry tool)"
  by (auto simp: open_tool_ok_def refresh_open_def Let_def length_bounded_le split: option.split)

lemma open_tool_ok_opened: "n \<le> last_activity_ms t \<Longrightarrow> open_tool_ok t (opened_tool n tool)"
  by (simp add: open_tool_ok_def opened_tool_def length_bounded_le)

lemma snd_set_update: "snd ` set (AList.update k v al) \<subseteq> insert v (snd ` set al)"
  using image_mono [OF set_alist_update, of snd k v al] by simp

lemma observe_tool_open_set:
  "snd ` set (open_tools (fst (observe_tool digest t n tool))) \<subseteq>
     snd ` set (open_tools t) \<union> (\<lambda>entry. refresh_open entry tool) ` snd ` set (open_tools t)
       \<union> {opened_tool n tool}"
proof (cases "map_of (open_tools t) (digest (raw_id tool))")
  case None
  then show ?thesis
    using snd_set_update [of "digest (raw_id tool)" "opened_tool n tool" "open_tools t"]
      image_mono [OF set_alist_delete, of snd "digest (raw_id tool)" "open_tools t"]
    by (simp add: observe_tool_def Let_def) blast
next
  case (Some entry)
  then have "entry \<in> snd ` set (open_tools t)" using map_of_Some_mem by fastforce
  then show ?thesis
    using Some snd_set_update [of "digest (raw_id tool)" "refresh_open entry tool" "open_tools t"]
      image_mono [OF set_alist_delete, of snd "digest (raw_id tool)" "open_tools t"]
    by (simp add: observe_tool_def Let_def) blast
qed

lemma observe_tool_open_inv:
  assumes "tracker_inv t"
  shows "distinct (map fst (open_tools (fst (observe_tool digest t n tool))))"
    and "length (open_tools (fst (observe_tool digest t n tool))) \<le> open_capacity t"
    and "x \<in> snd ` set (open_tools (fst (observe_tool digest t n tool))) \<Longrightarrow>
      open_tool_ok (t\<lparr>last_activity_ms := max (last_activity_ms t) n\<rparr>) x"
proof -
  note inv = tracker_invD [OF assms]
  show "distinct (map fst (open_tools (fst (observe_tool digest t n tool))))"
    using inv(1)
    by (auto simp: observe_tool_def Let_def distinct_update distinct_delete split: option.split)
  show "length (open_tools (fst (observe_tool digest t n tool))) \<le> open_capacity t"
    using inv(2) length_delete_le [of "digest (raw_id tool)" "open_tools t"]
    by (auto simp: observe_tool_def Let_def length_alist_update
        split: option.split dest: map_of_Some_mem)
  have old: "open_tool_ok (t\<lparr>last_activity_ms := max (last_activity_ms t) n\<rparr>) y"
    if "y \<in> snd ` set (open_tools t)" for y
    using inv(3) [OF that] by (rule open_tool_ok_later) simp
  show "open_tool_ok (t\<lparr>last_activity_ms := max (last_activity_ms t) n\<rparr>) x"
    if "x \<in> snd ` set (open_tools (fst (observe_tool digest t n tool)))"
    using subsetD [OF observe_tool_open_set that] old open_tool_ok_refresh [OF old]
      open_tool_ok_opened [of n "t\<lparr>last_activity_ms := max (last_activity_ms t) n\<rparr>" tool]
    by auto
qed

lemma tracker_step_inv [step_inv]:
  assumes "tracker_inv t"
  shows "tracker_inv (tracker_step digest t e)"
proof -
  note inv = tracker_invD [OF assms]
  have old: "open_tool_ok (t\<lparr>last_activity_ms := max (last_activity_ms t) n\<rparr>) y"
    if "y \<in> snd ` set (open_tools t)" for y n
    using inv(3) [OF that] by (rule open_tool_ok_later) simp
  have frame: "tracker_inv (fst (note_counted (f t) n w v))"
    if "open_tools (f t) = open_tools t" "open_capacity (f t) = open_capacity t"
      "last_activity_ms (f t) = last_activity_ms t" "last_unpause_ms (f t) = last_unpause_ms t" for f n w v
    using that inv old by (intro note_counted_inv) (auto simp: open_tool_ok_def)
  show ?thesis
  proof (cases e)
    case (Observe n activity)
    show ?thesis
    proof (cases activity)
      case Update
      with Observe frame [of id] show ?thesis by (simp add: tracker_step_def observe_def Let_def)
    next
      case (Usage key)
      with Observe assms frame [of "\<lambda>t. t\<lparr>last_usage := Some key\<rparr>"] show ?thesis
        by (simp add: tracker_step_def observe_def Let_def)
    next
      case (Tool tool)
      have "tracker_inv (fst (note_counted (fst (observe_tool digest t n tool)) n w v))" for w v
        using observe_tool_open_inv [OF assms] inv(4)
        by (intro note_counted_inv) (auto simp: open_tool_ok_def)
      with Observe Tool show ?thesis
        by (simp add: tracker_step_def observe_def Let_def split_beta)
    qed
  next
    case (PermissionArrived n)
    with frame [of "\<lambda>t. t\<lparr>pending_permissions := sat_add (pending_permissions t) 1\<rparr>"] show ?thesis
      by (simp add: tracker_step_def permission_arrived_def)
  next
    case (PermissionResolved n)
    with frame [of "\<lambda>t. t\<lparr>pending_permissions := sat_sub (pending_permissions t) 1\<rparr>"] show ?thesis
      by (simp add: tracker_step_def permission_resolved_def)
  qed
qed

interpretation tracker: event_machine "tracker_step digest" tracker_inv
  by unfold_locales (rule tracker_step_inv)

definition tracker_below :: "TurnLivenessTracker \<Rightarrow> TurnLivenessTracker \<Rightarrow> bool" where
  "tracker_below t t' \<longleftrightarrow>
     last_activity_ms t \<le> last_activity_ms t'
     \<and> (open_overflowed t \<longrightarrow> open_overflowed t')
     \<and> resolved t' = resolved t \<and> open_capacity t' = open_capacity t"

lemma observe_tool_overflowed:
  "open_overflowed (fst (observe_tool digest t n tool)) \<longleftrightarrow>
     open_overflowed t \<or> snd (observe_tool digest t n tool)"
  "snd (observe_tool digest t n tool) \<Longrightarrow> \<not> open_overflowed t"
  by (auto simp: observe_tool_def Let_def split: option.splits if_splits)

lemma tracker_step_below: "tracker_below t (tracker_step digest t e)"
  by (cases e)
    (auto simp: tracker_below_def tracker_step_def observe_def Let_def permission_arrived_def
      permission_resolved_def observe_tool_overflowed split_beta split: TurnActivityV1.split)

interpretation tracker_growth: growing_machine "tracker_step digest" tracker_below
  by unfold_locales (auto simp: tracker_step_below, auto simp: tracker_below_def)

lemma tracker_inv_new: "tracker_inv (new_tracker r)"
  by (simp add: tracker_inv_def new_tracker_def with_open_tool_capacity_def)

lemma tracker_inv_run: "tracker_inv (tracker_run digest r es)"
  by (rule tracker.inv_run [OF tracker_inv_new])

lemma resolved_run: "resolved (tracker_run digest r es) = r"
  "open_capacity (tracker_run digest r es) = MAX_OPEN_TOOL_CALLS"
  using tracker_growth.below_run [of "new_tracker r" digest es]
  by (simp_all add: tracker_below_def new_tracker_def with_open_tool_capacity_def)

subsection \<open>When the silence bound fires\<close>

text \<open>The latest time of an event that counted as activity.\<close>

fun last_counted ::
  "(string \<Rightarrow> tool_key) \<Rightarrow> TurnLivenessTracker \<Rightarrow> tracker_event list \<Rightarrow> u64" where
  "last_counted digest t [] = 0"
| "last_counted digest t (e # es) =
     (let (t', transition) = tracker_handle digest t e
      in max (if counted transition then event_ms e else 0) (last_counted digest t' es))"

lemma last_activity_step:
  "last_activity_ms (tracker_step digest t e) =
     (if counted (snd (tracker_handle digest t e)) then max (last_activity_ms t) (event_ms e)
      else last_activity_ms t)"
  by (cases e)
    (auto simp: tracker_step_def observe_def Let_def permission_arrived_def permission_resolved_def
      no_transition_def split_beta split: TurnActivityV1.split)

lemma last_activity_run:
  "last_activity_ms (foldl (tracker_step digest) t es) =
     max (last_activity_ms t) (last_counted digest t es)"
proof (induction es arbitrary: t)
  case (Cons e es)
  then show ?case
    by (simp add: last_activity_step split_beta max.assoc tracker_step_def [symmetric])
qed simp

lemma silence_due_iff:
  assumes "tracker_inv t"
  shows "due_at (silence_due_ms t) now \<longleftrightarrow>
    \<not> paused t \<and> (\<exists>s. silence_ms (resolved t) = Some s \<and> unat (last_activity_ms t) + unat s \<le> unat now)"
proof -
  have anchor: "max (last_activity_ms t) (last_unpause_ms t) = last_activity_ms t"
    using tracker_invD(4) [OF assms] by (simp add: max_def)
  show ?thesis
    by (cases "silence_ms (resolved t)")
      (simp_all add: silence_due_ms_def anchor due_at_def checked_add_passed_iff Let_def)
qed

text \<open>
  C5: Each cause of a turn's end fires exactly when it should. After any sequence of events of a turn, a due legacy
  watchdog always comes first; otherwise the cause due is the hard cutoff if and only if its time has come, and it is the silence bound
  if and only if neither of the two is due, nothing pauses the turn, and at least the configured silence has elapsed
  (without wrap-around) since the latest event that counted as activity; in all other cases no cause is due.
\<close>

theorem silence_fires_exactly:
  "due_cause (tracker_run digest r es) now legacy =
    (if legacy then Some LegacyWatchdog
     else if \<exists>w. work_cutoff_ms r = Some w \<and> unat w \<le> unat now then Some WorkCutoff
     else if \<not> paused (tracker_run digest r es)
         \<and> (\<exists>s. silence_ms r = Some s \<and> unat (last_counted digest (new_tracker r) es) + unat s \<le> unat now)
       then Some Silence
     else None)"
proof -
  let ?t = "tracker_run digest r es"
  have "last_activity_ms ?t = last_counted digest (new_tracker r) es"
    by (simp add: last_activity_run) (simp add: new_tracker_def with_open_tool_capacity_def max_def)
  then have "due_at (silence_due_ms ?t) now \<longleftrightarrow> \<not> paused ?t
      \<and> (\<exists>s. silence_ms r = Some s \<and> unat (last_counted digest (new_tracker r) es) + unat s \<le> unat now)"
    using silence_due_iff [OF tracker_inv_run, of digest r es now] by (auto simp: resolved_run)
  moreover have "due_at (work_due_ms ?t) now \<longleftrightarrow> (\<exists>w. work_cutoff_ms r = Some w \<and> unat w \<le> unat now)"
    by (cases "work_cutoff_ms r") (simp_all add: work_due_ms_def resolved_run due_at_def word_le_nat_alt)
  ultimately show ?thesis by (simp only: due_cause_def)
qed

subsection \<open>The cap on open calls\<close>

fun tracker_transitions ::
  "(string \<Rightarrow> tool_key) \<Rightarrow> TurnLivenessTracker \<Rightarrow> tracker_event list \<Rightarrow> TurnLivenessTransitionV1 list" where
  "tracker_transitions digest t [] = []"
| "tracker_transitions digest t (e # es) =
     snd (tracker_handle digest t e) # tracker_transitions digest (tracker_step digest t e) es"

lemma overflowed_step:
  "open_overflowed (tracker_step digest t e) \<longleftrightarrow>
     open_overflowed t \<or> overflowed (snd (tracker_handle digest t e))"
  "overflowed (snd (tracker_handle digest t e)) \<Longrightarrow> \<not> open_overflowed t"
  by (cases e;
      auto simp: tracker_step_def observe_def Let_def permission_arrived_def permission_resolved_def
        no_transition_def note_counted_def observe_tool_overflowed split_beta
        split: TurnActivityV1.splits if_splits)+

lemma overflow_count:
  "length (filter overflowed (tracker_transitions digest t es)) =
     (if open_overflowed (foldl (tracker_step digest) t es) \<and> \<not> open_overflowed t then 1 else 0)"
proof (induction es arbitrary: t)
  case (Cons e es)
  have "open_overflowed (foldl (tracker_step digest) (tracker_step digest t e) es)"
    if "open_overflowed (tracker_step digest t e)"
    using that tracker_growth.below_run [of "tracker_step digest t e" digest es]
    by (simp add: tracker_below_def)
  with Cons.IH [of "tracker_step digest t e"] overflowed_step [of digest t e] show ?case
    by (auto simp: overflowed_step)
qed simp

text \<open>
  Overflowing the cap on open tool calls fails towards not killing the turn: the overflow is
  reported by at most one transition of a turn, and from that transition on the silence bound never
  fires again, whatever events follow.
\<close>

theorem overflow_reported_once_and_pauses:
  fixes digest r capacity
  defines "t0 \<equiv> with_open_tool_capacity r capacity"
  shows "length (filter overflowed (tracker_transitions digest t0 es)) \<le> 1
   \<and> ((\<exists>tr\<in>set (tracker_transitions digest t0 es). overflowed tr) \<longrightarrow>
        due_cause (foldl (tracker_step digest) t0 (es @ es')) now legacy \<noteq> Some Silence)"
proof -
  let ?t = "foldl (tracker_step digest) t0 es"
  have "due_cause (foldl (tracker_step digest) t0 (es @ es')) now legacy \<noteq> Some Silence"
    if "filter overflowed (tracker_transitions digest t0 es) \<noteq> []"
  proof -
    have "open_overflowed ?t"
      using that overflow_count [of digest t0 es] by (auto split: if_splits)
    then have "open_overflowed (foldl (tracker_step digest) t0 (es @ es'))"
      using tracker_growth.below_run [of ?t digest es'] by (simp add: tracker_below_def)
    then show ?thesis
      by (simp add: due_cause_def silence_due_ms_def paused_def due_at_def)
  qed
  then show ?thesis
    by (auto simp: overflow_count filter_empty_conv)
qed

subsection \<open>Pausing refines a set of open calls\<close>

text \<open>
  The specification of pausing: the set of tool-call ids that are open and the number of permission
  requests that wait, with no digests, no capacity and no saturation.
\<close>

record pause_spec =
  open_ids :: "string set"
  waiting :: nat

fun pause_step :: "pause_spec \<Rightarrow> tracker_event \<Rightarrow> pause_spec" where
  "pause_step p (Observe _ (Tool tool)) =
     (case status tool of
        Some Pending \<Rightarrow> p\<lparr>open_ids := insert (raw_id tool) (open_ids p)\<rparr>
      | Some InProgress \<Rightarrow> p\<lparr>open_ids := insert (raw_id tool) (open_ids p)\<rparr>
      | Some Completed \<Rightarrow> p\<lparr>open_ids := open_ids p - {raw_id tool}\<rparr>
      | Some Failed \<Rightarrow> p\<lparr>open_ids := open_ids p - {raw_id tool}\<rparr>
      | None \<Rightarrow> p)"
| "pause_step p (Observe _ _) = p"
| "pause_step p (PermissionArrived _) = p\<lparr>waiting := waiting p + 1\<rparr>"
| "pause_step p (PermissionResolved _) = p\<lparr>waiting := waiting p - 1\<rparr>"

definition no_pause :: pause_spec where
  "no_pause = \<lparr>open_ids = {}, waiting = 0\<rparr>"

definition pause_holds :: "pause_spec \<Rightarrow> bool" where
  "pause_holds p \<longleftrightarrow> open_ids p \<noteq> {} \<or> 0 < waiting p"

fun event_id :: "tracker_event \<Rightarrow> string set" where
  "event_id (Observe _ (Tool tool)) = {raw_id tool}"
| "event_id _ = {}"

definition pause_run :: "tracker_event list \<Rightarrow> pause_spec" where
  "pause_run es = foldl pause_step no_pause es"

text \<open>At some moment of the turn more calls were open than the tracker has room for.\<close>

definition crowded :: "tracker_event list \<Rightarrow> bool" where
  "crowded es \<longleftrightarrow> (\<exists>k\<le>length es. MAX_OPEN_TOOL_CALLS < card (open_ids (pause_run (take k es))))"

lemma pause_run_simps [simp]: "pause_run [] = no_pause" "pause_run (es @ [e]) = pause_step (pause_run es) e"
  by (simp_all add: pause_run_def)

lemma crowded_simps [simp]:
  "\<not> crowded []"
  "crowded (es @ [e]) \<longleftrightarrow> crowded es \<or> MAX_OPEN_TOOL_CALLS < card (open_ids (pause_step (pause_run es) e))"
proof -
  show "\<not> crowded []" by (simp add: crowded_def no_pause_def MAX_OPEN_TOOL_CALLS_def)
  have "take k (es @ [e]) = take k es" if "k \<le> length es" for k using that by simp
  then show "crowded (es @ [e]) \<longleftrightarrow> crowded es \<or> MAX_OPEN_TOOL_CALLS < card (open_ids (pause_step (pause_run es) e))"
    by (auto simp: crowded_def le_Suc_eq)
qed

definition pause_rel ::
  "(string \<Rightarrow> tool_key) \<Rightarrow> string set \<Rightarrow> TurnLivenessTracker \<Rightarrow> pause_spec \<Rightarrow> bool \<Rightarrow> bool" where
  "pause_rel digest ids t p spilled \<longleftrightarrow>
     (open_overflowed t \<longleftrightarrow> spilled) \<and> open_ids p \<subseteq> ids \<and> unat (pending_permissions t) = waiting p
     \<and> (\<not> spilled \<longrightarrow> fst ` set (open_tools t) = digest ` open_ids p \<and> card (open_ids p) \<le> open_capacity t)"

lemma pause_rel_paused: "pause_rel digest ids t p spilled \<Longrightarrow> paused t \<longleftrightarrow> spilled \<or> pause_holds p"
  by (auto simp: pause_rel_def paused_def pause_holds_def word_less_nat_alt)

lemma pause_rel_length:
  assumes "tracker_inv t" "pause_rel digest ids t p False" "inj_on digest ids"
  shows "length (open_tools t) = card (open_ids p)"
proof -
  have "length (open_tools t) = card (fst ` set (open_tools t))"
    using tracker_invD(1) [OF assms(1)] distinct_card by fastforce
  moreover have "card (digest ` open_ids p) = card (open_ids p)"
    using assms(2,3) by (intro card_image) (auto simp: pause_rel_def intro: inj_on_subset)
  ultimately show ?thesis using assms(2) by (simp add: pause_rel_def)
qed

lemma pause_rel_observe_tool:
  fixes n :: u64
  assumes "tracker_inv t" "pause_rel digest ids t p spilled" "inj_on digest ids" "finite ids" "raw_id tool \<in> ids"
  defines "p' \<equiv> pause_step p (Observe n (Tool tool))"
  shows "pause_rel digest ids (fst (observe_tool digest t n tool)) p' (spilled \<or> open_capacity t < card (open_ids p'))"
proof (cases spilled)
  case True
  with assms(2,5) show ?thesis
    by (auto simp: p'_def pause_rel_def observe_tool_def Let_def split: option.splits ToolCallPhaseV1.splits)
next
  case False
  have rel: "fst ` set (open_tools t) = digest ` open_ids p" "open_ids p \<subseteq> ids" "card (open_ids p) \<le> open_capacity t"
    using assms(2) False by (simp_all add: pause_rel_def)
  have fin: "finite (open_ids p)" using rel(2) assms(4) by (rule finite_subset)
  have upd: "fst ` set (AList.update (digest (raw_id tool)) v (open_tools t)) =
      digest ` insert (raw_id tool) (open_ids p)" for v
    using rel(1) by (simp add: dom_update image_image)
  have del: "fst ` set (AList.delete (digest (raw_id tool)) (open_tools t)) =
      digest ` (open_ids p - {raw_id tool})"
    using rel assms(3,5) by (auto simp: fst_set_alist_delete inj_on_def)
  have len: "length (open_tools t) = card (open_ids p)"
    using pause_rel_length [OF assms(1) _ assms(3)] assms(2) False by simp
  have known: "map_of (open_tools t) (digest (raw_id tool)) = None \<longleftrightarrow> raw_id tool \<notin> open_ids p"
    using rel(1,2) assms(3,5) by (auto simp: map_of_eq_None_iff inj_on_def)
  have card: "card (insert (raw_id tool) (open_ids p)) =
      (if raw_id tool \<in> open_ids p then card (open_ids p) else Suc (card (open_ids p)))"
    "card (open_ids p - {raw_id tool}) \<le> card (open_ids p)"
    using fin by (auto simp: insert_absorb intro: card_mono)
  show ?thesis
    using assms(2,5) False upd del len known card rel(3)
    by (cases "status tool"; cases "the (status tool)"; cases "map_of (open_tools t) (digest (raw_id tool))")
      (auto simp: p'_def pause_rel_def observe_tool_def Let_def)
qed

lemma pause_rel_note_counted:
  "pause_rel digest ids (fst (note_counted t n w v)) p spilled \<longleftrightarrow> pause_rel digest ids t p spilled"
  by (simp add: pause_rel_def)

lemma pause_rel_same:
  "pause_rel digest ids t p spilled \<Longrightarrow> pause_rel digest ids t p (spilled \<or> open_capacity t < card (open_ids p))"
  by (auto simp: pause_rel_def)

lemma pause_rel_step:
  assumes "tracker_inv t" "pause_rel digest ids t p spilled" "inj_on digest ids" "finite ids"
    "event_id e \<subseteq> ids" "waiting p + 1 < 2 ^ 64"
  shows "pause_rel digest ids (tracker_step digest t e) (pause_step p e)
    (spilled \<or> open_capacity t < card (open_ids (pause_step p e)))"
proof (cases e)
  case (Observe n activity)
  then show ?thesis
    using assms(2,5) pause_rel_observe_tool [OF assms(1-4)] pause_rel_same [OF assms(2)]
    by (cases activity)
      (auto simp: tracker_step_def observe_def Let_def split_beta pause_rel_note_counted,
        auto simp: pause_rel_def)
next
  case (PermissionArrived n)
  then show ?thesis
    using assms(2,6)
    by (simp add: tracker_step_def permission_arrived_def pause_rel_note_counted)
      (auto simp: pause_rel_def unat_sat_add)
next
  case (PermissionResolved n)
  then show ?thesis
    using assms(2)
    by (simp add: tracker_step_def permission_resolved_def pause_rel_note_counted)
      (auto simp: pause_rel_def unat_sat_sub)
qed

lemma waiting_step: "waiting (pause_step p e) \<le> waiting p + 1"
  by (cases "(p, e)" rule: pause_step.cases)
    (auto split: option.split ToolCallPhaseV1.split)

lemma waiting_run: "waiting (pause_run es) \<le> length es"
proof (induction es rule: rev_induct)
  case (snoc e es)
  then show ?case using waiting_step [of "pause_run es" e] by simp
qed (simp add: no_pause_def)

lemma capacity_run: "open_capacity (tracker_run digest r es) = MAX_OPEN_TOOL_CALLS"
  using tracker_growth.below_run [of "new_tracker r" digest es]
  by (simp add: tracker_below_def new_tracker_def with_open_tool_capacity_def)

lemma pause_rel_run:
  assumes "inj_on digest ids" "finite ids" "\<Union> (event_id ` set es) \<subseteq> ids" "length es < 2 ^ 64"
  shows "pause_rel digest ids (tracker_run digest r es) (pause_run es) (crowded es)"
  using assms(3,4)
proof (induction es rule: rev_induct)
  case Nil
  show ?case by (simp add: pause_rel_def new_tracker_def with_open_tool_capacity_def no_pause_def)
next
  case (snoc e es)
  have "waiting (pause_run es) + 1 < 2 ^ 64" using waiting_run [of es] snoc.prems(2) by simp
  with snoc show ?case
    using pause_rel_step [OF tracker_inv_run _ assms(1,2), of digest r es "pause_run es" "crowded es" e]
    by (simp add: capacity_run)
qed

text \<open>
  C8: The pause a turn has is the pause it should have. As long as the digest separates the tool-call
  ids the turn mentions and the turn has fewer than \<open>2^64\<close> events, the tracker with its digests, its table of 4096 calls and its
  saturating counter is paused exactly when some tool call has been opened and not closed, or some permission request
  waits, or at some moment of the turn more than 4096 calls were open at once: from then on it stays paused.
\<close>

theorem pause_refines_open_calls:
  assumes "inj_on digest (\<Union> (event_id ` set es))" and "length es < 2 ^ 64"
  shows "paused (tracker_run digest r es) \<longleftrightarrow> pause_holds (pause_run es) \<or> crowded es"
proof -
  have "finite (event_id e)" for e by (cases e rule: event_id.cases) auto
  then show ?thesis using pause_rel_paused [OF pause_rel_run [OF assms(1) _ subset_refl assms(2)]] by auto
qed

definition example_tool :: "string \<Rightarrow> ToolCallPhaseV1 \<Rightarrow> ToolObservationV1" where
  "example_tool i phase = \<lparr>raw_id = i, status = Some phase, title = None, kind = None\<rparr>"

definition example_resolved :: ResolvedTurnLivenessV1 where
  "example_resolved = \<lparr>silence_ms = Some 1000, work_cutoff_ms = None\<rparr>"

definition example_turn :: "tracker_event list" where
  "example_turn =
     [Observe 10 (Tool (example_tool ''a'' Pending)), PermissionArrived 20,
      Observe 30 (Tool (example_tool ''a'' Completed))]"

theorem pause_refines_open_calls_witness:
  "paused (tracker_run (\<lambda>s. map (of_nat \<circ> of_char) s) example_resolved example_turn)
   \<longleftrightarrow> pause_holds (pause_run example_turn) \<or> crowded example_turn"
proof (rule pause_refines_open_calls)
  show "inj_on (\<lambda>s. map (of_nat \<circ> of_char) s :: u8 list) (\<Union> (event_id ` set example_turn))"
    by (simp add: example_turn_def example_tool_def)
  show "length example_turn < 2 ^ 64" by (simp add: example_turn_def)
qed

text \<open>A tracker of capacity one overflows at the second open call and stays paused after both close.\<close>

definition example_overflow :: "tracker_event list" where
  "example_overflow =
     [Observe 10 (Tool (example_tool ''a'' Pending)), Observe 20 (Tool (example_tool ''b'' Pending))]"

theorem overflow_reported_once_and_pauses_witness:
  "due_cause (foldl (tracker_step (map (of_nat \<circ> of_char))) (with_open_tool_capacity example_resolved 1)
      (example_overflow @ [Observe 30 (Tool (example_tool ''a'' Completed))])) 5000 False \<noteq> Some Silence"
proof -
  have "\<exists>tr\<in>set (tracker_transitions (map (of_nat \<circ> of_char))
      (with_open_tool_capacity example_resolved 1) example_overflow). overflowed tr"
    by code_simp
  then show ?thesis
    using overflow_reported_once_and_pauses [of "map (of_nat \<circ> of_char)" example_resolved 1 example_overflow]
    by blast
qed

subsection \<open>What a heartbeat shows\<close>

lemma sorted_key_take_drop:
  "x \<in> set (take n (sort_key f xs)) \<Longrightarrow> y \<in> set (drop n (sort_key f xs)) \<Longrightarrow> f x \<le> f y"
proof -
  assume x: "x \<in> set (take n (sort_key f xs))" and y: "y \<in> set (drop n (sort_key f xs))"
  have "sorted (map f (take n (sort_key f xs) @ drop n (sort_key f xs)))" by simp
  then have "\<forall>a\<in>set (map f (take n (sort_key f xs))). \<forall>b\<in>set (map f (drop n (sort_key f xs))). a \<le> b"
    unfolding map_append sorted_append by blast
  with x y show ?thesis by simp
qed

text \<open>
  A heartbeat's snapshot shows the open calls that have been open longest. At any point of a turn
  the open calls split into the shown ones, at most eight, and the rest, none of which was opened
  before a shown one; the count is that of all open calls and never truncated, every shown title
  fits its bound, and every shown age is exact.
\<close>

theorem snapshot_shows_oldest:
  assumes "t = tracker_run digest r es" and "last_activity_ms t \<le> now"
  shows "\<exists>shown rest.
      mset (shown @ rest) = mset (map snd (open_tools t))
      \<and> length shown = min 8 (length (open_tools t))
      \<and> (\<forall>x\<in>set shown. \<forall>y\<in>set rest. opened_ms x \<le> opened_ms y)
      \<and> unat (open_tool_count (snapshot t now agent)) = length (open_tools t)
      \<and> list_all2 (\<lambda>tool line. snap_title line = tool_title tool \<and> length (snap_title line) \<le> 128
            \<and> unat (opened_ms tool) + unat (age_ms line) = unat now)
          shown (snap_open_tools (snapshot t now agent))"
proof (intro exI conjI)
  let ?all = "oldest_first t"
  have inv: "tracker_inv t" using tracker_inv_run assms(1) by simp
  have cap: "length (open_tools t) \<le> 4096"
    using tracker_invD(2) [OF inv] assms(1) by (simp add: resolved_run MAX_OPEN_TOOL_CALLS_def)
  show "mset (take 8 ?all @ drop 8 ?all) = mset (map snd (open_tools t))"
    by (simp only: append_take_drop_id) (simp add: oldest_first_def)
  show "length (take 8 ?all) = min 8 (length (open_tools t))"
    by (simp add: oldest_first_def)
  show "\<forall>x\<in>set (take 8 ?all). \<forall>y\<in>set (drop 8 ?all). opened_ms x \<le> opened_ms y"
    unfolding oldest_first_def
    by (auto simp: less_eq_prod_def dest!: sorted_key_take_drop [where f = "\<lambda>tool. (opened_ms tool, id_preview tool)"])
  have "unat (of_nat (length (open_tools t)) :: u64) = length (open_tools t)"
    using cap by (simp add: unat_of_nat)
  then show "unat (open_tool_count (snapshot t now agent)) = length (open_tools t)"
    using cap by (simp add: snapshot_def)
  have "tool_title tool = tool_title tool \<and> length (tool_title tool) \<le> 128
      \<and> unat (opened_ms tool) + unat (sat_sub now (opened_ms tool)) = unat now"
    if "tool \<in> set (take 8 ?all)" for tool
  proof -
    have "tool \<in> snd ` set (open_tools t)"
      using in_set_takeD [OF that] by (simp add: oldest_first_def)
    then have "open_tool_ok t tool" by (rule tracker_invD(3) [OF inv])
    with assms(2) show ?thesis
      by (simp add: open_tool_ok_def TOOL_TITLE_MAX_BYTES_def unat_sat_sub word_le_nat_alt)
  qed
  then show "list_all2 (\<lambda>tool line. snap_title line = tool_title tool \<and> length (snap_title line) \<le> 128
            \<and> unat (opened_ms tool) + unat (age_ms line) = unat now)
          (take 8 ?all) (snap_open_tools (snapshot t now agent))"
    by (simp add: snapshot_def SNAPSHOT_OPEN_TOOLS_MAX_def list.rel_map list.rel_refl_strong)
qed

theorem snapshot_shows_oldest_witness:
  "unat (open_tool_count (snapshot
      (tracker_run (\<lambda>_. [7]) example_resolved [Observe 10 (Tool (example_tool ''a'' Pending))]) 25 ''codex'')) = 1"
proof -
  let ?t = "tracker_run (\<lambda>_. [7]) example_resolved [Observe 10 (Tool (example_tool ''a'' Pending))]"
  have early: "last_activity_ms ?t \<le> 25" and count: "length (open_tools ?t) = 1"
    by code_simp+
  have "unat (open_tool_count (snapshot ?t 25 ''codex'')) = length (open_tools ?t)"
    using snapshot_shows_oldest [OF refl early, of "''codex''"] by (elim exE conjE)
  then show ?thesis using count by (rule trans)
qed

section \<open>The board as a list of registrations\<close>

datatype board_event =
  Register string string TurnLivenessSnapshotV1 | DropRegistration TurnLivenessRegistrationV1

fun board_step :: "TurnLivenessBoard \<Rightarrow> board_event \<Rightarrow> TurnLivenessBoard" where
  "board_step b (Register key tid p) = fst (register b key tid p)"
| "board_step b (DropRegistration r) = drop_registration b r"

text \<open>
  The specification of the board: the live registrations in the order they were made. The serial is
  the number of registrations made before, modulo the width of the counter.
\<close>

fun live_step :: "u64 \<times> (string \<times> BoardEntry) list \<Rightarrow> board_event \<Rightarrow> u64 \<times> (string \<times> BoardEntry) list" where
  "live_step (n, live) (Register key tid p) =
     (n + 1, live @ [(key, \<lparr>serial = n, entry_turn_id = tid, probe = p\<rparr>)])"
| "live_step (n, live) (DropRegistration r) =
     (n, filter (\<lambda>(key, e). key = reg_observer_key r \<longrightarrow> serial e \<noteq> reg_serial r) live)"

definition live_entries :: "(string \<times> BoardEntry) list \<Rightarrow> string \<Rightarrow> BoardEntry list" where
  "live_entries live key = map snd (filter (\<lambda>x. fst x = key) live)"

definition board_rel :: "TurnLivenessBoard \<Rightarrow> u64 \<times> (string \<times> BoardEntry) list \<Rightarrow> bool" where
  "board_rel b nl \<longleftrightarrow>
     next_serial b = fst nl \<and> distinct (map fst (turns b))
     \<and> (\<forall>key. entries_of b key = live_entries (snd nl) key)
     \<and> turn_count b = length (snd nl)"

lemma live_entries_simps [simp]:
  "live_entries (live @ [(key, e)]) key' = live_entries live key' @ (if key = key' then [e] else [])"
  by (simp add: live_entries_def)

lemma live_entries_drop:
  "live_entries (filter (\<lambda>(key, e). key = k \<longrightarrow> serial e \<noteq> s) live) key' =
     (if key' = k then filter (\<lambda>e. serial e \<noteq> s) (live_entries live key') else live_entries live key')"
  by (induction live) (auto simp: live_entries_def)

lemma length_live_drop:
  "length (filter (\<lambda>(key, e). key = k \<longrightarrow> serial e \<noteq> s) live) + length (live_entries live k) =
     length live + length (filter (\<lambda>e. serial e \<noteq> s) (live_entries live k))"
proof (induction live)
  case (Cons x live)
  obtain key e where "x = (key, e)" by (cases x)
  with Cons.IH show ?case
    by (cases "key = k"; cases "serial e = s") (simp_all add: live_entries_def)
qed (simp add: live_entries_def)

lemma entries_of_update:
  "entries_of (b\<lparr>turns := AList.update k es (turns b)\<rparr>) key = (if key = k then es else entries_of b key)"
  by (simp add: entries_of_def update_conv' option_or_def)

lemma entries_of_delete:
  "entries_of (b\<lparr>turns := AList.delete k (turns b)\<rparr>) key = (if key = k then [] else entries_of b key)"
  by (simp add: entries_of_def delete_conv' option_or_def)

lemma turn_count_update:
  "turn_count (b\<lparr>turns := AList.update k es (turns b)\<rparr>) + length (entries_of b k) =
    turn_count b + length es"
  using sum_list_alist_update [of length k es "turns b"]
  by (simp add: turn_count_def entries_of_def option_or_def split_beta split: option.splits)

lemma turn_count_delete:
  assumes "distinct (map fst (turns b))"
  shows "turn_count (b\<lparr>turns := AList.delete k (turns b)\<rparr>) + length (entries_of b k) = turn_count b"
  using sum_list_alist_delete [OF assms, of length k]
  by (simp add: turn_count_def entries_of_def option_or_def split_beta split: option.splits)

lemma board_relI:
  "next_serial b = n \<Longrightarrow> distinct (map fst (turns b)) \<Longrightarrow>
   (\<And>key. entries_of b key = live_entries live key) \<Longrightarrow> turn_count b = length live \<Longrightarrow>
   board_rel b (n, live)"
  by (simp add: board_rel_def)

lemma board_relD:
  assumes "board_rel b (n, live)"
  shows "next_serial b = n" "distinct (map fst (turns b))"
    "entries_of b key = live_entries live key" "turn_count b = length live"
  using assms by (simp_all add: board_rel_def)

lemma board_rel_register:
  assumes "board_rel b (n, live)"
  shows "board_rel (fst (register b key tid p))
    (n + 1, live @ [(key, \<lparr>serial = n, entry_turn_id = tid, probe = p\<rparr>)])"
proof -
  note rel = board_relD [OF assms]
  let ?e = "\<lparr>serial = n, entry_turn_id = tid, probe = p\<rparr>"
  let ?b = "b\<lparr>turns := AList.update key (entries_of b key @ [?e]) (turns b)\<rparr>"
  have b: "fst (register b key tid p) = ?b\<lparr>next_serial := n + 1\<rparr>"
    by (simp add: register_def Let_def rel(1))
  have frame: "entries_of (c\<lparr>next_serial := m\<rparr>) k = entries_of c k"
    "turn_count (c\<lparr>next_serial := m\<rparr>) = turn_count c" for c k m
    by (simp_all add: entries_of_def turn_count_def)
  have count: "turn_count ?b = length live + 1"
    using turn_count_update [of key "entries_of b key @ [?e]" b] rel(4) by simp
  have entries: "entries_of ?b k = live_entries (live @ [(key, ?e)]) k" for k
    unfolding entries_of_update live_entries_simps rel(3) by simp
  show ?thesis
    unfolding b
  proof (rule board_relI)
    show "distinct (map fst (turns (?b\<lparr>next_serial := n + 1\<rparr>)))"
      using rel(2) by (simp add: distinct_update)
    show "entries_of (?b\<lparr>next_serial := n + 1\<rparr>) k = live_entries (live @ [(key, ?e)]) k" for k
      unfolding frame by (rule entries)
    show "turn_count (?b\<lparr>next_serial := n + 1\<rparr>) = length (live @ [(key, ?e)])"
      unfolding frame count by simp
  qed simp
qed

lemma drop_registration_cases:
  fixes b r
  defines "k \<equiv> reg_observer_key r"
  defines "kept \<equiv> filter (\<lambda>e. serial e \<noteq> reg_serial r) (entries_of b k)"
  shows "entries_of b k = [] \<and> drop_registration b r = b
    \<or> kept = [] \<and> drop_registration b r = b\<lparr>turns := AList.delete k (turns b)\<rparr>
    \<or> drop_registration b r = b\<lparr>turns := AList.update k kept (turns b)\<rparr>"
proof (cases "map_of (turns b) k")
  case (Some entries)
  then have "entries_of b k = entries" by (simp add: entries_of_def option_or_def)
  with Some show ?thesis by (simp add: drop_registration_def k_def kept_def Let_def)
qed (simp add: drop_registration_def k_def entries_of_def option_or_def)

lemma board_rel_drop:
  assumes "board_rel b (n, live)"
  shows "board_rel (drop_registration b r)
    (n, filter (\<lambda>(key, e). key = reg_observer_key r \<longrightarrow> serial e \<noteq> reg_serial r) live)"
proof -
  note rel = board_relD [OF assms]
  note drop = live_entries_drop [of "reg_observer_key r" "reg_serial r" live]
  note len = length_live_drop [of "reg_observer_key r" "reg_serial r" live]
  from drop_registration_cases [of b r] show ?thesis
  proof (elim disjE conjE)
    assume none: "entries_of b (reg_observer_key r) = []" and b: "drop_registration b r = b"
    show ?thesis
      unfolding b using rel(1,2,4) none len by (intro board_relI) (simp_all add: drop rel(3))
  next
    assume kept: "filter (\<lambda>e. serial e \<noteq> reg_serial r) (entries_of b (reg_observer_key r)) = []"
      and b: "drop_registration b r = b\<lparr>turns := AList.delete (reg_observer_key r) (turns b)\<rparr>"
    show ?thesis
      unfolding b using rel(1,2,4) kept len turn_count_delete [OF rel(2), of "reg_observer_key r"]
      by (intro board_relI) (simp_all add: drop rel(3) entries_of_delete distinct_delete)
  next
    assume b: "drop_registration b r = b\<lparr>turns := AList.update (reg_observer_key r)
       (filter (\<lambda>e. serial e \<noteq> reg_serial r) (entries_of b (reg_observer_key r))) (turns b)\<rparr>"
    show ?thesis
      unfolding b using rel(1,2,4) len turn_count_update [of "reg_observer_key r"
          "filter (\<lambda>e. serial e \<noteq> reg_serial r) (entries_of b (reg_observer_key r))" b]
      by (intro board_relI) (simp_all add: drop rel(3) entries_of_update distinct_update)
  qed
qed

lemma board_rel_step:
  "board_rel b nl \<Longrightarrow> board_rel (board_step b e) (live_step nl e)"
  by (cases nl; cases e) (simp_all add: board_rel_register board_rel_drop)

lemma board_rel_run: "board_rel b nl \<Longrightarrow> board_rel (foldl board_step b es) (foldl live_step nl es)"
  by (induction es arbitrary: b nl) (simp_all add: board_rel_step del: live_step.simps board_step.simps)

text \<open>
  C28: The board of in-flight turns refines a plain list of registrations. After any sequence of
  registrations and drops, in any order, a client's snapshot is the live turns registered under its
  key, in the order they were registered and each under its own turn id, and the turn count is the
  number of live registrations; the per-key table never keeps a dropped turn or loses a live one.
\<close>

theorem board_refines_registrations:
  "board_snapshot (foldl board_step empty_board es) key =
     map (\<lambda>e. (probe e)\<lparr>turn_id := entry_turn_id e\<rparr>)
       (live_entries (snd (foldl live_step (0, []) es)) key)
   \<and> turn_count (foldl board_step empty_board es) = length (snd (foldl live_step (0, []) es))"
proof -
  have "board_rel empty_board (0, [])"
    by (simp add: board_rel_def empty_board_def entries_of_def option_or_def live_entries_def turn_count_def)
  from board_rel_run [OF this, of es] show ?thesis
    unfolding board_rel_def board_snapshot_def by simp
qed

end
