(* ===== verification/Execution_Policy.thy ===== *)
theory Execution_Policy
  imports Turn_Liveness
begin

text \<open>
  Frozen execution policy (\<open>execution_policy.rs\<close>): the liveness profiles, the resolution of a
  workflow's and an invocation's declarations into frozen controls, the frozen worktree-custody
  contract, and the settlement and coherence of node clean-up records. A qualification reason is the
  list of its Unicode scalar values, since its parser trims and inspects characters. SHA-256 and the
  JSON serialiser (crates \<open>ring\<close> and \<open>serde_json\<close>) are the parameters \<open>sha\<close> and \<open>json\<close>.
\<close>

section \<open>Profiles\<close>

definition EXECUTION_POLICY_SCHEMA_V1 :: u16 where "EXECUTION_POLICY_SCHEMA_V1 = 1"
definition CLEANUP_TAIL_MS :: u64 where "CLEANUP_TAIL_MS = 60000"
definition REPORTING_TAIL_MS :: u64 where "REPORTING_TAIL_MS = 10000"
definition MAX_QUALIFICATION_REASON_BYTES :: nat where "MAX_QUALIFICATION_REASON_BYTES = 512"

datatype LivenessProfileIdV1 = LegacyBoundedV1 | ReviewHighXhighV1

datatype TaskClassV1 = OtherClass | ReviewHighXhigh

fun task_class_of :: "LivenessProfileIdV1 \<Rightarrow> TaskClassV1" where
  "task_class_of LegacyBoundedV1 = OtherClass"
| "task_class_of ReviewHighXhighV1 = ReviewHighXhigh"

fun profile_of :: "TaskClassV1 \<Rightarrow> LivenessProfileIdV1" where
  "profile_of OtherClass = LegacyBoundedV1"
| "profile_of ReviewHighXhigh = ReviewHighXhighV1"

datatype SilenceCutoffV1 = NoSilence | AgentDefault | SilenceActivity u64

record LivenessProfileV1 =
  profile_schema_version :: u16
  profile_id :: LivenessProfileIdV1
  queue_wait_ms :: u64
  control_observable_ms :: u64
  no_progress_snapshot_ms :: u64
  silence_cutoff :: SilenceCutoffV1
  profile_work_cutoff_ms :: u64
  cancel_observable_ms :: u64
  cleanup_tail_ms :: u64
  reporting_tail_ms :: u64
  terminal_bound_ms :: u64

definition liveness_profile_v1 :: "LivenessProfileIdV1 \<Rightarrow> LivenessProfileV1" where
  "liveness_profile_v1 i =
     \<lparr>profile_schema_version = EXECUTION_POLICY_SCHEMA_V1, profile_id = i, queue_wait_ms = 1800000,
      control_observable_ms = 31000, no_progress_snapshot_ms = 1800000, silence_cutoff = NoSilence,
      profile_work_cutoff_ms = DEFAULT_WORK_CUTOFF_MS, cancel_observable_ms = 6000,
      cleanup_tail_ms = CLEANUP_TAIL_MS, reporting_tail_ms = REPORTING_TAIL_MS,
      terminal_bound_ms = 7270000\<rparr>"

section \<open>Qualification reasons\<close>

datatype ExecutionPolicyError =
    ProfileTaskClassMismatch | PartialMaxQualification | MissingMaxQualification
  | UnusedMaxQualification | InvalidMaxCutoff | InvalidMaxReason | FixedGraceInactive
  | InvalidFixedGrace | InvalidSilenceCutoff | ArithmeticOverflow | InvalidWorktreeOwner
  | WorktreeTargetOutsideRoot | InvalidSha256 | MissingProviderEffectKey
  | ProviderSelectionOutOfSet | ProviderAttemptMatrixInvalid | InvalidControlEventId
  | StructuredEvidenceOverBound | InvalidStructuredEvidence

definition BoundedReasonV1_parse :: "scalar_text \<Rightarrow> ExecutionPolicyError + scalar_text" where
  "BoundedReasonV1_parse value =
     (let trimmed = trim value in
      if trimmed = [] \<or> MAX_QUALIFICATION_REASON_BYTES < text_len trimmed
         \<or> list_ex (\<lambda>c. is_control c \<and> c \<noteq> 9) trimmed
      then Inl InvalidMaxReason
      else Inr trimmed)"

section \<open>Resolving the controls\<close>

record MaxQualificationV1 =
  qualified_work_cutoff_ms :: u64
  qualified_reason :: scalar_text

datatype FanOutPolicyV1 = BoundedIndependent | FailFast | FixedGrace u64

datatype SynthesisModeV1 = StrictSynthesis | Degraded

datatype ProfileSelectionSourceV1 =
  InvocationSource | WorkflowProfileSource | WorkflowTaskClassSource | CompatibilityOmission

datatype SchedulerActivationReadinessV1 = Disarmed | Armed

datatype DeadlineActivationV2 = ManualOnlyR2f1a | AutomaticR2f1b

datatype PolicyActivationV1 = Production | ManualTest

definition scheduler_activation_readiness_v1 :: SchedulerActivationReadinessV1 where
  "scheduler_activation_readiness_v1 = Armed"

fun deadline_activation_v2_for ::
  "SchedulerActivationReadinessV1 \<Rightarrow> PolicyActivationV1 \<Rightarrow> DeadlineActivationV2" where
  "deadline_activation_v2_for Armed Production = AutomaticR2f1b"
| "deadline_activation_v2_for _ _ = ManualOnlyR2f1a"

record FrozenWorkflowControlsV1 =
  controls_schema_version :: u16
  task_class :: TaskClassV1
  profile :: LivenessProfileV1
  profile_source :: ProfileSelectionSourceV1
  controls_max_qualification :: "MaxQualificationV1 option"
  fan_out :: FanOutPolicyV1
  synthesis :: SynthesisModeV1
  deadline_activation :: DeadlineActivationV2

definition effective_work_cutoff_ms :: "FrozenWorkflowControlsV1 \<Rightarrow> u64" where
  "effective_work_cutoff_ms c =
     (case controls_max_qualification c of None \<Rightarrow> profile_work_cutoff_ms (profile c)
      | Some q \<Rightarrow> qualified_work_cutoff_ms q)"

definition effective_terminal_bound_ms :: "FrozenWorkflowControlsV1 \<Rightarrow> ExecutionPolicyError + u64" where
  "effective_terminal_bound_ms c =
     (case Option.bind (checked_add (effective_work_cutoff_ms c) (cleanup_tail_ms (profile c)))
             (\<lambda>v. checked_add v (reporting_tail_ms (profile c))) of
        Some v \<Rightarrow> Inr v | None \<Rightarrow> Inl ArithmeticOverflow)"

record WorkflowControlDefaultsV1 =
  wf_task_class :: "TaskClassV1 option"
  wf_liveness_profile :: "LivenessProfileIdV1 option"
  wf_fan_out :: "FanOutPolicyV1 option"
  wf_synthesis :: "SynthesisModeV1 option"
  wf_max_work_cutoff_ms :: "u64 option"
  wf_max_reason :: "scalar_text option"
  wf_silence_cutoff :: "LivenessOverrideV1 option"

record ExecutionPolicyInvocationV1 =
  inv_liveness_profile :: "LivenessProfileIdV1 option"
  inv_max_work_cutoff_ms :: "u64 option"
  inv_max_reason :: "scalar_text option"
  inv_silence_cutoff :: "LivenessOverrideV1 option"

definition checked_silence_override ::
  "LivenessOverrideV1 option \<Rightarrow> ExecutionPolicyError + LivenessOverrideV1 option" where
  "checked_silence_override v =
     (case v of
        Some (Ms ms) \<Rightarrow>
          (if parse_liveness_secs_v1 (ms div 1000) \<noteq> Inr (Ms ms) then Inl InvalidSilenceCutoff
           else Inr (Some (Ms ms)))
      | v \<Rightarrow> Inr v)"

definition resolve_silence_cutoff ::
  "LivenessOverrideV1 option \<Rightarrow> LivenessOverrideV1 option \<Rightarrow> DeadlineActivationV2
     \<Rightarrow> ExecutionPolicyError + SilenceCutoffV1" where
  "resolve_silence_cutoff workflow invocation activation =
     rbind (checked_silence_override workflow) (\<lambda>workflow.
     rbind (checked_silence_override invocation) (\<lambda>invocation.
       Inr (case activation of
          ManualOnlyR2f1a \<Rightarrow> NoSilence
        | AutomaticR2f1b \<Rightarrow>
            (case (case invocation of Some v \<Rightarrow> Some v | None \<Rightarrow> workflow) of
               None \<Rightarrow> AgentDefault
             | Some Off \<Rightarrow> NoSilence
             | Some (Ms ms) \<Rightarrow> SilenceActivity ms))))"

fun max_qualification ::
  "u64 option \<Rightarrow> scalar_text option \<Rightarrow> ExecutionPolicyError + MaxQualificationV1 option" where
  "max_qualification None None = Inr None"
| "max_qualification (Some cutoff) (Some reason) =
     (if cutoff \<le> DEFAULT_WORK_CUTOFF_MS then Inl InvalidMaxCutoff
      else rbind (BoundedReasonV1_parse reason) (\<lambda>r.
        Inr (Some \<lparr>qualified_work_cutoff_ms = cutoff, qualified_reason = r\<rparr>)))"
| "max_qualification _ _ = Inl PartialMaxQualification"

definition select_profile ::
  "WorkflowControlDefaultsV1 \<Rightarrow> ExecutionPolicyInvocationV1
     \<Rightarrow> LivenessProfileIdV1 \<times> TaskClassV1 \<times> ProfileSelectionSourceV1" where
  "select_profile workflow invocation =
     (case inv_liveness_profile invocation of
        Some p \<Rightarrow> (p, task_class_of p, InvocationSource)
      | None \<Rightarrow>
        (case wf_liveness_profile workflow of
           Some p \<Rightarrow> (p, task_class_of p, WorkflowProfileSource)
         | None \<Rightarrow>
           (case wf_task_class workflow of
              Some t \<Rightarrow> (profile_of t, t, WorkflowTaskClassSource)
            | None \<Rightarrow> (LegacyBoundedV1, OtherClass, CompatibilityOmission))))"

definition check_fixed_grace :: "FrozenWorkflowControlsV1 \<Rightarrow> ExecutionPolicyError + unit" where
  "check_fixed_grace c =
     (case fan_out c of
        FixedGrace grace_ms \<Rightarrow>
          (if deadline_activation c = ManualOnlyR2f1a then Inl FixedGraceInactive
           else if grace_ms = 0 \<or> effective_work_cutoff_ms c < grace_ms then Inl InvalidFixedGrace
           else Inr ())
      | _ \<Rightarrow> Inr ())"

definition profile_task_class_mismatch :: "WorkflowControlDefaultsV1 \<Rightarrow> bool" where
  "profile_task_class_mismatch workflow =
     (case (wf_task_class workflow, wf_liveness_profile workflow) of
        (Some t, Some p) \<Rightarrow> profile_of t \<noteq> p | _ \<Rightarrow> False)"

definition resolve_execution_policy_with_readiness_v1 ::
  "WorkflowControlDefaultsV1 \<Rightarrow> ExecutionPolicyInvocationV1 \<Rightarrow> bool \<Rightarrow> SchedulerActivationReadinessV1
     \<Rightarrow> PolicyActivationV1 \<Rightarrow> ExecutionPolicyError + FrozenWorkflowControlsV1" where
  "resolve_execution_policy_with_readiness_v1 workflow invocation any_max_effort readiness activation =
     (if profile_task_class_mismatch workflow then Inl ProfileTaskClassMismatch
      else
        rbind (max_qualification (wf_max_work_cutoff_ms workflow) (wf_max_reason workflow)) (\<lambda>workflow_max.
        rbind (max_qualification (inv_max_work_cutoff_ms invocation) (inv_max_reason invocation)) (\<lambda>invocation_max.
          let qualification = (case invocation_max of Some q \<Rightarrow> Some q | None \<Rightarrow> workflow_max) in
          if any_max_effort \<and> qualification = None then Inl MissingMaxQualification
          else if \<not> any_max_effort \<and> qualification \<noteq> None then Inl UnusedMaxQualification
          else
            let (i, t, src) = select_profile workflow invocation;
                act = deadline_activation_v2_for readiness activation
            in rbind (resolve_silence_cutoff (wf_silence_cutoff workflow) (inv_silence_cutoff invocation) act) (\<lambda>cutoff.
                 let controls =
                   \<lparr>controls_schema_version = EXECUTION_POLICY_SCHEMA_V1, task_class = t,
                    profile = (liveness_profile_v1 i)\<lparr>silence_cutoff := cutoff\<rparr>, profile_source = src,
                    controls_max_qualification = qualification,
                    fan_out = option_or (wf_fan_out workflow) BoundedIndependent,
                    synthesis = option_or (wf_synthesis workflow) Degraded,
                    deadline_activation = act\<rparr>
                 in rbind (check_fixed_grace controls) (\<lambda>_.
                    rbind (effective_terminal_bound_ms controls) (\<lambda>_. Inr controls))))))"

definition resolve_execution_policy_v1 ::
  "WorkflowControlDefaultsV1 \<Rightarrow> ExecutionPolicyInvocationV1 \<Rightarrow> bool \<Rightarrow> PolicyActivationV1
     \<Rightarrow> ExecutionPolicyError + FrozenWorkflowControlsV1" where
  "resolve_execution_policy_v1 workflow invocation any_max_effort activation =
     resolve_execution_policy_with_readiness_v1 workflow invocation any_max_effort
       scheduler_activation_readiness_v1 activation"

section \<open>The frozen custody contract\<close>

text \<open>\<open>Sha256HexV1\<close>\<close>

definition Sha256HexV1_parse :: "string \<Rightarrow> ExecutionPolicyError + string" where
  "Sha256HexV1_parse value =
     (if length value \<noteq> 64 \<or> \<not> list_all is_lower_hex value then Inl InvalidSha256 else Inr value)"

definition Sha256HexV1_digest :: "(u8 list \<Rightarrow> u8 list) \<Rightarrow> u8 list \<Rightarrow> string" where
  "Sha256HexV1_digest sha bytes = hex_bytes (sha bytes)"

record FrozenWorktreeCustodyPlanV1 =
  custody_id :: string
  checkout_fingerprint :: string
  target_cwd :: string

record FrozenR2f1bContractV1 =
  contract_schema_version :: u16
  activation :: DeadlineActivationV2
  custody_plans :: "FrozenWorktreeCustodyPlanV1 list"
  resource_contract_version :: u16
  contract_fingerprint :: string

definition R2F1B_CONTRACT_SCHEMA_V1 :: u16 where "R2F1B_CONTRACT_SCHEMA_V1 = 1"
definition R2F1B_RESOURCE_CONTRACT_VERSION_V1 :: u16 where "R2F1B_RESOURCE_CONTRACT_VERSION_V1 = 1"

definition str_bytes :: "string \<Rightarrow> u8 list" where
  "str_bytes s = map (\<lambda>c. of_nat (of_char c)) s"

definition R2F1B_CONTRACT_FINGERPRINT_PLACEHOLDER :: "u8 list" where
  "R2F1B_CONTRACT_FINGERPRINT_PLACEHOLDER = str_bytes ''r2f1b-contract-fingerprint-placeholder''"

definition sort_plans :: "FrozenWorktreeCustodyPlanV1 list \<Rightarrow> FrozenWorktreeCustodyPlanV1 list" where
  "sort_plans = sort_key (\<lambda>p. (checkout_fingerprint p, custody_id p))"

fun adjacent_clash :: "FrozenWorktreeCustodyPlanV1 list \<Rightarrow> bool" where
  "adjacent_clash (p # q # ps) \<longleftrightarrow>
     checkout_fingerprint p = checkout_fingerprint q \<or> custody_id p = custody_id q \<or> adjacent_clash (q # ps)"
| "adjacent_clash _ \<longleftrightarrow> False"

definition expected_fingerprint ::
  "(u8 list \<Rightarrow> u8 list) \<Rightarrow> (FrozenR2f1bContractV1 \<Rightarrow> u8 list) \<Rightarrow> FrozenR2f1bContractV1 \<Rightarrow> string" where
  "expected_fingerprint sha json c =
     Sha256HexV1_digest sha (json (c\<lparr>contract_fingerprint :=
       Sha256HexV1_digest sha R2F1B_CONTRACT_FINGERPRINT_PLACEHOLDER\<rparr>))"

definition contract_validate ::
  "(u8 list \<Rightarrow> u8 list) \<Rightarrow> (FrozenR2f1bContractV1 \<Rightarrow> u8 list) \<Rightarrow> FrozenR2f1bContractV1
     \<Rightarrow> ExecutionPolicyError + unit" where
  "contract_validate sha json c =
     (if contract_schema_version c \<noteq> R2F1B_CONTRACT_SCHEMA_V1
         \<or> resource_contract_version c \<noteq> R2F1B_RESOURCE_CONTRACT_VERSION_V1 then Inl InvalidStructuredEvidence
      else let plans = sort_plans (custody_plans c) in
        if plans \<noteq> custody_plans c \<or> adjacent_clash plans then Inl InvalidStructuredEvidence
        else if contract_fingerprint c \<noteq> expected_fingerprint sha json c then Inl InvalidStructuredEvidence
        else Inr ())"

definition with_computed_fingerprint ::
  "(u8 list \<Rightarrow> u8 list) \<Rightarrow> (FrozenR2f1bContractV1 \<Rightarrow> u8 list) \<Rightarrow> DeadlineActivationV2
     \<Rightarrow> FrozenWorktreeCustodyPlanV1 list \<Rightarrow> ExecutionPolicyError + FrozenR2f1bContractV1" where
  "with_computed_fingerprint sha json act plans =
     (let c = \<lparr>contract_schema_version = R2F1B_CONTRACT_SCHEMA_V1, activation = act,
               custody_plans = sort_plans plans,
               resource_contract_version = R2F1B_RESOURCE_CONTRACT_VERSION_V1,
               contract_fingerprint = Sha256HexV1_digest sha R2F1B_CONTRACT_FINGERPRINT_PLACEHOLDER\<rparr>;
          c = c\<lparr>contract_fingerprint := Sha256HexV1_digest sha (json c)\<rparr>
      in rbind (contract_validate sha json c) (\<lambda>_. Inr c))"

datatype FrozenCheckoutEffectV1 =
  Direct string string
| Worktree (source_cwd: string) (canonical_source_cwd: string) (canonical_worktree_root: string)
    (worktree_owner: string) (worktree_target_cwd: string) (checkout_digest: string)

datatype CustodyPlanBindingRefusalV1 =
  NotAWorktreeCheckout | CheckoutDigestMismatch | TargetMismatch | NoPlanForCheckout | AttemptMismatch

fun select_custody_plan_v1 ::
  "FrozenR2f1bContractV1 \<Rightarrow> FrozenCheckoutEffectV1
     \<Rightarrow> CustodyPlanBindingRefusalV1 + FrozenWorktreeCustodyPlanV1 option" where
  "select_custody_plan_v1 contract (Direct _ _) = Inr None"
| "select_custody_plan_v1 contract (Worktree _ _ _ _ target digest) =
     (case find (\<lambda>p. checkout_fingerprint p = digest) (custody_plans contract) of
        None \<Rightarrow> Inl NoPlanForCheckout
      | Some p \<Rightarrow> if target_cwd p \<noteq> target then Inl TargetMismatch else Inr (Some p))"

section \<open>Node clean-up\<close>

record DependencySetRefV1 =
  dependency_count :: u32
  sorted_node_refs_sha256 :: string

record NodeCauseV1 =
  cause_failure_class :: DiagnosticFailureClass
  cause_code :: scalar_text
  deepest_cause :: "scalar_text option"
  cause_truncated :: bool
  evidence_overflow :: bool
  dependency_set :: "DependencySetRefV1 option"

record RecoveryOwnerV1 =
  owner_attempt_id :: string
  owner_resource_flight_id :: string
  owner_reason :: string

datatype NodeCleanupV2 =
  CleanupPending string
| CleanupComplete u64
| CleanupPartial u64 RecoveryOwnerV1
| CleanupFailed u64 NodeCauseV1
| CleanupNotNeeded
| CleanupUnknown u64 "RecoveryOwnerV1 option"

fun is_pending :: "NodeCleanupV2 \<Rightarrow> bool" where
  "is_pending (CleanupPending _) = True"
| "is_pending _ = False"

text \<open>The proof value of an unidentifiable owner is the flight it was minted for.\<close>

datatype NodeCleanupObservationV1 =
  ObservedComplete u64 RecoveryOwnerV1
| ObservedFailed u64 NodeCauseV1 RecoveryOwnerV1
| ObservedNotNeeded
| Unsettled u64 RecoveryOwnerV1
| UnsettledUnknownOwned u64 RecoveryOwnerV1
| UnsettledUnknownOwnerless u64 string

fun recovery_owner :: "NodeCleanupObservationV1 \<Rightarrow> RecoveryOwnerV1 option" where
  "recovery_owner (ObservedComplete _ ow) = Some ow"
| "recovery_owner (ObservedFailed _ _ ow) = Some ow"
| "recovery_owner (Unsettled _ ow) = Some ow"
| "recovery_owner (UnsettledUnknownOwned _ ow) = Some ow"
| "recovery_owner _ = None"

definition cleanup_deadline_after_cancellation_ms_v1 :: "u64 \<Rightarrow> u64 \<Rightarrow> u64" where
  "cleanup_deadline_after_cancellation_ms_v1 anchor cutoff =
     sat_sub (min (sat_add anchor CLEANUP_TAIL_MS) (sat_add cutoff CLEANUP_TAIL_MS)) anchor"

definition late_observation :: "NodeCleanupObservationV1 \<Rightarrow> u64 \<Rightarrow> u64 \<Rightarrow> NodeCleanupObservationV1" where
  "late_observation observation elapsed deadline =
     (case observation of
        ObservedComplete d ow \<Rightarrow> if deadline < d \<or> elapsed < d then Unsettled d ow else observation
      | ObservedFailed d _ ow \<Rightarrow> if deadline < d \<or> elapsed < d then Unsettled d ow else observation
      | _ \<Rightarrow> observation)"

definition settle_node_cleanup_v2 :: "NodeCleanupObservationV1 \<Rightarrow> u64 \<Rightarrow> u64 \<Rightarrow> NodeCleanupV2" where
  "settle_node_cleanup_v2 observation elapsed deadline =
     (let deadline_reached = (deadline \<le> elapsed) in
      case late_observation observation elapsed deadline of
        ObservedComplete d _ \<Rightarrow> CleanupComplete d
      | ObservedFailed d cause _ \<Rightarrow> CleanupFailed d cause
      | ObservedNotNeeded \<Rightarrow> CleanupNotNeeded
      | Unsettled d ow \<Rightarrow>
          if deadline_reached then CleanupPartial d ow else CleanupPending (owner_resource_flight_id ow)
      | UnsettledUnknownOwned d ow \<Rightarrow>
          if deadline_reached then CleanupUnknown d (Some ow) else CleanupPending (owner_resource_flight_id ow)
      | UnsettledUnknownOwnerless d flight \<Rightarrow>
          if deadline_reached then CleanupUnknown d None else CleanupPending flight)"

datatype WorktreePreservationDispositionV1 =
  PreservationPending | Preserved | Removed | PreservationNotNeeded | PreservationUnknown

record WorktreePreservationResultV1 =
  preservation_disposition :: WorktreePreservationDispositionV1
  preservation_custody_id :: "string option"
  claim_digest :: "string option"

definition preservation_pending :: WorktreePreservationResultV1 where
  "preservation_pending = \<lparr>preservation_disposition = PreservationPending, preservation_custody_id = None,
     claim_digest = None\<rparr>"

datatype CollateralDispositionV1 =
  CollateralNone | CollateralComplete | CollateralPartial | CollateralUnknown

record CollateralResultV1 =
  collateral_disposition :: CollateralDispositionV1
  affected_owner_count :: u32

record NodeCleanupRecordV2 =
  cleanup_schema_version :: u16
  cleanup :: NodeCleanupV2
  preservation :: WorktreePreservationResultV1
  collateral :: "CollateralResultV1 option"

definition NODE_CLEANUP_RECORD_SCHEMA_V2 :: u16 where "NODE_CLEANUP_RECORD_SCHEMA_V2 = 2"

definition cleanup_record_pending :: "string \<Rightarrow> NodeCleanupRecordV2" where
  "cleanup_record_pending flight =
     \<lparr>cleanup_schema_version = NODE_CLEANUP_RECORD_SCHEMA_V2, cleanup = CleanupPending flight,
      preservation = preservation_pending, collateral = None\<rparr>"

text \<open>The arms of the match, in the order of the source.\<close>

definition validate_coherence :: "NodeCleanupRecordV2 \<Rightarrow> ExecutionPolicyError + unit" where
  "validate_coherence r =
     (let final_cleanup = (\<not> is_pending (cleanup r));
          p = preservation_disposition (preservation r) in
      if is_pending (cleanup r) \<and> p = PreservationPending \<and> collateral r = None then Inr ()
      else if cleanup r = CleanupNotNeeded \<and> collateral r = None
              \<and> \<not> (p = Preserved \<or> p = PreservationPending) then Inr ()
      else if p = PreservationPending \<and> final_cleanup then Inl InvalidStructuredEvidence
      else if (case collateral r of None \<Rightarrow> False
               | Some c \<Rightarrow> collateral_disposition c = CollateralNone \<and> affected_owner_count c \<noteq> 0)
        then Inl InvalidStructuredEvidence
      else if (case collateral r of None \<Rightarrow> False
               | Some c \<Rightarrow> collateral_disposition c \<noteq> CollateralNone \<and> affected_owner_count c = 0)
        then Inl InvalidStructuredEvidence
      else if is_pending (cleanup r) \<or> cleanup r = CleanupNotNeeded then Inl InvalidStructuredEvidence
      else Inr ())"

definition validate_for_attempt :: "NodeCleanupRecordV2 \<Rightarrow> string \<Rightarrow> string \<Rightarrow> ExecutionPolicyError + unit" where
  "validate_for_attempt r attempt flight =
     rbind (validate_coherence r) (\<lambda>_.
       case cleanup r of
         CleanupPending persisted \<Rightarrow>
           if persisted \<noteq> flight then Inl InvalidStructuredEvidence else Inr ()
       | CleanupPartial _ ow \<Rightarrow>
           if owner_attempt_id ow \<noteq> attempt \<or> owner_resource_flight_id ow \<noteq> flight
           then Inl InvalidStructuredEvidence else Inr ()
       | CleanupUnknown _ (Some ow) \<Rightarrow>
           if owner_attempt_id ow \<noteq> attempt \<or> owner_resource_flight_id ow \<noteq> flight
           then Inl InvalidStructuredEvidence else Inr ()
       | _ \<Rightarrow> Inr ())"

datatype FanOutPolicyNameV1 = NameBoundedIndependent | NameFailFast | NameFixedGrace

fun policy_name :: "FanOutPolicyV1 \<Rightarrow> FanOutPolicyNameV1" where
  "policy_name BoundedIndependent = NameBoundedIndependent"
| "policy_name FailFast = NameFailFast"
| "policy_name (FixedGrace _) = NameFixedGrace"

record PolicyNodeRefV1 =
  sorted_ordinal :: u32
  id_sha256 :: string

definition PolicyNodeRefV1_from_node_id :: "(u8 list \<Rightarrow> u8 list) \<Rightarrow> u32 \<Rightarrow> string \<Rightarrow> PolicyNodeRefV1" where
  "PolicyNodeRefV1_from_node_id sha n i =
     \<lparr>sorted_ordinal = n, id_sha256 = Sha256HexV1_digest sha (str_bytes i)\<rparr>"

record PolicyTriggerV1 =
  trigger_schema_version :: u16
  trigger_id :: string
  trigger_node :: PolicyNodeRefV1
  trigger_policy :: FanOutPolicyNameV1
  trigger_grace_ms :: "u64 option"

definition trigger_validate :: "PolicyTriggerV1 \<Rightarrow> ExecutionPolicyError + unit" where
  "trigger_validate t =
     (let grace_valid = (case trigger_policy t of
            NameFixedGrace \<Rightarrow> (case trigger_grace_ms t of Some v \<Rightarrow> 0 < v | None \<Rightarrow> False)
          | _ \<Rightarrow> trigger_grace_ms t = None)
      in if trigger_schema_version t \<noteq> EXECUTION_POLICY_SCHEMA_V1 \<or> \<not> grace_valid
         then Inl InvalidStructuredEvidence else Inr ())"

definition control_event_id_for_attempt :: "string \<Rightarrow> u32 \<Rightarrow> string" where
  "control_event_id_for_attempt attempt n = attempt @ '':policy:'' @ show_nat (unat n)"

section \<open>What resolved controls guarantee\<close>

lemma task_class_profile [simp]: "task_class_of (profile_of t) = t"
  by (cases t) simp_all

lemma select_profile_class:
  "select_profile w i = (p, t, src) \<Longrightarrow> t = task_class_of p"
  by (auto simp: select_profile_def split: option.splits)

lemma max_qualification_cutoff:
  "max_qualification cutoff reason = Inr (Some q) \<Longrightarrow> DEFAULT_WORK_CUTOFF_MS < qualified_work_cutoff_ms q"
  by (cases "(cutoff, reason)" rule: max_qualification.cases)
    (auto simp: rbind_Inr_iff split: if_splits)

lemma checked_silence_override_Ms:
  assumes "checked_silence_override v = Inr (Some (Ms ms))"
  shows "\<exists>secs. 1 \<le> secs \<and> secs \<le> 2592000 \<and> unat ms = secs * 1000"
proof -
  define secs where "secs = ms div 1000"
  have parse: "parse_liveness_secs_v1 secs = Inr (Ms ms)"
    using assms by (auto simp: checked_silence_override_def secs_def split: option.splits LivenessOverrideV1.splits if_splits)
  then have range: "secs \<noteq> 0" "secs \<le> MAX_LIVENESS_SECS"
    by (auto simp: parse_liveness_secs_v1_def split: if_splits)
  with parse have "ms = secs * 1000"
    using checked_mul_secs(1) [OF range(2)] by (simp add: parse_liveness_secs_v1_def not_less split: if_splits)
  with range checked_mul_secs(2) [OF range(2)] show ?thesis
    by (intro exI [of _ "unat secs"])
      (auto simp: word_le_nat_alt unat_MAX_LIVENESS_SECS unat_gt_0 Suc_le_eq)
qed

lemma resolve_silence_cutoff_sound:
  assumes "resolve_silence_cutoff w i act = Inr cutoff"
  shows "case cutoff of NoSilence \<Rightarrow> True | AgentDefault \<Rightarrow> act = AutomaticR2f1b
    | SilenceActivity ms \<Rightarrow> act = AutomaticR2f1b \<and> (\<exists>secs. 1 \<le> secs \<and> secs \<le> 2592000 \<and> unat ms = secs * 1000)"
proof -
  obtain w' i' where "checked_silence_override w = Inr w'" "checked_silence_override i = Inr i'"
    and c: "cutoff = (case act of ManualOnlyR2f1a \<Rightarrow> NoSilence
        | AutomaticR2f1b \<Rightarrow> (case (case i' of Some v \<Rightarrow> Some v | None \<Rightarrow> w') of
               None \<Rightarrow> AgentDefault | Some Off \<Rightarrow> NoSilence | Some (Ms ms) \<Rightarrow> SilenceActivity ms))"
    using assms by (auto simp: resolve_silence_cutoff_def rbind_Inr_iff)
  then show ?thesis
    using checked_silence_override_Ms
    by (cases act; cases i'; cases w') (auto split: LivenessOverrideV1.splits)
qed

definition controls_sound :: "bool \<Rightarrow> FrozenWorkflowControlsV1 \<Rightarrow> bool" where
  "controls_sound any_max_effort c \<longleftrightarrow>
     task_class c = task_class_of (profile_id (profile c))
     \<and> (controls_max_qualification c \<noteq> None \<longleftrightarrow> any_max_effort)
     \<and> (if any_max_effort then 7200000 < unat (effective_work_cutoff_ms c)
        else unat (effective_work_cutoff_ms c) = 7200000
          \<and> effective_terminal_bound_ms c = Inr (terminal_bound_ms (profile c)))
     \<and> (\<exists>b. effective_terminal_bound_ms c = Inr b \<and> unat b = unat (effective_work_cutoff_ms c) + 70000)
     \<and> (case fan_out c of
          FixedGrace g \<Rightarrow> 0 < g \<and> g \<le> effective_work_cutoff_ms c \<and> deadline_activation c = AutomaticR2f1b
        | _ \<Rightarrow> True)
     \<and> (case silence_cutoff (profile c) of
          NoSilence \<Rightarrow> True
        | AgentDefault \<Rightarrow> deadline_activation c = AutomaticR2f1b
        | SilenceActivity ms \<Rightarrow> deadline_activation c = AutomaticR2f1b
            \<and> (\<exists>secs. 1 \<le> secs \<and> secs \<le> 2592000 \<and> unat ms = secs * 1000))"

lemma terminal_bound_exact:
  assumes "effective_terminal_bound_ms c = Inr b"
    and "cleanup_tail_ms (profile c) = CLEANUP_TAIL_MS" "reporting_tail_ms (profile c) = REPORTING_TAIL_MS"
  shows "unat b = unat (effective_work_cutoff_ms c) + 70000"
  using assms
  by (auto simp: effective_terminal_bound_ms_def CLEANUP_TAIL_MS_def REPORTING_TAIL_MS_def
      dest!: checked_add_SomeD split: option.splits bind_splits)

definition resolved_controls ::
  "WorkflowControlDefaultsV1 \<Rightarrow> ExecutionPolicyInvocationV1 \<Rightarrow> MaxQualificationV1 option \<Rightarrow> DeadlineActivationV2
     \<Rightarrow> SilenceCutoffV1 \<Rightarrow> FrozenWorkflowControlsV1" where
  "resolved_controls w i q act cutoff =
     \<lparr>controls_schema_version = EXECUTION_POLICY_SCHEMA_V1, task_class = fst (snd (select_profile w i)),
      profile = (liveness_profile_v1 (fst (select_profile w i)))\<lparr>silence_cutoff := cutoff\<rparr>,
      profile_source = snd (snd (select_profile w i)), controls_max_qualification = q,
      fan_out = option_or (wf_fan_out w) BoundedIndependent,
      synthesis = option_or (wf_synthesis w) Degraded, deadline_activation = act\<rparr>"

lemma resolve_InrE:
  assumes "resolve_execution_policy_with_readiness_v1 w i any_max readiness act = Inr c"
  obtains q cutoff where
    "c = resolved_controls w i q (deadline_activation_v2_for readiness act) cutoff"
    "q \<noteq> None \<longleftrightarrow> any_max"
    "\<forall>x. q = Some x \<longrightarrow> DEFAULT_WORK_CUTOFF_MS < qualified_work_cutoff_ms x"
    "resolve_silence_cutoff (wf_silence_cutoff w) (inv_silence_cutoff i)
       (deadline_activation_v2_for readiness act) = Inr cutoff"
    "check_fixed_grace c = Inr ()" "is_ok (effective_terminal_bound_ms c)"
proof -
  obtain p t src where sel: "select_profile w i = (p, t, src)" by (cases "select_profile w i")
  obtain wq iq cutoff b where
    max: "max_qualification (wf_max_work_cutoff_ms w) (wf_max_reason w) = Inr wq"
      "max_qualification (inv_max_work_cutoff_ms i) (inv_max_reason i) = Inr iq"
    and rest: "(case iq of Some q \<Rightarrow> Some q | None \<Rightarrow> wq) \<noteq> None \<longleftrightarrow> any_max"
      "resolve_silence_cutoff (wf_silence_cutoff w) (inv_silence_cutoff i)
         (deadline_activation_v2_for readiness act) = Inr cutoff"
      "c = resolved_controls w i (case iq of Some q \<Rightarrow> Some q | None \<Rightarrow> wq)
         (deadline_activation_v2_for readiness act) cutoff"
      "check_fixed_grace c = Inr ()" "effective_terminal_bound_ms c = Inr b"
    using assms
    by (auto simp: resolve_execution_policy_with_readiness_v1_def rbind_Inr_iff Let_def sel
        resolved_controls_def split: if_splits)
  show thesis
  proof (rule that [OF rest(3,1)])
    show "\<forall>x. (case iq of Some q \<Rightarrow> Some q | None \<Rightarrow> wq) = Some x \<longrightarrow>
        DEFAULT_WORK_CUTOFF_MS < qualified_work_cutoff_ms x"
      using max max_qualification_cutoff by (auto split: option.splits)
  qed (use rest in simp_all)
qed

lemma fixed_grace_sound:
  assumes "check_fixed_grace c = Inr ()"
  shows "case fan_out c of
      FixedGrace g \<Rightarrow> 0 < g \<and> g \<le> effective_work_cutoff_ms c \<and> deadline_activation c = AutomaticR2f1b | _ \<Rightarrow> True"
  using assms by (cases "deadline_activation c"; cases "fan_out c")
    (auto simp: check_fixed_grace_def word_neq_0_conv not_less split: if_splits)

text \<open>
  C27: Admission freezes only controls it can keep. Whenever a workflow's and an invocation's declarations
  resolve, the task class is the one of the selected profile; a longer work cutoff is granted exactly when
  max effort is used, and only above the default two hours; the terminal bound is the work cutoff plus
  exactly 70 seconds with no overflow, and the profile's published bound when nothing is qualified; a
  fixed grace is positive, fits in the work cutoff and is never frozen under manual activation; and a
  silence cutoff is whole seconds between one second and 30 days, under automatic activation only.
\<close>

theorem resolved_controls_sound:
  assumes "resolve_execution_policy_with_readiness_v1 w i any_max readiness act = Inr c"
  shows "controls_sound any_max c"
proof -
  let ?act = "deadline_activation_v2_for readiness act"
  obtain q cutoff where c: "c = resolved_controls w i q ?act cutoff"
    and q: "q \<noteq> None \<longleftrightarrow> any_max" "\<forall>x. q = Some x \<longrightarrow> DEFAULT_WORK_CUTOFF_MS < qualified_work_cutoff_ms x"
    and cutoff: "resolve_silence_cutoff (wf_silence_cutoff w) (inv_silence_cutoff i) ?act = Inr cutoff"
    and grace: "check_fixed_grace c = Inr ()" and bound: "is_ok (effective_terminal_bound_ms c)"
    by (rule resolve_InrE [OF assms])
  have fields: "profile c = (liveness_profile_v1 (fst (select_profile w i)))\<lparr>silence_cutoff := cutoff\<rparr>"
    "task_class c = fst (snd (select_profile w i))" "controls_max_qualification c = q"
    "deadline_activation c = ?act" "cleanup_tail_ms (profile c) = CLEANUP_TAIL_MS"
    "reporting_tail_ms (profile c) = REPORTING_TAIL_MS" "profile_work_cutoff_ms (profile c) = DEFAULT_WORK_CUTOFF_MS"
    "terminal_bound_ms (profile c) = 7270000"
    by (simp_all add: c resolved_controls_def liveness_profile_v1_def)
  have class_eq: "task_class c = task_class_of (profile_id (profile c))"
    using select_profile_class [of w i] by (simp add: fields liveness_profile_v1_def prod_eq_iff)
  obtain b where b1: "effective_terminal_bound_ms c = Inr b"
    using bound by (auto simp: is_ok_def split: sum.splits)
  note b = b1 terminal_bound_exact [OF b1 fields(5,6)]
  have work: "if any_max then 7200000 < unat (effective_work_cutoff_ms c)
      else unat (effective_work_cutoff_ms c) = 7200000"
    using q by (cases q) (auto simp: effective_work_cutoff_ms_def fields(3,7) DEFAULT_WORK_CUTOFF_MS_def word_less_nat_alt)
  have published: "b = terminal_bound_ms (profile c)" if "\<not> any_max"
    using that work b(2) unfolding fields(8) by (intro word_unat_eq_iff [THEN iffD2]) simp
  have "silence_cutoff (profile c) = cutoff" by (simp add: fields(1))
  then have silence_ok: "case silence_cutoff (profile c) of NoSilence \<Rightarrow> True
    | AgentDefault \<Rightarrow> deadline_activation c = AutomaticR2f1b
    | SilenceActivity ms \<Rightarrow> deadline_activation c = AutomaticR2f1b
        \<and> (\<exists>secs. 1 \<le> secs \<and> secs \<le> 2592000 \<and> unat ms = secs * 1000)"
    using resolve_silence_cutoff_sound [OF cutoff] unfolding fields(4) by simp
  have "controls_max_qualification c \<noteq> None \<longleftrightarrow> any_max" unfolding fields(3) by (rule q(1))
  moreover have "if any_max then 7200000 < unat (effective_work_cutoff_ms c)
      else unat (effective_work_cutoff_ms c) = 7200000
        \<and> effective_terminal_bound_ms c = Inr (terminal_bound_ms (profile c))"
    using work published b(1) by (cases any_max) simp_all
  ultimately show ?thesis
    unfolding controls_sound_def using class_eq b fixed_grace_sound [OF grace] silence_ok by blast
qed

definition example_workflow :: WorkflowControlDefaultsV1 where
  "example_workflow = \<lparr>wf_task_class = Some ReviewHighXhigh, wf_liveness_profile = None,
     wf_fan_out = Some (FixedGrace 60000), wf_synthesis = None, wf_max_work_cutoff_ms = Some 10800000,
     wf_max_reason = Some [108, 111, 110, 103], wf_silence_cutoff = Some Off\<rparr>"

definition example_invocation :: ExecutionPolicyInvocationV1 where
  "example_invocation = \<lparr>inv_liveness_profile = None, inv_max_work_cutoff_ms = None, inv_max_reason = None,
     inv_silence_cutoff = None\<rparr>"

lemma example_resolves:
  "is_ok (resolve_execution_policy_with_readiness_v1 example_workflow example_invocation True Armed Production)"
  by (simp add: resolve_execution_policy_with_readiness_v1_def example_workflow_def example_invocation_def
        profile_task_class_mismatch_def select_profile_def resolve_silence_cutoff_def
        checked_silence_override_def BoundedReasonV1_parse_def trim_def trim_end_def text_len_def len_utf8_def
        is_whitespace_def is_control_def check_fixed_grace_def effective_work_cutoff_ms_def
        effective_terminal_bound_ms_def liveness_profile_v1_def checked_add_def option_or_def Let_def
        DEFAULT_WORK_CUTOFF_MS_def CLEANUP_TAIL_MS_def REPORTING_TAIL_MS_def MAX_QUALIFICATION_REASON_BYTES_def)

theorem resolved_controls_sound_witness:
  "\<exists>c. resolve_execution_policy_with_readiness_v1 example_workflow example_invocation True Armed Production = Inr c
    \<and> controls_sound True c"
proof -
  obtain c where c:
    "resolve_execution_policy_with_readiness_v1 example_workflow example_invocation True Armed Production = Inr c"
    using example_resolves unfolding is_ok_def by (metis sum.case_eq_if sum.collapse(2))
  show ?thesis
    by (intro exI conjI, rule c, rule resolved_controls_sound [OF c])
qed

section \<open>What a validated custody contract guarantees\<close>

lemma sort_plans_idem [simp]: "sort_plans (sort_plans ps) = sort_plans ps"
  by (simp add: sort_plans_def sort_key_id_if_sorted)

lemma sorted_fingerprints: "sorted (map checkout_fingerprint (sort_plans ps))"
proof -
  have "sorted (map (\<lambda>p. (checkout_fingerprint p, custody_id p)) (sort_plans ps))"
    by (simp add: sort_plans_def)
  then have "sorted_wrt (\<lambda>p q. checkout_fingerprint p \<le> checkout_fingerprint q) (sort_plans ps)"
    unfolding sorted_map by (rule sorted_wrt_mono_rel [rotated]) (auto simp: less_eq_prod_def)
  then show ?thesis by (simp add: sorted_map)
qed

lemma no_adjacent_clash:
  "sorted (map checkout_fingerprint ps) \<Longrightarrow> \<not> adjacent_clash ps \<Longrightarrow>
   sorted_wrt (<) (map checkout_fingerprint ps)"
proof (induction ps rule: adjacent_clash.induct)
  case (1 p q ps)
  then have "sorted_wrt (<) (map checkout_fingerprint (q # ps))" by simp
  moreover have "checkout_fingerprint p < checkout_fingerprint q" using 1 by (auto simp: less_le)
  ultimately show ?case by fastforce
qed simp_all

lemma contract_validate_plans:
  assumes "contract_validate sha json c = Inr ()"
  shows "sorted_wrt (<) (map checkout_fingerprint (custody_plans c))"
  using assms sorted_fingerprints [of "custody_plans c"] no_adjacent_clash
  by (auto simp: contract_validate_def Let_def split: if_splits)

text \<open>
  A validated custody contract binds every worktree checkout to at most one plan. The plan selected for
  a worktree checkout is exactly the contract's plan with the checkout's digest, and it is granted exactly
  when that plan's target is the checkout's target; no two plans of the contract share a digest, so the
  choice does not depend on their order. A direct checkout never gets a plan.
\<close>

theorem selected_custody_plan_exact:
  assumes "contract_validate sha json c = Inr ()"
  shows "distinct (map checkout_fingerprint (custody_plans c))
    \<and> (select_custody_plan_v1 c (Worktree src csrc root own target digest) = Inr (Some p) \<longleftrightarrow>
        p \<in> set (custody_plans c) \<and> checkout_fingerprint p = digest \<and> target_cwd p = target)
    \<and> select_custody_plan_v1 c (Direct src eff) = Inr None"
proof -
  have dist: "distinct (map checkout_fingerprint (custody_plans c))"
    using contract_validate_plans [OF assms] by (simp add: strict_sorted_iff)
  have "select_custody_plan_v1 c (Worktree src csrc root own target digest) = Inr (Some p) \<longleftrightarrow>
      p \<in> set (custody_plans c) \<and> checkout_fingerprint p = digest \<and> target_cwd p = target"
  proof (cases "find (\<lambda>p. checkout_fingerprint p = digest) (custody_plans c)")
    case None
    then have "checkout_fingerprint x \<noteq> digest" if "x \<in> set (custody_plans c)" for x
      using that by (auto simp: find_None_iff)
    with None show ?thesis by auto
  next
    case (Some q)
    then have q: "q \<in> set (custody_plans c)" "checkout_fingerprint q = digest"
      using find_Some_iff [of _ "custody_plans c" q] by force+
    have "p = q" if "p \<in> set (custody_plans c)" "checkout_fingerprint p = digest"
      using that q dist by (simp add: distinct_map inj_on_def)
    with q show ?thesis by (auto simp: Some)
  qed
  with dist show ?thesis by simp
qed

lemma computed_contract:
  "with_computed_fingerprint sha json act plans =
     (if adjacent_clash (sort_plans plans) then Inl InvalidStructuredEvidence
      else Inr \<lparr>contract_schema_version = R2F1B_CONTRACT_SCHEMA_V1, activation = act,
        custody_plans = sort_plans plans, resource_contract_version = R2F1B_RESOURCE_CONTRACT_VERSION_V1,
        contract_fingerprint = Sha256HexV1_digest sha (json
          \<lparr>contract_schema_version = R2F1B_CONTRACT_SCHEMA_V1, activation = act,
           custody_plans = sort_plans plans, resource_contract_version = R2F1B_RESOURCE_CONTRACT_VERSION_V1,
           contract_fingerprint = Sha256HexV1_digest sha R2F1B_CONTRACT_FINGERPRINT_PLACEHOLDER\<rparr>)\<rparr>)"
  by (simp add: with_computed_fingerprint_def contract_validate_def expected_fingerprint_def Let_def)

lemma adjacent_clash_repeats:
  "adjacent_clash ps \<Longrightarrow> \<not> (distinct (map checkout_fingerprint ps) \<and> distinct (map custody_id ps))"
  by (induction ps rule: adjacent_clash.induct) auto

text \<open>
  Minting a custody contract is total and canonical. Whatever digest and serialiser are used, minting
  either returns a contract that validates, holds exactly the given plans and lists them by strictly
  increasing checkout digest, or refuses because two of the given plans share a digest or a custody id;
  the order in which the plans were given does not matter.
\<close>

theorem minted_contract_validates:
  "case with_computed_fingerprint sha json act plans of
     Inr c \<Rightarrow> contract_validate sha json c = Inr () \<and> mset (custody_plans c) = mset plans
       \<and> sorted_wrt (<) (map checkout_fingerprint (custody_plans c)) \<and> activation c = act
   | Inl e \<Rightarrow> e = InvalidStructuredEvidence
       \<and> \<not> (distinct (map checkout_fingerprint plans) \<and> distinct (map custody_id plans))"
proof (cases "adjacent_clash (sort_plans plans)")
  case True
  have "mset (map f (sort_plans plans)) = mset (map f plans)" for f :: "FrozenWorktreeCustodyPlanV1 \<Rightarrow> string"
    by (simp add: sort_plans_def)
  then have "distinct (map f (sort_plans plans)) = distinct (map f plans)" for f :: "FrozenWorktreeCustodyPlanV1 \<Rightarrow> string"
    by (rule mset_eq_imp_distinct_iff)
  with True adjacent_clash_repeats [OF True] show ?thesis by (simp add: computed_contract)
next
  case False
  have "mset (sort_plans plans) = mset plans" by (simp add: sort_plans_def)
  with False no_adjacent_clash [OF sorted_fingerprints False] show ?thesis
    by (simp add: computed_contract contract_validate_def expected_fingerprint_def Let_def)
qed

definition example_plan :: "string \<Rightarrow> string \<Rightarrow> FrozenWorktreeCustodyPlanV1" where
  "example_plan i fp = \<lparr>custody_id = i, checkout_fingerprint = fp, target_cwd = ''/work/'' @ fp\<rparr>"

definition example_contract :: FrozenR2f1bContractV1 where
  "example_contract = \<lparr>contract_schema_version = 1, activation = AutomaticR2f1b,
     custody_plans = [example_plan ''c1'' ''a'', example_plan ''c2'' ''b''], resource_contract_version = 1,
     contract_fingerprint = []\<rparr>"

lemma example_contract_validates: "contract_validate (\<lambda>_. []) (\<lambda>_. []) example_contract = Inr ()"
  by (simp add: contract_validate_def example_contract_def example_plan_def expected_fingerprint_def
      Sha256HexV1_digest_def R2F1B_CONTRACT_SCHEMA_V1_def R2F1B_RESOURCE_CONTRACT_VERSION_V1_def
      sort_plans_def sort_key_id_if_sorted less_eq_prod_def Let_def)

theorem selected_custody_plan_exact_witness:
  "select_custody_plan_v1 example_contract (Worktree ''s'' ''s'' ''w'' ''o'' ''/work/b'' ''b'')
     = Inr (Some (example_plan ''c2'' ''b''))"
  using selected_custody_plan_exact [OF example_contract_validates, of "''s''" "''s''" "''w''" "''o''" "''/work/b''"
      "''b''" "example_plan ''c2'' ''b''"]
  by (simp add: example_contract_def example_plan_def)

text \<open>
  The check for a repeated custody id compares neighbours of a list sorted by digest, so a repetition
  that is not between neighbours passes.
\<close>

lemma contract_admits_repeated_custody_id:
  "is_ok (with_computed_fingerprint (\<lambda>_. []) (\<lambda>_. []) AutomaticR2f1b
     [example_plan ''c1'' ''a'', example_plan ''c2'' ''b'', example_plan ''c1'' ''c''])"
  by (simp add: computed_contract sort_plans_def sort_key_id_if_sorted less_eq_prod_def example_plan_def)

section \<open>How clean-up settles\<close>

text \<open>
  The clean-up tail after a cancellation never outlives the node's budget. For every anchor and work
  cutoff far enough from the end of the 64-bit clock, the time clean-up gets is exactly the smaller of 60
  seconds and what is left until 60 seconds after the work cutoff, and nothing when that has passed.
\<close>

theorem cleanup_deadline_exact:
  assumes "unat anchor + 60000 < 2 ^ 64" "unat cutoff + 60000 < 2 ^ 64"
  shows "unat (cleanup_deadline_after_cancellation_ms_v1 anchor cutoff) =
    min 60000 ((unat cutoff + 60000) - unat anchor)"
  using assms
  by (simp add: cleanup_deadline_after_cancellation_ms_v1_def CLEANUP_TAIL_MS_def u64_simps)

theorem cleanup_deadline_exact_witness:
  "unat (cleanup_deadline_after_cancellation_ms_v1 7250000 7200000) = 10000"
  using cleanup_deadline_exact [of 7250000 7200000] by simp

fun observed_flight :: "NodeCleanupObservationV1 \<Rightarrow> string option" where
  "observed_flight (UnsettledUnknownOwnerless _ flight) = Some flight"
| "observed_flight ob = map_option owner_resource_flight_id (recovery_owner ob)"

text \<open>
  C9: Settling a node's clean-up is honest about time and ownership. A clean-up is reported complete or
  failed only with a duration that fits both the deadline and the time that has elapsed; it stays pending
  only before the deadline, and then on the flight that was observed; and after the deadline an
  unfinished clean-up keeps the very recovery owner that was observed, so an owner is neither invented
  nor dropped.
\<close>

theorem settle_node_cleanup_honest:
  "case settle_node_cleanup_v2 ob elapsed deadline of
     CleanupComplete d \<Rightarrow> (\<exists>ow. ob = ObservedComplete d ow) \<and> d \<le> deadline \<and> d \<le> elapsed
   | CleanupFailed d cause \<Rightarrow> (\<exists>ow. ob = ObservedFailed d cause ow) \<and> d \<le> deadline \<and> d \<le> elapsed
   | CleanupPending flight \<Rightarrow> elapsed < deadline \<and> observed_flight ob = Some flight
   | CleanupPartial d ow \<Rightarrow> deadline \<le> elapsed \<and> recovery_owner ob = Some ow
   | CleanupUnknown d ow \<Rightarrow> deadline \<le> elapsed \<and> recovery_owner ob = ow
   | CleanupNotNeeded \<Rightarrow> ob = ObservedNotNeeded"
  by (cases ob) (auto simp: settle_node_cleanup_v2_def late_observation_def Let_def not_le not_less)

text \<open>The accepted product table of the documentation of \<open>validate_coherence\<close>.\<close>

definition coherent :: "NodeCleanupRecordV2 \<Rightarrow> bool" where
  "coherent r \<longleftrightarrow>
     (case cleanup r of
        CleanupPending _ \<Rightarrow>
          preservation_disposition (preservation r) = PreservationPending \<and> collateral r = None
      | CleanupNotNeeded \<Rightarrow>
          preservation_disposition (preservation r) \<in> {Removed, PreservationNotNeeded, PreservationUnknown}
          \<and> collateral r = None
      | _ \<Rightarrow> preservation_disposition (preservation r) \<noteq> PreservationPending
          \<and> (case collateral r of None \<Rightarrow> True
             | Some c \<Rightarrow> collateral_disposition c = CollateralNone \<longleftrightarrow> affected_owner_count c = 0))"

lemma validate_coherence_eq:
  "validate_coherence r = (if coherent r then Inr () else Inl InvalidStructuredEvidence)"
proof (cases "collateral r")
  case None
  then show ?thesis
    by (cases "cleanup r"; cases "preservation_disposition (preservation r)")
      (simp_all add: validate_coherence_def coherent_def)
next
  case (Some c)
  then show ?thesis
    by (cases "cleanup r"; cases "preservation_disposition (preservation r)")
      (simp_all add: validate_coherence_def coherent_def)
qed

text \<open>
  The coherence check of a clean-up record accepts exactly the documented product table of clean-up,
  worktree preservation and collateral states.
\<close>

theorem validate_coherence_table:
  "validate_coherence r = (if coherent r then Inr () else Inl InvalidStructuredEvidence)"
  by (rule validate_coherence_eq)

text \<open>
  What settles can be recorded. A clean-up settled for an attempt and its resource flight, recorded
  with a preservation and collateral result that fit the table, always passes the check that binds the
  record to that attempt and flight, provided the owner that was observed is that attempt's owner.
\<close>

theorem settled_cleanup_binds_to_attempt:
  assumes "cleanup r = settle_node_cleanup_v2 ob elapsed deadline" and "coherent r"
    and "case recovery_owner ob of None \<Rightarrow> True | Some ow \<Rightarrow> owner_attempt_id ow = attempt"
    and "case observed_flight ob of None \<Rightarrow> True | Some f \<Rightarrow> f = flight"
  shows "validate_for_attempt r attempt flight = Inr ()"
proof -
  have "validate_coherence r = Inr ()" using assms(2) by (simp add: validate_coherence_eq)
  then show ?thesis
    using assms(1,3,4)
    by (cases ob)
      (auto simp: validate_for_attempt_def settle_node_cleanup_v2_def late_observation_def Let_def split: if_splits)
qed

definition example_owner :: RecoveryOwnerV1 where
  "example_owner = \<lparr>owner_attempt_id = ''attempt-1'', owner_resource_flight_id = ''flight-1'', owner_reason = ''lost''\<rparr>"

theorem settled_cleanup_binds_to_attempt_witness:
  "validate_for_attempt \<lparr>cleanup_schema_version = 2, cleanup = CleanupPartial 900 example_owner,
     preservation = \<lparr>preservation_disposition = Preserved, preservation_custody_id = None, claim_digest = None\<rparr>,
     collateral = None\<rparr> ''attempt-1'' ''flight-1'' = Inr ()"
  by (rule settled_cleanup_binds_to_attempt [where ob = "Unsettled 900 example_owner" and elapsed = 70000 and deadline = 60000])
    (simp_all add: settle_node_cleanup_v2_def late_observation_def coherent_def example_owner_def)

end
