(* ===== verification/Mcp_Servers.thy ===== *)
theory Mcp_Servers
  imports Unicode_Text
begin

text \<open>
  MCP servers and their delivery (\<open>mcp.rs\<close>): the \<open>{cwd}\<close> templates and their validation, the sources of
  environment values, the reserved lineage marker of bridge-managed agents, and the rendering for the
  adapters that take servers as override arguments or as an agent file. Texts are byte strings: the code
  looks at ASCII characters only. The pretty-printer of \<open>serde_json\<close> is the parameter \<open>pretty\<close>.
\<close>

section \<open>Templates\<close>

definition CWD_TOKEN :: string where "CWD_TOKEN = ''{cwd}''"

definition substitute_cwd :: "string \<Rightarrow> string \<Rightarrow> string" where
  "substitute_cwd s cwd = replace_all CWD_TOKEN cwd s"

text \<open>The scan stops at the first brace that does not open the token; the error is the offending token.\<close>

function validate_cwd_template :: "string \<Rightarrow> string + unit" where
  "validate_cwd_template [] = Inr ()"
| "validate_cwd_template (c # s) =
     (if c = CHR ''{'' then
        if starts_with CWD_TOKEN (c # s) then validate_cwd_template (drop (length CWD_TOKEN) (c # s))
        else Inl (case find_sub ''}'' (c # s) of Some k \<Rightarrow> take (Suc k) (c # s) | None \<Rightarrow> c # s)
      else validate_cwd_template s)"
  by pat_completeness auto
termination by (relation "measure length") (simp_all add: CWD_TOKEN_def)

section \<open>Server specifications\<close>

text \<open>
  A secret is its text; the constructor refuses an empty one. A public literal keeps its template until
  delivery, a secret is never expanded.
\<close>

definition SecretString_new :: "string \<Rightarrow> string option" where
  "SecretString_new v = (if v = [] then None else Some v)"

datatype McpEnvValueSourceV1 =
  PublicLiteral string
| SecretFromEnv (variable: string) (resolved: string)

fun delivery_value :: "McpEnvValueSourceV1 \<Rightarrow> string \<Rightarrow> string" where
  "delivery_value (PublicLiteral v) cwd = substitute_cwd v cwd"
| "delivery_value (SecretFromEnv var r) cwd = r"

fun resolved_value :: "McpEnvValueSourceV1 \<Rightarrow> string" where
  "resolved_value (PublicLiteral v) = v"
| "resolved_value (SecretFromEnv var r) = r"

fun source_kind :: "McpEnvValueSourceV1 \<Rightarrow> string" where
  "source_kind (PublicLiteral v) = ''public_literal''"
| "source_kind (SecretFromEnv var r) = ''secret_from_env''"

fun source_name :: "McpEnvValueSourceV1 \<Rightarrow> string option" where
  "source_name (PublicLiteral v) = None"
| "source_name (SecretFromEnv var r) = Some var"

fun is_secret :: "McpEnvValueSourceV1 \<Rightarrow> bool" where
  "is_secret (PublicLiteral v) = False"
| "is_secret (SecretFromEnv var r) = True"

fun substituted_source :: "McpEnvValueSourceV1 \<Rightarrow> string \<Rightarrow> McpEnvValueSourceV1" where
  "substituted_source (PublicLiteral v) cwd = PublicLiteral (substitute_cwd v cwd)"
| "substituted_source (SecretFromEnv var r) cwd = SecretFromEnv var r"

record McpServerSpec =
  server_name :: string
  server_command :: string
  server_args :: "string list"
  server_env :: "(string \<times> McpEnvValueSourceV1) list"

definition substituted :: "McpServerSpec \<Rightarrow> string \<Rightarrow> McpServerSpec" where
  "substituted s cwd =
     \<lparr>server_name = server_name s, server_command = server_command s,
      server_args = map (\<lambda>a. substitute_cwd a cwd) (server_args s),
      server_env = map (\<lambda>(k, v). (k, substituted_source v cwd)) (server_env s)\<rparr>"

definition to_ascii_lowercase :: "char \<Rightarrow> char" where
  "to_ascii_lowercase c =
     (if 65 \<le> (of_char c :: nat) \<and> (of_char c :: nat) \<le> 90 then char_of (of_char c + 32 :: nat) else c)"

definition eq_ignore_ascii_case :: "string \<Rightarrow> string \<Rightarrow> bool" where
  "eq_ignore_ascii_case a b \<longleftrightarrow> map to_ascii_lowercase a = map to_ascii_lowercase b"

definition MANAGED_MCP_CALL_DEPTH_ENV :: string where
  "MANAGED_MCP_CALL_DEPTH_ENV = ''A2A_BRIDGE_MCP_CALL_DEPTH''"

definition FIRST_MANAGED_MCP_CALL_DEPTH :: string where "FIRST_MANAGED_MCP_CALL_DEPTH = ''1''"

definition substituted_for_managed_agent :: "McpServerSpec \<Rightarrow> string \<Rightarrow> McpServerSpec" where
  "substituted_for_managed_agent s cwd =
     (let delivered = substituted s cwd;
          delivered = delivered\<lparr>server_env :=
            filter (\<lambda>(name, _). \<not> eq_ignore_ascii_case name MANAGED_MCP_CALL_DEPTH_ENV) (server_env delivered)\<rparr>
      in delivered\<lparr>server_env := server_env delivered
           @ [(MANAGED_MCP_CALL_DEPTH_ENV, PublicLiteral FIRST_MANAGED_MCP_CALL_DEPTH)]\<rparr>)"

datatype McpDelivery = DeliverAcp | CodexNative | KiroNative

definition env_redaction_values :: "McpServerSpec list \<Rightarrow> string \<Rightarrow> string list" where
  "env_redaction_values specs cwd =
     concat (map (\<lambda>(_, v). [resolved_value v, delivery_value v cwd]) (concat (map server_env specs)))"

section \<open>Rendering\<close>

definition CODEX_MCP_STARTUP_TIMEOUT_SEC :: nat where "CODEX_MCP_STARTUP_TIMEOUT_SEC = 120"

definition toml_char :: "char \<Rightarrow> string" where
  "toml_char c =
     (if c = CHR 0x5C then [CHR 0x5C, CHR 0x5C]
      else if c = CHR 0x22 then [CHR 0x5C, CHR 0x22]
      else if c = CHR 0x0A then [CHR 0x5C, CHR ''n'']
      else if c = CHR 0x09 then [CHR 0x5C, CHR ''t'']
      else [c])"

definition toml_str :: "string \<Rightarrow> string" where
  "toml_str s = [CHR 0x22] @ concat (map toml_char s) @ [CHR 0x22]"

fun join :: "string \<Rightarrow> string list \<Rightarrow> string" where
  "join sep [] = []"
| "join sep [x] = x"
| "join sep (x # xs) = x @ sep @ join sep xs"

definition codex_server_args :: "McpServerSpec \<Rightarrow> string \<Rightarrow> string list" where
  "codex_server_args spec cwd =
     (let s = substituted_for_managed_agent spec cwd; p = ''mcp_servers.'' @ server_name s in
      [''-c'', p @ ''.command='' @ toml_str (server_command s),
       ''-c'', p @ ''.args=['' @ join '', '' (map toml_str (server_args s)) @ '']'']
      @ concat (map (\<lambda>(k, v). [''-c'', p @ ''.env.'' @ k @ ''='' @ toml_str (resolved_value v)]) (server_env s))
      @ [''-c'', p @ ''.startup_timeout_sec='' @ show_nat CODEX_MCP_STARTUP_TIMEOUT_SEC])"

definition render_codex_mcp_args :: "McpServerSpec list \<Rightarrow> string \<Rightarrow> string list" where
  "render_codex_mcp_args mcp cwd = concat (map (\<lambda>spec. codex_server_args spec cwd) mcp)"

definition kiro_agent_name :: "string \<Rightarrow> string" where
  "kiro_agent_name agent_id = ''a2a-mcp-'' @ agent_id"

text \<open>The values of \<open>serde_json\<close> that the agent file is built from; a map keeps one value per key.\<close>

datatype json_value = JString string | JBool bool | JArray "json_value list" | JObject "(string \<times> json_value) list"

definition json_map :: "(string \<times> json_value) list \<Rightarrow> json_value" where
  "json_map kvs = JObject (fold (\<lambda>(k, v) m. AList.update k v m) kvs [])"

definition kiro_server_entry :: "McpServerSpec \<Rightarrow> json_value" where
  "kiro_server_entry s =
     json_map ([(''command'', JString (server_command s)), (''args'', JArray (map JString (server_args s)))]
       @ (if server_env s \<noteq> []
          then [(''env'', json_map (map (\<lambda>(k, v). (k, JString (resolved_value v))) (server_env s)))] else []))"

definition kiro_agent_config :: "McpServerSpec list \<Rightarrow> string \<Rightarrow> string \<Rightarrow> json_value" where
  "kiro_agent_config mcp cwd agent_name =
     (let delivered = map (\<lambda>spec. substituted_for_managed_agent spec cwd) mcp;
          names = map (\<lambda>s. JString (''@'' @ server_name s)) delivered
      in json_map
       [(''name'', JString agent_name),
        (''description'', JString ''a2a-bridge managed agent (MCP delivery, ADR-0028)''),
        (''mcpServers'', json_map (map (\<lambda>s. (server_name s, kiro_server_entry s)) delivered)),
        (''tools'', JArray (JString ''*'' # names)),
        (''allowedTools'', JArray names),
        (''includeMcpJson'', JBool False),
        (''resources'', JArray [JString ''skill://.kiro/skills/*/SKILL.md'',
           JString ''skill://~/.kiro/skills/*/SKILL.md''])])"

definition render_kiro_agent_config ::
  "(json_value \<Rightarrow> string option) \<Rightarrow> McpServerSpec list \<Rightarrow> string \<Rightarrow> string \<Rightarrow> string" where
  "render_kiro_agent_config pretty mcp cwd agent_name =
     (case pretty (kiro_agent_config mcp cwd agent_name) of Some t \<Rightarrow> t | None \<Rightarrow> [])"

section \<open>Valid templates\<close>

abbreviation brace_free :: "string \<Rightarrow> bool" where
  "brace_free p \<equiv> CHR ''{'' \<notin> set p"

lemma validate_skip: "brace_free p \<Longrightarrow> validate_cwd_template (p @ s) = validate_cwd_template s"
  by (induction p) auto

lemma validate_token: "validate_cwd_template (CWD_TOKEN @ s) = validate_cwd_template s"
  by (simp add: CWD_TOKEN_def starts_with_def)

lemma find_token: "brace_free p \<Longrightarrow> find_sub CWD_TOKEN (p @ CWD_TOKEN @ s) = Some (length p)"
proof (induction p)
  case Nil
  show ?case by (simp add: CWD_TOKEN_def starts_with_def)
next
  case (Cons c p)
  then show ?case by (auto simp: starts_with_def CWD_TOKEN_def)
qed

lemma no_token: "brace_free p \<Longrightarrow> find_sub CWD_TOKEN p = None"
  by (induction p) (auto simp: starts_with_def CWD_TOKEN_def)

lemma substitute_step: "brace_free p \<Longrightarrow> substitute_cwd (p @ CWD_TOKEN @ s) cwd = p @ cwd @ substitute_cwd s cwd"
  unfolding substitute_cwd_def by (subst replace_all.simps) (simp add: find_token, simp add: CWD_TOKEN_def)

lemma substitute_free: "brace_free p \<Longrightarrow> substitute_cwd p cwd = p"
  unfolding substitute_cwd_def by (subst replace_all.simps) (simp add: no_token CWD_TOKEN_def [THEN arg_cong [where f = length]], simp add: CWD_TOKEN_def)

lemma join_fills:
  "parts \<noteq> [] \<Longrightarrow> list_all brace_free parts \<Longrightarrow>
     validate_cwd_template (join CWD_TOKEN parts) = Inr () \<and> substitute_cwd (join CWD_TOKEN parts) cwd = join cwd parts"
proof (induction CWD_TOKEN parts rule: join.induct)
  case (2 p)
  then show ?case using validate_skip [of p "[]"] by (simp add: substitute_free)
next
  case (3 p q parts)
  then show ?case by (simp add: validate_skip validate_token substitute_step)
qed simp

lemma valid_template_parts:
  "validate_cwd_template s = Inr () \<Longrightarrow> \<exists>parts. parts \<noteq> [] \<and> list_all brace_free parts \<and> s = join CWD_TOKEN parts"
proof (induction s rule: validate_cwd_template.induct)
  case 1
  have "[[]] \<noteq> [] \<and> list_all brace_free [[]] \<and> [] = join CWD_TOKEN [[]]" by simp
  then show ?case by blast
next
  case (2 c s)
  show ?case
  proof (cases "c = CHR ''{''")
    case True
    with 2(3) have st: "starts_with CWD_TOKEN (c # s)" by (auto split: if_splits)
    then obtain t where t: "c # s = CWD_TOKEN @ t" unfolding starts_with_def not_None_eq strip_prefix_Some_iff by blast
    have "drop (length CWD_TOKEN) (c # s) = t" unfolding t by simp
    moreover from this 2(3) True st have "validate_cwd_template t = Inr ()" by simp
    ultimately obtain parts where "parts \<noteq> []" "list_all brace_free parts" "t = join CWD_TOKEN parts"
      using 2(1) [OF True st] by metis
    then have "[] # parts \<noteq> [] \<and> list_all brace_free ([] # parts) \<and> c # s = join CWD_TOKEN ([] # parts)"
      using t by (cases parts) simp_all
    then show ?thesis by blast
  next
    case False
    with 2(2,3) obtain p parts where "list_all brace_free (p # parts)" "s = join CWD_TOKEN (p # parts)"
      by (auto simp: neq_Nil_conv)
    then have "(c # p) # parts \<noteq> [] \<and> list_all brace_free ((c # p) # parts) \<and> c # s = join CWD_TOKEN ((c # p) # parts)"
      using False by (cases parts) simp_all
    then show ?thesis by blast
  qed
qed

text \<open>
  A template is accepted exactly when it consists of pieces without an opening brace around the token
  \<open>{cwd}\<close>, and for such a template substitution puts the directory between the unchanged pieces; the
  directory itself is arbitrary and is not expanded again.
\<close>

theorem template_valid_iff_parts:
  "is_ok (validate_cwd_template s) \<longleftrightarrow>
     (\<exists>parts. parts \<noteq> [] \<and> list_all brace_free parts \<and> s = join CWD_TOKEN parts
        \<and> (\<forall>cwd. substitute_cwd s cwd = join cwd parts))"
proof
  assume "is_ok (validate_cwd_template s)"
  then have "validate_cwd_template s = Inr ()" by (cases "validate_cwd_template s") simp_all
  from valid_template_parts [OF this] join_fills
  show "\<exists>parts. parts \<noteq> [] \<and> list_all brace_free parts \<and> s = join CWD_TOKEN parts
      \<and> (\<forall>cwd. substitute_cwd s cwd = join cwd parts)"
    by metis
next
  assume "\<exists>parts. parts \<noteq> [] \<and> list_all brace_free parts \<and> s = join CWD_TOKEN parts
      \<and> (\<forall>cwd. substitute_cwd s cwd = join cwd parts)"
  with join_fills show "is_ok (validate_cwd_template s)" by auto
qed

section \<open>The lineage marker\<close>

text \<open>
  C39: Whatever environment a server was configured with, the one delivered to a bridge-managed agent
  carries the lineage marker exactly once, in whatever case a name is compared, as its last entry
  and with the first depth; the other entries are the configured ones in their order, public values expanded and secrets
  untouched.
\<close>

theorem managed_marker_exact:
  "let delivered = server_env (substituted_for_managed_agent s cwd);
       marker = (\<lambda>(name, v). eq_ignore_ascii_case name MANAGED_MCP_CALL_DEPTH_ENV)
   in filter marker delivered = [(MANAGED_MCP_CALL_DEPTH_ENV, PublicLiteral ''1'')]
      \<and> last delivered = (MANAGED_MCP_CALL_DEPTH_ENV, PublicLiteral ''1'')
      \<and> map (\<lambda>(k, v). (k, resolved_value v)) (butlast delivered)
          = map (\<lambda>(k, v). (k, delivery_value v cwd)) (filter (\<lambda>e. \<not> marker e) (server_env s))"
proof -
  have "resolved_value (substituted_source v cwd) = delivery_value v cwd" for v by (cases v) simp_all
  then show ?thesis
    by (auto simp: Let_def substituted_for_managed_agent_def substituted_def FIRST_MANAGED_MCP_CALL_DEPTH_def
        eq_ignore_ascii_case_def filter_map o_def case_prod_unfold filter_empty_conv)
qed

section \<open>Quoting\<close>

text \<open>A reader of TOML basic strings: it undoes the four escapes and stops at the closing quote.\<close>

fun read_toml :: "string \<Rightarrow> (string \<times> string) option" where
  "read_toml [] = None"
| "read_toml (c # s) =
     (if c = CHR 0x22 then Some ([], s)
      else if c = CHR 0x5C then
        (case s of [] \<Rightarrow> None
         | e # s' \<Rightarrow>
             (let esc = (if e = CHR ''n'' then Some (CHR 0x0A) else if e = CHR ''t'' then Some (CHR 0x09)
                else if e = CHR 0x22 \<or> e = CHR 0x5C then Some e else None)
              in case esc of None \<Rightarrow> None
                 | Some x \<Rightarrow> map_option (\<lambda>(t, rest). (x # t, rest)) (read_toml s')))
      else map_option (\<lambda>(t, rest). (c # t, rest)) (read_toml s))"

definition read_toml_str :: "string \<Rightarrow> (string \<times> string) option" where
  "read_toml_str s = (case s of [] \<Rightarrow> None | q # t \<Rightarrow> if q = CHR 0x22 then read_toml t else None)"

lemma read_toml_escaped: "read_toml (concat (map toml_char s) @ CHR 0x22 # rest) = Some (s, rest)"
  by (induction s) (auto simp: toml_char_def)

lemma read_toml_str: "read_toml_str (toml_str s @ rest) = Some (s, rest)"
  by (simp add: read_toml_str_def toml_str_def read_toml_escaped)

text \<open>
  A quoted value cannot escape its quotes: reading the literal back gives the value, whatever
  characters it has, and leaves exactly the text behind the literal. So two values give the same
  override argument only if they are equal.
\<close>

theorem toml_str_roundtrip:
  "read_toml_str (toml_str s @ rest) = Some (s, rest)
   \<and> (toml_str s @ rest = toml_str t @ rest' \<longleftrightarrow> s = t \<and> rest = rest')"
  by (metis option.inject prod.inject read_toml_str)

end
