(* ===== verification/Agent_Config.thy ===== *)
theory Agent_Config
  imports Turn_Liveness Mcp_Servers
begin

text \<open>
  Agent configuration (\<open>domain.rs\<close>): efforts, the sandbox, watchdog and liveness blocks, an agent entry
  with its launch and selection fields, and the layering of an override on the entry's defaults.
\<close>

section \<open>Efforts, overrides and effective configurations\<close>

datatype Effort = Minimal | Low | Medium | High | Xhigh | Max

text \<open>\<open>impl FromStr for Effort\<close>; the error is the offending text.\<close>

definition Effort_from_str :: "string \<Rightarrow> string + Effort" where
  "Effort_from_str s =
     (let normalized = map to_ascii_lowercase s in
      if normalized = ''minimal'' then Inr Minimal
      else if normalized = ''low'' then Inr Low
      else if normalized = ''medium'' then Inr Medium
      else if normalized = ''high'' then Inr High
      else if normalized = ''xhigh'' then Inr Xhigh
      else if normalized = ''max'' then Inr Max
      else Inl s)"

fun effort_name :: "Effort \<Rightarrow> string" where
  "effort_name Minimal = ''minimal''"
| "effort_name Low = ''low''"
| "effort_name Medium = ''medium''"
| "effort_name High = ''high''"
| "effort_name Xhigh = ''xhigh''"
| "effort_name Max = ''max''"

lemma effort_name_inject [simp]: "effort_name a = effort_name b \<longleftrightarrow> a = b"
  by (cases a; cases b) simp_all

record AgentOverride =
  ov_model :: "string option"
  ov_effort :: "Effort option"
  ov_mode :: "string option"

record EffectiveConfig =
  model :: "string option"
  effort :: "Effort option"
  mode :: "string option"

section \<open>Agent entries\<close>

datatype AgentKind = KindAcp | KindApi | KindContainerRw

datatype MountAccess = Ro | Rw

datatype EgressPolicy = Locked (network: string) (proxy: string) (no_proxy: "string option") | OpenEgress

record SandboxConfig =
  sandbox_runtime :: "string option"
  sandbox_image :: string
  sandbox_mount :: string
  sandbox_access :: MountAccess
  sandbox_egress :: EgressPolicy
  sandbox_volumes :: "string list"

definition DEFAULT_RUNTIME :: string where "DEFAULT_RUNTIME = ''docker''"

definition runtime_of :: "SandboxConfig \<Rightarrow> string" where
  "runtime_of s = (case sandbox_runtime s of Some r \<Rightarrow> r | None \<Rightarrow> DEFAULT_RUNTIME)"

text \<open>A duration is its number of nanoseconds.\<close>

record WatchdogConfig =
  idle_timeout :: nat
  hard_wall_clock :: nat

text \<open>
  The fields are in the order of the source. The extension table is left out: its values are those of
  the TOML crate and nothing modelled here reads it.
\<close>

record AgentEntry =
  entry_id :: string
  entry_cmd :: "string option"
  entry_base_url :: "string option"
  entry_api_key_env :: "string option"
  entry_args :: "string list"
  entry_kind :: AgentKind
  entry_model_provider :: "string option"
  entry_model :: "string option"
  entry_effort :: "Effort option"
  entry_mode :: "string option"
  entry_preflight :: bool
  entry_fallback_models :: "string list"
  entry_cwd :: "string option"
  entry_session_cwd :: "string option"
  entry_sandbox :: "SandboxConfig option"
  entry_watchdog :: "WatchdogConfig option"
  entry_liveness :: "AgentLivenessConfig option"
  entry_mcp :: "McpServerSpec list"
  entry_mcp_delivery :: McpDelivery
  entry_auth_method :: "string option"
  entry_pre_authenticated :: bool
  entry_host_fallback_eligible :: bool
  entry_rename_new_sessions :: bool
  entry_name :: "string option"
  entry_description :: "string option"
  entry_tags :: "string list"
  entry_version :: "string option"

section \<open>Layered configuration\<close>

definition effective_config :: "AgentEntry \<Rightarrow> AgentOverride option \<Rightarrow> EffectiveConfig" where
  "effective_config entry ov =
     (let eff = \<lparr>model = entry_model entry, effort = entry_effort entry, mode = entry_mode entry\<rparr> in
      case ov of None \<Rightarrow> eff
      | Some o' \<Rightarrow>
          let eff = (if ov_model o' \<noteq> None then eff\<lparr>model := ov_model o'\<rparr> else eff);
              eff = (if ov_effort o' \<noteq> None then eff\<lparr>effort := ov_effort o'\<rparr> else eff);
              eff = (if ov_mode o' \<noteq> None then eff\<lparr>mode := ov_mode o'\<rparr> else eff)
          in eff)"

end
