(* ===== verification/Workflow_Graph.thy ===== *)
theory Workflow_Graph
  imports Execution_Policy Agent_Config
begin

text \<open>
  Workflow graphs (\<open>graph.rs\<close>): the nodes and their layered configuration, the retry
  back-off, and the validation that admits a graph. The edges are implicit in the \<open>inputs\<close> of
  the nodes; validation is characterised by the edge relation they induce.
\<close>

section \<open>Graphs\<close>

record RetryPolicy =
  max_attempts :: u32
  backoff_ms :: u64
  backoff_cap_ms :: "u64 option"

datatype HarvestSanitizationMode = SanitizeOff | AttestedPrefixV1

record WorkflowNode =
  node_id :: string
  agent :: string
  node_model :: "string option"
  node_effort :: "Effort option"
  node_mode :: "string option"
  prompt_template :: string
  inputs :: "string list"
  retry :: "RetryPolicy option"
  harvest_sanitization :: "HarvestSanitizationMode option"

text \<open>The weights of a panel are the entries of an ordered map; a weight is the bit pattern of its \<open>f64\<close>.\<close>

record WorkflowGraph =
  graph_id :: string
  nodes :: "WorkflowNode list"
  panel :: "(string \<times> u64) list option"
  controls :: "WorkflowControlDefaultsV1 option"

definition attempts :: "RetryPolicy \<Rightarrow> u32" where
  "attempts p = max (max_attempts p) 1"

definition backoff_cap :: "RetryPolicy \<Rightarrow> u64" where
  "backoff_cap p = (case backoff_cap_ms p of None \<Rightarrow> 30000 | Some cap \<Rightarrow> cap)"

definition backoff_for :: "RetryPolicy \<Rightarrow> u32 \<Rightarrow> u64" where
  "backoff_for p attempt =
     (let cap = backoff_cap p;
          shift = sat_sub attempt 1;
          base = (if 64 \<le> shift then - 1 else sat_mul (backoff_ms p) (push_bit (unat shift) 1))
      in min base cap)"

definition overrides :: "WorkflowNode \<Rightarrow> AgentOverride" where
  "overrides n = \<lparr>ov_model = node_model n, ov_effort = node_effort n, ov_mode = node_mode n\<rparr>"

definition node_effective_config :: "WorkflowNode \<Rightarrow> AgentEntry \<Rightarrow> EffectiveConfig" where
  "node_effective_config n entry = effective_config entry (Some (overrides n))"

section \<open>Validation\<close>

datatype WorkflowError =
  Empty | DuplicateNode string | UnknownInput string string | Cyclic | NotSingleTerminal nat

fun first_duplicate :: "string set \<Rightarrow> WorkflowNode list \<Rightarrow> string option" where
  "first_duplicate seen [] = None"
| "first_duplicate seen (n # ns) =
     (if node_id n \<in> seen then Some (node_id n) else first_duplicate (insert (node_id n) seen) ns)"

fun first_unknown_input :: "string set \<Rightarrow> WorkflowNode list \<Rightarrow> (string \<times> string) option" where
  "first_unknown_input ids [] = None"
| "first_unknown_input ids (n # ns) =
     (case find (\<lambda>i. i \<notin> ids) (inputs n) of
        Some i \<Rightarrow> Some (node_id n, i)
      | None \<Rightarrow> first_unknown_input ids ns)"

definition ready_ids :: "WorkflowNode list \<Rightarrow> string set \<Rightarrow> string list" where
  "ready_ids remaining finished = map node_id (filter (\<lambda>n. list_all (\<lambda>i. i \<in> finished) (inputs n)) remaining)"

text \<open>The loop of \<open>assert_acyclic\<close>: each round removes the nodes whose inputs are all removed.\<close>

function kahn :: "WorkflowNode list \<Rightarrow> string set \<Rightarrow> WorkflowError + unit" where
  "kahn remaining finished =
     (if remaining = [] then Inr ()
      else let ready = ready_ids remaining finished
           in if ready = [] then Inl Cyclic
              else kahn (filter (\<lambda>n. node_id n \<notin> set ready) remaining) (set ready \<union> finished))"
  by auto
termination
proof (relation "measure (length \<circ> fst)", simp)
  fix remaining finished ready
  assume "ready = ready_ids remaining finished" "ready \<noteq> []"
  moreover from this have "hd ready \<in> set ready" by simp
  ultimately obtain n where "n \<in> set remaining" "node_id n \<in> set ready"
    by (auto simp: ready_ids_def)
  then have "length (filter (\<lambda>n. node_id n \<notin> set ready) remaining) < length remaining"
    by (intro length_filter_less) auto
  then show "((filter (\<lambda>n. node_id n \<notin> set ready) remaining, set ready \<union> finished), remaining, finished)
      \<in> measure (length \<circ> fst)"
    by simp
qed

declare kahn.simps [simp del]

definition assert_acyclic :: "WorkflowGraph \<Rightarrow> WorkflowError + unit" where
  "assert_acyclic g = kahn (nodes g) {}"

definition referenced :: "WorkflowGraph \<Rightarrow> string set" where
  "referenced g = set (concat (map inputs (nodes g)))"

definition terminals :: "WorkflowGraph \<Rightarrow> nat" where
  "terminals g = length (filter (\<lambda>n. node_id n \<notin> referenced g) (nodes g))"

definition validate :: "WorkflowGraph \<Rightarrow> WorkflowError + unit" where
  "validate g =
     (if nodes g = [] then Inl Empty
      else case first_duplicate {} (nodes g) of Some d \<Rightarrow> Inl (DuplicateNode d)
      | None \<Rightarrow>
        (case first_unknown_input (node_id ` set (nodes g)) (nodes g) of
           Some (n, i) \<Rightarrow> Inl (UnknownInput n i)
         | None \<Rightarrow>
           (case assert_acyclic g of Inl e \<Rightarrow> Inl e
            | Inr _ \<Rightarrow> if terminals g \<noteq> 1 then Inl (NotSingleTerminal (terminals g)) else Inr ())))"

definition terminal :: "WorkflowGraph \<Rightarrow> WorkflowNode option" where
  "terminal g = find (\<lambda>n. node_id n \<notin> referenced g) (nodes g)"

section \<open>Back-off\<close>

lemma min_max_word [simp]: "min (- 1) (c :: 'a::len word) = c"
  using unat_le_max [of c] by (simp add: min_def word_le_nat_alt word_unat_eq_iff unat_max_word)

lemma unat_shift_one: "k < 64 \<Longrightarrow> unat (push_bit k 1 :: u64) = 2 ^ k"
proof -
  assume "k < 64"
  then have "(2 :: nat) ^ k < 2 ^ 64" by (rule power_strict_increasing) simp
  moreover have "push_bit k 1 = (of_nat (2 ^ k) :: u64)" by (simp add: push_bit_of_1)
  ultimately show ?thesis by (simp add: unat_of_nat del: of_nat_power)
qed


text \<open>
  Retry back-off doubles and never exceeds its cap, without overflow. For every attempt and policy
  except a zero back-off past attempt 64, the wait is exactly the smaller of the cap (30 seconds when
  none is configured) and the base times two to the number of earlier attempts, computed in
  unbounded integers.
\<close>

theorem backoff_for_exact:
  assumes "0 < backoff_ms p \<or> attempt \<le> 64"
  shows "unat (backoff_for p attempt) =
    min (unat (backoff_ms p) * 2 ^ (unat attempt - 1)) (unat (backoff_cap p))"
proof (cases "64 \<le> sat_sub attempt 1")
  case True
  then have big: "64 \<le> unat attempt - 1"
    by (simp add: word_le_nat_alt unat_sat_sub)
  then have "0 < unat (backoff_ms p)"
    using assms by (auto simp: word_le_nat_alt word_less_nat_alt)
  moreover have "(2 :: nat) ^ 64 \<le> 2 ^ (unat attempt - 1)"
    using big by (rule power_increasing) simp
  ultimately have "2 ^ 64 \<le> unat (backoff_ms p) * 2 ^ (unat attempt - 1)"
    by (metis Suc_leI mult_le_mono nat_mult_1 One_nat_def)
  moreover have "unat (backoff_cap p) < 2 ^ 64" using unat_u64_less by simp
  ultimately have "min (unat (backoff_ms p) * 2 ^ (unat attempt - 1)) (unat (backoff_cap p)) = unat (backoff_cap p)"
    by linarith
  then show ?thesis using True by (simp add: backoff_for_def Let_def)
next
  case False
  then have small: "unat attempt - 1 < 64"
    by (simp add: word_le_nat_alt unat_sat_sub)
  have "unat (push_bit (unat attempt - 1) 1 :: u64) = 2 ^ (unat attempt - 1)"
    using small by (rule unat_shift_one)
  moreover have "unat (sat_sub attempt 1) = unat attempt - 1" by (simp add: unat_sat_sub)
  ultimately show ?thesis
    using False unat_u64_less [of "backoff_cap p"]
    by (simp add: backoff_for_def Let_def unat_min unat_sat_mul)
qed

theorem backoff_for_exact_witness:
  "unat (backoff_for \<lparr>max_attempts = 5, backoff_ms = 500, backoff_cap_ms = None\<rparr> 4) = 4000
   \<and> unat (backoff_for \<lparr>max_attempts = 5, backoff_ms = 500, backoff_cap_ms = None\<rparr> 40) = 30000"
  using backoff_for_exact [of "\<lparr>max_attempts = 5, backoff_ms = 500, backoff_cap_ms = None\<rparr>" 4]
    backoff_for_exact [of "\<lparr>max_attempts = 5, backoff_ms = 500, backoff_cap_ms = None\<rparr>" 40]
  by (simp add: backoff_cap_def)

text \<open>The exception: a policy that never waits starts to wait its whole cap at attempt 65.\<close>

lemma backoff_for_zero_base:
  "65 \<le> attempt \<Longrightarrow> backoff_ms p = 0 \<Longrightarrow> backoff_for p attempt = backoff_cap p"
proof -
  assume "65 \<le> attempt"
  then have "64 \<le> sat_sub attempt 1" by (simp add: word_le_nat_alt unat_sat_sub)
  then show ?thesis by (simp add: backoff_for_def Let_def)
qed

section \<open>What validation admits\<close>

definition edges_of :: "WorkflowNode list \<Rightarrow> (string \<times> string) set" where
  "edges_of ns = (\<Union>n\<in>set ns. (\<lambda>i. (i, node_id n)) ` set (inputs n))"

definition ids_of :: "WorkflowNode list \<Rightarrow> string set" where
  "ids_of ns = node_id ` set ns"

lemma edges_of_iff: "(i, j) \<in> edges_of ns \<longleftrightarrow> (\<exists>n\<in>set ns. node_id n = j \<and> i \<in> set (inputs n))"
  by (auto simp: edges_of_def)

lemma finite_edges_of [simp]: "finite (edges_of ns)"
  by (simp add: edges_of_def)

lemma edges_of_mono: "set ns \<subseteq> set ms \<Longrightarrow> edges_of ns \<subseteq> edges_of ms"
  by (auto simp: edges_of_def)

lemma first_duplicate_None: "first_duplicate seen ns = None \<longleftrightarrow> distinct (map node_id ns) \<and> seen \<inter> ids_of ns = {}"
  by (induction seen ns rule: first_duplicate.induct) (auto simp: ids_of_def)

lemma first_duplicate_Some:
  "first_duplicate seen ns = Some d \<Longrightarrow> d \<in> ids_of ns \<and> (d \<in> seen \<or> \<not> distinct (map node_id ns))"
proof (induction seen ns rule: first_duplicate.induct)
  case (2 seen n ns)
  show ?case
  proof (cases "node_id n \<in> seen")
    case True
    with "2.prems" show ?thesis by (auto simp: ids_of_def)
  next
    case False
    with 2 have "d \<in> ids_of ns" "d = node_id n \<or> d \<in> seen \<or> \<not> distinct (map node_id ns)" by auto
    then show ?thesis unfolding ids_of_def list.set image_insert by (elim disjE) simp_all
  qed
qed simp

lemma Domain_edges_of: "Domain (edges_of ns) = (\<Union>n\<in>set ns. set (inputs n))"
  by (auto simp: edges_of_def Domain_iff)

lemma first_unknown_input_None:
  "first_unknown_input ids ns = None \<longleftrightarrow> Domain (edges_of ns) \<subseteq> ids"
  unfolding Domain_edges_of
proof (induction ids ns rule: first_unknown_input.induct)
  case (2 ids n ns)
  show ?case
  proof (cases "find (\<lambda>i. i \<notin> ids) (inputs n)")
    case None
    then have "set (inputs n) \<subseteq> ids" by (auto simp: find_None_iff)
    with 2 None show ?thesis by simp
  next
    case (Some i)
    then have "i \<in> set (inputs n)" "i \<notin> ids" by (auto simp: find_Some_iff)
    with Some show ?thesis by auto
  qed
qed simp

lemma first_unknown_input_Some:
  "first_unknown_input ids ns = Some (n, i) \<Longrightarrow> (i, n) \<in> edges_of ns \<and> i \<notin> ids"
  by (induction ids ns rule: first_unknown_input.induct)
    (auto simp: edges_of_def find_Some_iff split: option.splits)

lemma ready_ids_iff:
  "j \<in> set (ready_ids remaining finished) \<longleftrightarrow>
     (\<exists>n\<in>set remaining. node_id n = j \<and> set (inputs n) \<subseteq> finished)"
  by (auto simp: ready_ids_def list_all_iff)

lemma kahn_only_cyclic: "kahn remaining finished = Inl e \<Longrightarrow> e = Cyclic"
proof (induction remaining finished rule: kahn.induct)
  case (1 remaining finished)
  from "1.prems" show ?case
    by (subst (asm) kahn.simps) (use "1.IH" in \<open>auto simp: Let_def split: if_splits\<close>)
qed

text \<open>A run of Kahn's loop that ends well ranks the nodes by the round that removed them.\<close>

lemma kahn_ranks:
  "kahn remaining finished = Inr () \<Longrightarrow> distinct (map node_id remaining) \<Longrightarrow>
   \<exists>rank :: string \<Rightarrow> nat. \<forall>(i, j)\<in>edges_of remaining. i \<in> finished \<or> rank i < rank j"
proof (induction remaining finished rule: kahn.induct)
  case (1 remaining finished)
  define ready where "ready = ready_ids remaining finished"
  define rest where "rest = filter (\<lambda>n. node_id n \<notin> set ready) remaining"
  show ?case
  proof (cases "remaining = []")
    case True
    then show ?thesis by (simp add: edges_of_def)
  next
    case False
    with "1.prems"(1) have ne: "ready \<noteq> []" and "kahn rest (set ready \<union> finished) = Inr ()"
      by (subst (asm) kahn.simps, simp add: ready_def rest_def Let_def split: if_splits)+
    moreover have "distinct (map node_id rest)"
      using "1.prems"(2) by (simp add: rest_def distinct_map_filter)
    ultimately obtain rank :: "string \<Rightarrow> nat"
      where rank: "\<forall>(i, j)\<in>edges_of rest. i \<in> set ready \<union> finished \<or> rank i < rank j"
      using "1.IH" [OF False ready_def ne] by (auto simp: ready_def rest_def)
    define rank' where "rank' i = (if i \<in> set ready then 0 else Suc (rank i))" for i
    have "i \<in> finished \<or> rank' i < rank' j" if edge: "(i, j) \<in> edges_of remaining" for i j
    proof -
      obtain n where n: "n \<in> set remaining" "node_id n = j" "i \<in> set (inputs n)"
        using edge by (auto simp: edges_of_iff)
      show ?thesis
      proof (cases "j \<in> set ready")
        case True
        then obtain m where "m \<in> set remaining" "node_id m = j" "set (inputs m) \<subseteq> finished"
          by (auto simp: ready_def ready_ids_iff)
        moreover from this n "1.prems"(2) have "m = n" by (auto simp: distinct_map inj_on_def)
        ultimately show ?thesis using n(3) by auto
      next
        case False
        then have "(i, j) \<in> edges_of rest" using n by (auto simp: edges_of_iff rest_def)
        with rank False show ?thesis by (auto simp: rank'_def)
      qed
    qed
    then show ?thesis by (intro exI [of _ rank']) auto
  qed
qed

lemma kahn_sound:
  assumes "kahn ns {} = Inr ()" "distinct (map node_id ns)"
  shows "acyclic (edges_of ns)"
proof -
  obtain rank :: "string \<Rightarrow> nat" where "\<forall>(i, j)\<in>edges_of ns. rank i < rank j"
    using kahn_ranks [OF assms] by auto
  then have "edges_of ns \<subseteq> measure rank" by auto
  then show ?thesis by (meson wf_acyclic wf_measure wf_subset)
qed

text \<open>Conversely an acyclic graph always has a node that is ready.\<close>

lemma kahn_complete:
  "acyclic (edges_of remaining) \<Longrightarrow> Domain (edges_of remaining) \<subseteq> finished \<union> ids_of remaining \<Longrightarrow>
   kahn remaining finished = Inr ()"
proof (induction remaining finished rule: kahn.induct)
  case (1 remaining finished)
  define ready where "ready = ready_ids remaining finished"
  define rest where "rest = filter (\<lambda>n. node_id n \<notin> set ready) remaining"
  show ?case
  proof (cases "remaining = []")
    case True
    then show ?thesis by (simp add: kahn.simps)
  next
    case False
    then obtain n0 where "n0 \<in> set remaining" by (cases remaining) auto
    moreover have "wf (edges_of remaining)" using "1.prems"(1) by (simp add: finite_acyclic_wf)
    ultimately obtain j where j: "j \<in> ids_of remaining"
      "\<And>i. (i, j) \<in> edges_of remaining \<Longrightarrow> i \<notin> ids_of remaining"
      using wfE_min [of "edges_of remaining" "node_id n0" "ids_of remaining"] by (auto simp: ids_of_def)
    then obtain n where n: "n \<in> set remaining" "node_id n = j" by (auto simp: ids_of_def)
    have "set (inputs n) \<subseteq> finished"
    proof
      fix i assume "i \<in> set (inputs n)"
      with n have e: "(i, j) \<in> edges_of remaining" by (auto simp: edges_of_iff)
      then have "i \<in> finished \<union> ids_of remaining" using "1.prems"(2) by (blast intro: DomainI)
      with j(2) [OF e] show "i \<in> finished" by simp
    qed
    with n have "j \<in> set ready" by (auto simp: ready_def ready_ids_iff)
    then have ne: "ready \<noteq> []" by auto
    have sub: "edges_of rest \<subseteq> edges_of remaining"
      by (rule edges_of_mono) (auto simp: rest_def)
    have "ids_of remaining \<subseteq> set ready \<union> ids_of rest" by (auto simp: ids_of_def rest_def)
    with "1.prems"(2) sub have "Domain (edges_of rest) \<subseteq> (set ready \<union> finished) \<union> ids_of rest"
      using Domain_mono [OF sub] by blast
    then have "kahn rest (set ready \<union> finished) = Inr ()"
      using "1.IH" [OF False ready_def ne] acyclic_subset [OF "1.prems"(1) sub]
      by (simp add: ready_def rest_def)
    with False ne show ?thesis
      by (subst kahn.simps) (simp add: ready_def rest_def Let_def)
  qed
qed

lemma assert_acyclic_iff:
  assumes "distinct (map node_id (nodes g))" "Domain (edges_of (nodes g)) \<subseteq> ids_of (nodes g)"
  shows "assert_acyclic g = (if acyclic (edges_of (nodes g)) then Inr () else Inl Cyclic)"
proof (cases "assert_acyclic g")
  case (Inl e)
  with assms kahn_complete [of "nodes g" "{}"] kahn_only_cyclic [of "nodes g" "{}" e] show ?thesis
    by (auto simp: assert_acyclic_def)
next
  case (Inr u)
  with assms kahn_sound [of "nodes g"] show ?thesis by (simp add: assert_acyclic_def)
qed

lemma referenced_eq: "referenced g = Domain (edges_of (nodes g))"
  by (auto simp: referenced_def Domain_edges_of)

definition well_formed_graph :: "WorkflowGraph \<Rightarrow> bool" where
  "well_formed_graph g \<longleftrightarrow>
     nodes g \<noteq> [] \<and> distinct (map node_id (nodes g))
     \<and> Domain (edges_of (nodes g)) \<subseteq> ids_of (nodes g)
     \<and> acyclic (edges_of (nodes g))
     \<and> card (ids_of (nodes g) - Domain (edges_of (nodes g))) = 1"

lemma terminals_card:
  assumes "distinct (map node_id (nodes g))"
  shows "terminals g = card (ids_of (nodes g) - Domain (edges_of (nodes g)))"
proof -
  let ?ts = "filter (\<lambda>n. node_id n \<notin> referenced g) (nodes g)"
  have "terminals g = card (set (map node_id ?ts))"
    using distinct_card [OF distinct_map_filter [OF assms], of "\<lambda>n. node_id n \<notin> referenced g"]
    by (simp add: terminals_def)
  also have "set (map node_id ?ts) = ids_of (nodes g) - Domain (edges_of (nodes g))"
    by (auto simp: ids_of_def referenced_eq)
  finally show ?thesis .
qed

lemma validate_well_formed:
  "validate g = Inr () \<longleftrightarrow> well_formed_graph g"
proof -
  have dup: "first_duplicate {} (nodes g) = None \<longleftrightarrow> distinct (map node_id (nodes g))"
    by (simp add: first_duplicate_None)
  have inp: "first_unknown_input (node_id ` set (nodes g)) (nodes g) = None \<longleftrightarrow>
      Domain (edges_of (nodes g)) \<subseteq> ids_of (nodes g)"
    by (simp add: first_unknown_input_None ids_of_def)
  show ?thesis
  proof (cases "distinct (map node_id (nodes g)) \<and> Domain (edges_of (nodes g)) \<subseteq> ids_of (nodes g)")
    case True
    with dup inp show ?thesis
      by (simp add: validate_def well_formed_graph_def assert_acyclic_iff terminals_card)
  next
    case False
    with dup inp show ?thesis
      by (auto simp: validate_def well_formed_graph_def split: option.split)
  qed
qed

text \<open>
  C1: Validation admits exactly the well-formed workflow graphs: non-empty, with unique node ids, every
  input naming a node, no cycle in the edge relation the inputs induce, and exactly one node that no
  other node reads. Both directions are proved, so Kahn's loop neither passes a cyclic graph nor
  refuses an acyclic one.
\<close>

theorem validate_iff_well_formed:
  "validate g = Inr () \<longleftrightarrow> well_formed_graph g"
  by (rule validate_well_formed)

text \<open>
  Every refusal of validation names a real defect of the graph: an empty graph, an id two nodes
  share, an input of a node that is no node's id, a cycle in a graph without the former defects, or the
  true number of terminal nodes, which is not one.
\<close>

theorem validate_refusal_is_real:
  "case validate g of
     Inr _ \<Rightarrow> True
   | Inl Empty \<Rightarrow> nodes g = []
   | Inl (DuplicateNode d) \<Rightarrow> d \<in> ids_of (nodes g) \<and> \<not> distinct (map node_id (nodes g))
   | Inl (UnknownInput n i) \<Rightarrow> (i, n) \<in> edges_of (nodes g) \<and> i \<notin> ids_of (nodes g)
   | Inl Cyclic \<Rightarrow> Domain (edges_of (nodes g)) \<subseteq> ids_of (nodes g) \<and> \<not> acyclic (edges_of (nodes g))
   | Inl (NotSingleTerminal k) \<Rightarrow>
       acyclic (edges_of (nodes g)) \<and> k = card (ids_of (nodes g) - Domain (edges_of (nodes g))) \<and> k \<noteq> 1"
proof -
  let ?dup = "first_duplicate {} (nodes g)"
  let ?inp = "first_unknown_input (node_id ` set (nodes g)) (nodes g)"
  consider "nodes g = []" | d where "nodes g \<noteq> []" "?dup = Some d"
    | n i where "nodes g \<noteq> []" "?dup = None" "?inp = Some (n, i)"
    | "nodes g \<noteq> []" "?dup = None" "?inp = None"
    by (cases ?dup; cases ?inp) auto
  then show ?thesis
  proof cases
    case 1
    then show ?thesis by (simp add: validate_def)
  next
    case (2 d)
    then show ?thesis using first_duplicate_Some [of "{}" "nodes g" d] by (simp add: validate_def)
  next
    case (3 n i)
    then show ?thesis
      using first_unknown_input_Some [of "node_id ` set (nodes g)" "nodes g" n i]
      by (simp add: validate_def ids_of_def)
  next
    case 4
    moreover from this have "distinct (map node_id (nodes g))" by (simp add: first_duplicate_None)
    moreover from 4 have "Domain (edges_of (nodes g)) \<subseteq> ids_of (nodes g)"
      by (simp add: first_unknown_input_None ids_of_def)
    ultimately show ?thesis by (simp add: validate_def assert_acyclic_iff terminals_card)
  qed
qed

text \<open>
  C37: In a validated graph every node matters: \<open>terminal\<close> returns a node that no node reads, and every
  node of the graph leads to it along input edges, so no node's work is outside the workflow's answer.
\<close>

theorem validated_nodes_reach_terminal:
  assumes "validate g = Inr ()"
  shows "\<exists>t. terminal g = Some t \<and> t \<in> set (nodes g) \<and> node_id t \<notin> referenced g
    \<and> ids_of (nodes g) \<subseteq> {i. (i, node_id t) \<in> (edges_of (nodes g))\<^sup>*}"
proof -
  have wf: "well_formed_graph g" using assms by (simp add: validate_well_formed)
  then obtain z where z: "ids_of (nodes g) - Domain (edges_of (nodes g)) = {z}"
    by (auto simp: well_formed_graph_def card_1_singleton_iff)
  then have "z \<in> ids_of (nodes g)" "z \<notin> referenced g" by (auto simp: referenced_eq)
  then obtain n where n: "n \<in> set (nodes g)" "node_id n \<notin> referenced g" by (auto simp: ids_of_def)
  then obtain t where t: "terminal g = Some t"
    by (cases "terminal g") (auto simp: terminal_def find_None_iff)
  then have tn: "t \<in> set (nodes g)" "node_id t \<notin> referenced g"
    by (auto simp: terminal_def find_Some_iff)
  with z have tz: "node_id t = z" by (auto simp: ids_of_def referenced_eq)
  have "wf ((edges_of (nodes g))\<inverse>)"
    using wf by (simp add: well_formed_graph_def finite_acyclic_wf_converse)
  then have "i \<in> ids_of (nodes g) \<Longrightarrow> (i, z) \<in> (edges_of (nodes g))\<^sup>*" for i
  proof (induction i)
    case (less i)
    show ?case
    proof (cases "i \<in> Domain (edges_of (nodes g))")
      case True
      then obtain j where j: "(i, j) \<in> edges_of (nodes g)" by auto
      then have "j \<in> ids_of (nodes g)" by (auto simp: edges_of_iff ids_of_def)
      with less.IH [of j] j show ?thesis by (auto intro: converse_rtrancl_into_rtrancl)
    next
      case False
      with less.prems z have "i = z" by auto
      then show ?thesis by simp
    qed
  qed
  with t tn tz show ?thesis by auto
qed

text \<open>A diamond: two reviewers read a plan, and a merge reads both.\<close>

definition example_node :: "string \<Rightarrow> string list \<Rightarrow> WorkflowNode" where
  "example_node i ins = \<lparr>node_id = i, agent = ''codex'', node_model = None, node_effort = None, node_mode = None,
     prompt_template = ''{{input}}'', inputs = ins, retry = None, harvest_sanitization = None\<rparr>"

definition example_graph :: WorkflowGraph where
  "example_graph = \<lparr>graph_id = ''review'', nodes = [example_node ''merge'' [''a'', ''b''],
     example_node ''a'' [''plan''], example_node ''b'' [''plan''], example_node ''plan'' []], panel = None, controls = None\<rparr>"

theorem validated_nodes_reach_terminal_witness:
  "\<exists>t. terminal example_graph = Some t
    \<and> ids_of (nodes example_graph) \<subseteq> {i. (i, node_id t) \<in> (edges_of (nodes example_graph))\<^sup>*}"
proof -
  have "validate example_graph = Inr ()" by code_simp
  from validated_nodes_reach_terminal [OF this] show ?thesis by blast
qed

end
