(* ===== verification/Byte_Encoding.thy ===== *)
theory Byte_Encoding
  imports Execution_Policy
begin

text \<open>
  The canonical byte encodings of frozen identities: \<open>push_bytes\<close>, \<open>push_option\<close> and \<open>push_bool\<close> of
  \<open>execution_policy.rs\<close>, on big-endian integers. The locale \<open>framed_code\<close> states that an encoded value
  can be split off the front of a longer list of bytes; lengths are encoded in eight bytes, so it asks
  the values to fit them. Every encoder interprets it, and injectivity of the digests' preimages
  follows from it.
\<close>

section \<open>The encoders\<close>

text \<open>\<open>to_be_bytes\<close> of an integer of \<open>k\<close> bytes; \<open>as u64\<close> of a length wraps as the division does.\<close>

primrec be_bytes :: "nat \<Rightarrow> nat \<Rightarrow> u8 list" where
  "be_bytes 0 n = []"
| "be_bytes (Suc k) n = of_nat (n div 256 ^ k) # be_bytes k n"

definition push_bytes :: "u8 list \<Rightarrow> u8 list \<Rightarrow> u8 list" where
  "push_bytes target v = target @ be_bytes 8 (length v) @ v"

definition push_option :: "u8 list \<Rightarrow> string option \<Rightarrow> u8 list" where
  "push_option target v =
     (case v of Some x \<Rightarrow> push_bytes (target @ [1]) (str_bytes x) | None \<Rightarrow> target @ [0])"

definition push_bool :: "u8 list \<Rightarrow> bool \<Rightarrow> u8 list" where
  "push_bool target b = target @ [if b then 1 else 0]"

section \<open>Framed codes\<close>

locale framed_code =
  fixes enc :: "'a \<Rightarrow> 'b list" and fits :: "'a \<Rightarrow> bool"
  assumes split_off: "fits x \<Longrightarrow> fits y \<Longrightarrow> enc x @ s = enc y @ t \<Longrightarrow> x = y \<and> s = t"
begin

lemma enc_append_iff: "fits x \<Longrightarrow> fits y \<Longrightarrow> enc x @ s = enc y @ t \<longleftrightarrow> x = y \<and> s = t"
  using split_off by blast

lemma enc_inject: "fits x \<Longrightarrow> fits y \<Longrightarrow> enc x = enc y \<longleftrightarrow> x = y"
  using split_off [of x y "[]" "[]"] by auto

text \<open>A sequence of known length can be split off.\<close>

lemma sized_split:
  "length xs = length ys \<Longrightarrow> list_all fits xs \<Longrightarrow> list_all fits ys
     \<Longrightarrow> concat (map enc xs) @ s = concat (map enc ys) @ t \<Longrightarrow> xs = ys \<and> s = t"
proof (induction xs ys rule: list_induct2)
  case (Cons x xs y ys)
  then have "x = y" "concat (map enc xs) @ s = concat (map enc ys) @ t"
    using split_off [of x y "concat (map enc xs) @ s" "concat (map enc ys) @ t"] by simp_all
  with Cons show ?case by simp
qed simp

end

section \<open>Integers\<close>

lemma length_be_bytes [simp]: "length (be_bytes k n) = k"
  by (induction k) simp_all

lemma be_bytes_eq_iff: "be_bytes k m = be_bytes k n \<longleftrightarrow> m mod 256 ^ k = n mod 256 ^ k"
proof (induction k)
  case (Suc k)
  have split: "x mod 256 ^ Suc k = 256 ^ k * (x div 256 ^ k mod 256) + x mod 256 ^ k" for x :: nat
    by (metis mod_mult2_eq power_Suc2)
  have "(of_nat a :: u8) = of_nat b \<longleftrightarrow> a mod 256 = b mod 256" for a b
    by (simp add: word_unat_eq_iff unat_of_nat)
  then have "be_bytes (Suc k) m = be_bytes (Suc k) n \<longleftrightarrow>
      m div 256 ^ k mod 256 = n div 256 ^ k mod 256 \<and> m mod 256 ^ k = n mod 256 ^ k"
    using Suc by simp
  also have "\<dots> \<longleftrightarrow> m mod 256 ^ Suc k = n mod 256 ^ Suc k"
  proof
    assume eq: "m mod 256 ^ Suc k = n mod 256 ^ Suc k"
    have "x mod 256 ^ Suc k div 256 ^ k = x div 256 ^ k mod 256 \<and> x mod 256 ^ Suc k mod 256 ^ k = x mod 256 ^ k" for x :: nat
      unfolding split by simp
    with eq show "m div 256 ^ k mod 256 = n div 256 ^ k mod 256 \<and> m mod 256 ^ k = n mod 256 ^ k" by metis
  qed (simp only: split)
  finally show ?case .
qed simp

interpretation be_code: framed_code "be_bytes k" "\<lambda>n. n < 256 ^ k"
  by unfold_locales (simp add: append_eq_append_conv be_bytes_eq_iff)

lemma be_word_inject:
  fixes v w :: "'w::len word"
  assumes "2 ^ LENGTH('w) \<le> (256 :: nat) ^ k"
  shows "be_bytes k (unat v) = be_bytes k (unat w) \<longleftrightarrow> v = w"
proof -
  have "unat x < 256 ^ k" for x :: "'w word" using unsigned_less [of x] assms by (rule less_le_trans)
  then show ?thesis by (simp add: be_bytes_eq_iff word_unat_eq_iff)
qed

lemmas be_int_inject [simp] =
  be_word_inject [where ?'w = 16 and k = 2, simplified]
  be_word_inject [where ?'w = 32 and k = 4, simplified]
  be_word_inject [where ?'w = 64 and k = 8, simplified]

section \<open>Byte strings, options and lists\<close>

definition enc_bytes :: "u8 list \<Rightarrow> u8 list" where
  "enc_bytes v = be_bytes 8 (length v) @ v"

definition enc_str :: "string \<Rightarrow> u8 list" where
  "enc_str s = enc_bytes (str_bytes s)"

definition enc_option :: "('a \<Rightarrow> u8 list) \<Rightarrow> 'a option \<Rightarrow> u8 list" where
  "enc_option enc v = (case v of None \<Rightarrow> [0] | Some x \<Rightarrow> 1 # enc x)"

definition enc_list :: "('a \<Rightarrow> u8 list) \<Rightarrow> 'a list \<Rightarrow> u8 list" where
  "enc_list enc xs = be_bytes 8 (length xs) @ concat (map enc xs)"

definition short :: "'a list \<Rightarrow> bool" where
  "short xs \<longleftrightarrow> length xs < 2 ^ 64"

abbreviation short_option :: "'a list option \<Rightarrow> bool" where
  "short_option v \<equiv> pred_option short v"

lemma foldl_push: "(\<And>t x. f t x = t @ e x) \<Longrightarrow> foldl f target xs = target @ concat (map e xs)"
  by (induction xs arbitrary: target) simp_all

lemma push_bytes_enc: "push_bytes target v = target @ enc_bytes v"
  by (simp add: push_bytes_def enc_bytes_def)

lemma push_option_enc: "push_option target v = target @ enc_option enc_str v"
  by (simp add: push_option_def push_bytes_enc enc_option_def enc_str_def split: option.splits)

lemma str_bytes_inject: "str_bytes s = str_bytes t \<longleftrightarrow> s = t"
proof -
  have "inj (\<lambda>c. of_nat (of_char c) :: u8)"
  proof (rule injI)
    fix c d :: char
    assume "(of_nat (of_char c) :: u8) = of_nat (of_char d)"
    then have "unat (of_nat (of_char c) :: u8) = unat (of_nat (of_char d) :: u8)" by simp
    moreover have "of_char x < (256 :: nat)" for x by (rule nat_of_char_less_256)
    ultimately have "(of_char c :: nat) = of_char d" by (simp add: unat_of_nat)
    then show "c = d" by simp
  qed
  then show ?thesis by (simp add: str_bytes_def inj_map_eq_map)
qed

lemma digest_inject: "Sha256HexV1_digest sha a = Sha256HexV1_digest sha b \<longleftrightarrow> sha a = sha b"
  by (metis Sha256HexV1_digest_def unhex_hex_bytes)

lemma length_str_bytes [simp]: "length (str_bytes s) = length s"
  by (simp add: str_bytes_def)

lemma short_length_append_iff:
  "short xs \<Longrightarrow> short ys \<Longrightarrow> be_bytes 8 (length xs) @ s = be_bytes 8 (length ys) @ t \<longleftrightarrow> length xs = length ys \<and> s = t"
  by (simp add: short_def be_bytes_eq_iff)

lemma short_str_bytes [simp]: "short (str_bytes s) \<longleftrightarrow> short s"
  by (simp add: short_def)

interpretation bytes_code: framed_code enc_bytes short
proof
  fix x y s t :: "u8 list"
  assume "short x" "short y" "enc_bytes x @ s = enc_bytes y @ t"
  then have "length x = length y" "x @ s = y @ t"
    unfolding enc_bytes_def append_assoc by (auto simp only: short_length_append_iff)
  then show "x = y \<and> s = t" by (simp add: append_eq_append_conv)
qed

interpretation str_code: framed_code enc_str short
  by unfold_locales (simp add: enc_str_def bytes_code.enc_append_iff str_bytes_inject)

lemma framed_option:
  assumes "framed_code enc fits"
  shows "framed_code (enc_option enc) (pred_option fits)"
proof
  fix x y s t
  assume "pred_option fits x" "pred_option fits y" "enc_option enc x @ s = enc_option enc y @ t"
  then show "x = y \<and> s = t"
    by (cases x; cases y) (auto simp: enc_option_def framed_code.enc_append_iff [OF assms])
qed

lemma framed_list:
  assumes "framed_code enc fits"
  shows "framed_code (enc_list enc) (\<lambda>xs. short xs \<and> list_all fits xs)"
proof
  fix xs ys s t
  assume fit: "short xs \<and> list_all fits xs" "short ys \<and> list_all fits ys"
    and eq: "enc_list enc xs @ s = enc_list enc ys @ t"
  then have "length xs = length ys" "concat (map enc xs) @ s = concat (map enc ys) @ t"
    unfolding enc_list_def append_assoc by (auto simp only: short_length_append_iff)
  with fit show "xs = ys \<and> s = t" using framed_code.sized_split [OF assms] by blast
qed

interpretation option_code: framed_code "enc_option enc_str" short_option
  by (rule framed_option) (rule str_code.framed_code_axioms)

interpretation strings_code: framed_code "enc_list enc_str" "\<lambda>xs. short xs \<and> list_all short xs"
  by (rule framed_list) (rule str_code.framed_code_axioms)

end
