(* ===== verification/Workflow_Fingerprint.thy ===== *)
theory Workflow_Fingerprint
  imports Workflow_Graph Byte_Encoding
begin

text \<open>
  The workload fingerprint of a graph (\<open>graph.rs\<close>, \<open>workload_fingerprint_with_activation\<close> and its
  helpers; \<open>fingerprint_workload_shape\<close> of \<open>workflow_history.rs\<close>). The canonical text is built by
  pushes onto a target, as in the source. The registry look-up \<open>configured_effective\<close> is an argument,
  and SHA-256 is the parameter \<open>sha\<close>. The encoders are prefix codes: the locale \<open>prefix_code\<close> states
  that an encoded value can be split off the front of a longer text, and every encoder interprets it.
\<close>

section \<open>The canonical text\<close>

definition push_field :: "string \<Rightarrow> string \<Rightarrow> string" where
  "push_field target v = target @ show_nat (length v) @ '':'' @ v"

definition push_optional :: "string \<Rightarrow> string option \<Rightarrow> string" where
  "push_optional target v =
     (case v of Some x \<Rightarrow> push_field (target @ ''1'') x | None \<Rightarrow> target @ ''0'')"

definition push_effective_config :: "string \<Rightarrow> EffectiveConfig \<Rightarrow> string" where
  "push_effective_config target config =
     push_optional (push_optional (push_optional target (model config))
       (map_option effort_name (effort config))) (mode config)"

text \<open>The configured values of the node's agent, overridden by the node.\<close>

definition node_config :: "(string \<Rightarrow> EffectiveConfig option) \<Rightarrow> WorkflowNode \<Rightarrow> EffectiveConfig option" where
  "node_config configured_effective n =
     (case configured_effective (agent n) of
        None \<Rightarrow> None
      | Some config \<Rightarrow>
          let config = (case node_model n of Some v \<Rightarrow> config\<lparr>model := Some v\<rparr> | None \<Rightarrow> config);
              config = (case node_effort n of Some v \<Rightarrow> config\<lparr>effort := Some v\<rparr> | None \<Rightarrow> config);
              config = (case node_mode n of Some v \<Rightarrow> config\<lparr>mode := Some v\<rparr> | None \<Rightarrow> config)
          in Some config)"

definition push_config :: "string \<Rightarrow> EffectiveConfig option \<Rightarrow> string" where
  "push_config target config =
     (case config of Some c \<Rightarrow> push_effective_config (target @ ''1'') c | None \<Rightarrow> target @ ''0'')"

definition push_inputs :: "string \<Rightarrow> string list \<Rightarrow> string" where
  "push_inputs target ins =
     foldl push_field (target @ ''i'' @ show_nat (length ins) @ '':'') ins"

definition push_retry :: "string \<Rightarrow> RetryPolicy option \<Rightarrow> string" where
  "push_retry target r =
     (case r of
        Some p \<Rightarrow> target @ ''1'' @ show_nat (unat (max_attempts p)) @ '':'' @ show_nat (unat (backoff_ms p)) @ '':''
          @ show_nat (unat (case backoff_cap_ms p of None \<Rightarrow> - 1 | Some cap \<Rightarrow> cap)) @ '';''
      | None \<Rightarrow> target @ ''0'')"

definition push_node :: "(string \<Rightarrow> EffectiveConfig option) \<Rightarrow> string \<Rightarrow> WorkflowNode \<Rightarrow> string" where
  "push_node configured_effective target n =
     (let target = push_field (push_field (target @ ''n'') (node_id n)) (agent n);
          target = push_config target (node_config configured_effective n);
          target = push_inputs target (sort (inputs n))
      in push_retry target (retry n))"

definition push_activation :: "string \<Rightarrow> DeadlineActivationV2 \<Rightarrow> string" where
  "push_activation target act =
     (case act of ManualOnlyR2f1a \<Rightarrow> target
      | AutomaticR2f1b \<Rightarrow> push_field (target @ ''a'') ''automatic_r2f1b'')"

definition push_weight :: "string \<Rightarrow> string \<times> u64 \<Rightarrow> string" where
  "push_weight target w = push_field target (fst w) @ show_hex 16 (unat (snd w)) @ '';''"

definition push_panel :: "string \<Rightarrow> (string \<times> u64) list option \<Rightarrow> string" where
  "push_panel target p =
     (case p of Some weights \<Rightarrow> foldl push_weight (target @ ''p'') weights | None \<Rightarrow> target @ ''q'')"

definition sorted_nodes :: "WorkflowGraph \<Rightarrow> WorkflowNode list" where
  "sorted_nodes g = sort_key node_id (nodes g)"

definition workload_canonical ::
  "WorkflowGraph \<Rightarrow> DeadlineActivationV2 \<Rightarrow> (string \<Rightarrow> EffectiveConfig option) \<Rightarrow> string" where
  "workload_canonical g act configured_effective =
     push_panel (push_activation
       (foldl (push_node configured_effective) (push_field [] (graph_id g)) (sorted_nodes g)) act) (panel g)"

definition fingerprint_workload_shape :: "(u8 list \<Rightarrow> u8 list) \<Rightarrow> u8 list \<Rightarrow> string" where
  "fingerprint_workload_shape sha canonical = ''shape-'' @ hex_bytes (sha canonical)"

definition workload_fingerprint_with_activation ::
  "(u8 list \<Rightarrow> u8 list) \<Rightarrow> WorkflowGraph \<Rightarrow> DeadlineActivationV2 \<Rightarrow> (string \<Rightarrow> EffectiveConfig option)
     \<Rightarrow> string \<times> bool" where
  "workload_fingerprint_with_activation sha g act configured_effective =
     (fingerprint_workload_shape sha (str_bytes (workload_canonical g act configured_effective)),
      list_all (\<lambda>n. configured_effective (agent n) \<noteq> None) (sorted_nodes g))"

definition workload_fingerprint_with ::
  "(u8 list \<Rightarrow> u8 list) \<Rightarrow> WorkflowGraph \<Rightarrow> (string \<Rightarrow> EffectiveConfig option) \<Rightarrow> string \<times> bool" where
  "workload_fingerprint_with sha g =
     workload_fingerprint_with_activation sha g
       (deadline_activation_v2_for scheduler_activation_readiness_v1 Production)"

section \<open>Prefix codes\<close>

locale prefix_code =
  fixes enc :: "'a \<Rightarrow> 'b list"
  assumes split_off: "enc x @ s = enc y @ t \<Longrightarrow> x = y \<and> s = t"
begin

lemma enc_inject: "enc x = enc y \<longleftrightarrow> x = y"
  using split_off [of x "[]" y "[]"] by auto

lemma enc_append_iff: "enc x @ s = enc y @ t \<longleftrightarrow> x = y \<and> s = t"
  using split_off by auto

text \<open>A sequence of known length can be split off.\<close>

lemma sized_split:
  "length xs = length ys \<Longrightarrow> concat (map enc xs) @ s = concat (map enc ys) @ t \<Longrightarrow> xs = ys \<and> s = t"
proof (induction xs ys rule: list_induct2)
  case (Cons x xs y ys)
  then show ?case using split_off [of x _ y _] by simp
qed simp

text \<open>So can a sequence whose items start with a mark that what follows does not start with.\<close>

lemma marked_split:
  assumes mark: "\<And>x. \<exists>c cs. enc x = c # cs \<and> P c"
    and stop: "\<And>c cs. s = c # cs \<Longrightarrow> \<not> P c" "\<And>c cs. t = c # cs \<Longrightarrow> \<not> P c"
  shows "concat (map enc xs) @ s = concat (map enc ys) @ t \<Longrightarrow> xs = ys \<and> s = t"
proof (induction xs arbitrary: ys)
  case Nil
  show ?case
  proof (cases ys)
    case (Cons y ys')
    obtain c cs where "enc y = c # cs" "P c" using mark by blast
    with Cons Nil stop(1) show ?thesis by auto
  qed (use Nil in simp)
next
  case (Cons x xs)
  obtain c cs where x: "enc x = c # cs" "P c" using mark by blast
  show ?case
  proof (cases ys)
    case Nil
    with Cons.prems x stop(2) show ?thesis by auto
  next
    case (Cons y ys')
    with Cons.prems have "enc x @ (concat (map enc xs) @ s) = enc y @ (concat (map enc ys') @ t)" by simp
    then have "x = y" "concat (map enc xs) @ s = concat (map enc ys') @ t" using split_off by blast+
    with Cons.IH [of ys'] Cons show ?thesis by simp
  qed
qed

end

sublocale prefix_code \<subseteq> framed: framed_code enc "\<lambda>_. True"
  by unfold_locales (rule split_off)

section \<open>The encoders are prefix codes\<close>

text \<open>The text each push appends.\<close>

definition config_fields :: "EffectiveConfig \<Rightarrow> string option \<times> string option \<times> string option" where
  "config_fields c = (model c, map_option effort_name (effort c), mode c)"

definition retry_fields :: "RetryPolicy \<Rightarrow> u32 \<times> u64 \<times> u64" where
  "retry_fields p = (max_attempts p, backoff_ms p, case backoff_cap_ms p of None \<Rightarrow> - 1 | Some cap \<Rightarrow> cap)"

type_synonym node_shape =
  "string \<times> string \<times> (string option \<times> string option \<times> string option) option \<times> string list \<times> (u32 \<times> u64 \<times> u64) option"

definition node_shape :: "(string \<Rightarrow> EffectiveConfig option) \<Rightarrow> WorkflowNode \<Rightarrow> node_shape" where
  "node_shape configured_effective n =
     (node_id n, agent n, map_option config_fields (node_config configured_effective n), sort (inputs n),
      map_option retry_fields (retry n))"

definition enc_field :: "string \<Rightarrow> string" where
  "enc_field v = show_nat (length v) @ '':'' @ v"

fun enc_tagged :: "('a \<Rightarrow> string) \<Rightarrow> 'a option \<Rightarrow> string" where
  "enc_tagged e (Some x) = ''1'' @ e x"
| "enc_tagged e None = ''0''"

definition enc_config :: "string option \<times> string option \<times> string option \<Rightarrow> string" where
  "enc_config c = enc_tagged enc_field (fst c) @ enc_tagged enc_field (fst (snd c)) @ enc_tagged enc_field (snd (snd c))"

definition enc_inputs :: "string list \<Rightarrow> string" where
  "enc_inputs ins = ''i'' @ show_nat (length ins) @ '':'' @ concat (map enc_field ins)"

definition enc_retry :: "u32 \<times> u64 \<times> u64 \<Rightarrow> string" where
  "enc_retry r = show_nat (unat (fst r)) @ '':'' @ show_nat (unat (fst (snd r))) @ '':''
     @ show_nat (unat (snd (snd r))) @ '';''"

definition enc_node :: "node_shape \<Rightarrow> string" where
  "enc_node n = ''n'' @ enc_field (fst n) @ enc_field (fst (snd n)) @ enc_tagged enc_config (fst (snd (snd n)))
     @ enc_inputs (fst (snd (snd (snd n)))) @ enc_tagged enc_retry (snd (snd (snd (snd n))))"

definition enc_weight :: "string \<times> u64 \<Rightarrow> string" where
  "enc_weight w = enc_field (fst w) @ show_hex 16 (unat (snd w)) @ '';''"

lemma not_digit_marks [simp]: "\<not> is_digit CHR '':''" "\<not> is_digit CHR '';''" "\<not> is_digit CHR ''p''"
  "\<not> is_digit CHR ''q''"
  by (simp_all add: is_digit_def)

interpretation field: prefix_code enc_field
proof
  fix x y s t
  assume "enc_field x @ s = enc_field y @ t"
  then have "show_nat (length x) @ CHR '':'' # (x @ s) = show_nat (length y) @ CHR '':'' # (y @ t)"
    by (simp add: enc_field_def)
  from show_nat_span [OF this not_digit_marks(1) not_digit_marks(1)] show "x = y \<and> s = t"
    by (auto simp: append_eq_append_conv)
qed

lemma prefix_code_tagged: "prefix_code e \<Longrightarrow> prefix_code (enc_tagged e)"
proof
  fix x y s t
  assume e: "prefix_code e" and eq: "enc_tagged e x @ s = enc_tagged e y @ t"
  then show "x = y \<and> s = t"
    by (cases x; cases y) (auto dest: prefix_code.split_off)
qed

interpretation optional: prefix_code "enc_tagged enc_field"
  by (rule prefix_code_tagged) (rule field.prefix_code_axioms)

interpretation config: prefix_code enc_config
  by unfold_locales (auto simp: enc_config_def optional.enc_append_iff prod_eq_iff)

interpretation config_option: prefix_code "enc_tagged enc_config"
  by (rule prefix_code_tagged) (rule config.prefix_code_axioms)

interpretation input_list: prefix_code enc_inputs
proof
  fix x y s t
  assume "enc_inputs x @ s = enc_inputs y @ t"
  then have "show_nat (length x) @ CHR '':'' # (concat (map enc_field x) @ s) =
      show_nat (length y) @ CHR '':'' # (concat (map enc_field y) @ t)"
    by (simp add: enc_inputs_def)
  from show_nat_span [OF this not_digit_marks(1) not_digit_marks(1)] field.sized_split [of x y s t]
  show "x = y \<and> s = t" by simp
qed

interpretation retry: prefix_code enc_retry
proof
  fix x y :: "u32 \<times> u64 \<times> u64" and s t
  assume "enc_retry x @ s = enc_retry y @ t"
  then have "show_nat (unat (fst x)) @ CHR '':'' # (show_nat (unat (fst (snd x))) @ CHR '':'' #
        (show_nat (unat (snd (snd x))) @ CHR '';'' # s)) =
      show_nat (unat (fst y)) @ CHR '':'' # (show_nat (unat (fst (snd y))) @ CHR '':'' #
        (show_nat (unat (snd (snd y))) @ CHR '';'' # t))"
    by (simp add: enc_retry_def)
  note first = show_nat_span [OF this not_digit_marks(1) not_digit_marks(1)]
  note second = show_nat_span [OF first [THEN conjunct2, THEN conjunct2] not_digit_marks(1) not_digit_marks(1)]
  note third = show_nat_span [OF second [THEN conjunct2, THEN conjunct2] not_digit_marks(2) not_digit_marks(2)]
  from first second third show "x = y \<and> s = t" by (simp add: prod_eq_iff word_unat_eq_iff)
qed

interpretation retry_option: prefix_code "enc_tagged enc_retry"
  by (rule prefix_code_tagged) (rule retry.prefix_code_axioms)

interpretation node: prefix_code enc_node
  by unfold_locales
    (auto simp: enc_node_def field.enc_append_iff config_option.enc_append_iff input_list.enc_append_iff
      retry_option.enc_append_iff prod_eq_iff)

interpretation weight: prefix_code enc_weight
proof
  fix x y :: "string \<times> u64" and s t
  assume "enc_weight x @ s = enc_weight y @ t"
  then have "fst x = fst y" "show_hex 16 (unat (snd x)) @ '';'' @ s = show_hex 16 (unat (snd y)) @ '';'' @ t"
    using field.split_off [of "fst x" _ "fst y"] by (simp_all add: enc_weight_def)
  moreover from this have "show_hex 16 (unat (snd x)) = show_hex 16 (unat (snd y))" "s = t"
    by (simp_all add: append_eq_append_conv)
  moreover from this have "unat (snd x) = unat (snd y)"
    using show_hex_inject [of "unat (snd x)" 16 "unat (snd y)"] unat_u64_less by simp
  ultimately show "x = y \<and> s = t" by (simp add: prod_eq_iff word_unat_eq_iff)
qed

section \<open>The canonical text determines the shape\<close>

lemma push_field_eq: "push_field target v = target @ enc_field v"
  by (simp add: push_field_def enc_field_def)

lemma push_optional_eq: "push_optional target v = target @ enc_tagged enc_field v"
  by (cases v) (simp_all add: push_optional_def push_field_eq)

lemma push_config_eq: "push_config target c = target @ enc_tagged enc_config (map_option config_fields c)"
  by (cases c) (simp_all add: push_config_def push_effective_config_def push_optional_eq enc_config_def config_fields_def)

lemma push_inputs_eq: "push_inputs target ins = target @ enc_inputs ins"
  by (simp add: push_inputs_def enc_inputs_def foldl_push [of push_field enc_field] push_field_eq)

lemma push_retry_eq: "push_retry target r = target @ enc_tagged enc_retry (map_option retry_fields r)"
  by (cases r) (simp_all add: push_retry_def enc_retry_def retry_fields_def)

lemma push_node_eq: "push_node cfg target n = target @ enc_node (node_shape cfg n)"
  by (simp add: push_node_def push_field_eq push_config_eq push_inputs_eq push_retry_eq enc_node_def node_shape_def)

lemma push_weight_eq: "push_weight target w = target @ enc_weight w"
  by (simp add: push_weight_def enc_weight_def push_field_eq)

definition enc_tail :: "DeadlineActivationV2 \<Rightarrow> (string \<times> u64) list option \<Rightarrow> string" where
  "enc_tail act p = push_panel (push_activation [] act) p"

lemma enc_tail_eq:
  "enc_tail ManualOnlyR2f1a None = ''q''"
  "enc_tail ManualOnlyR2f1a (Some ws) = ''p'' @ concat (map enc_weight ws)"
  "enc_tail AutomaticR2f1b None = ''a'' @ enc_field ''automatic_r2f1b'' @ ''q''"
  "enc_tail AutomaticR2f1b (Some ws) = ''a'' @ enc_field ''automatic_r2f1b'' @ ''p'' @ concat (map enc_weight ws)"
  by (simp_all add: enc_tail_def push_panel_def push_activation_def push_field_eq
      foldl_push [of push_weight enc_weight] push_weight_eq)

lemma push_tail_eq: "push_panel (push_activation target act) p = target @ enc_tail act p"
  by (cases act; cases p)
    (simp_all add: enc_tail_def push_panel_def push_activation_def push_field_eq
      foldl_push [of push_weight enc_weight] push_weight_eq)

lemma workload_canonical_eq:
  "workload_canonical g act cfg =
     enc_field (graph_id g) @ concat (map enc_node (map (node_shape cfg) (sorted_nodes g))) @ enc_tail act (panel g)"
  by (simp add: workload_canonical_def push_tail_eq push_field_eq comp_def
      foldl_push [of "push_node cfg" "\<lambda>n. enc_node (node_shape cfg n)"] push_node_eq)

lemma weights_inject: "concat (map enc_weight ws) = concat (map enc_weight ws') \<longleftrightarrow> ws = ws'"
proof
  assume "concat (map enc_weight ws) = concat (map enc_weight ws')"
  moreover have "\<exists>c cs. enc_weight w = c # cs \<and> True" for w
    by (cases "enc_weight w") (auto simp: enc_weight_def enc_field_def)
  ultimately show "ws = ws'" using weight.marked_split [of "\<lambda>_. True" "[]" "[]" ws ws'] by simp
qed simp

lemma enc_tail_inject: "enc_tail act p = enc_tail act' p' \<longleftrightarrow> act = act' \<and> p = p'"
  by (cases act; cases act'; cases p; cases p') (simp_all add: enc_tail_eq weights_inject)

lemma enc_tail_start: "enc_tail act p = c # cs \<Longrightarrow> c \<noteq> CHR ''n''"
  by (cases act; cases p) (auto simp: enc_tail_eq)

definition same_shape ::
  "WorkflowGraph \<Rightarrow> DeadlineActivationV2 \<Rightarrow> (string \<Rightarrow> EffectiveConfig option)
     \<Rightarrow> WorkflowGraph \<Rightarrow> DeadlineActivationV2 \<Rightarrow> (string \<Rightarrow> EffectiveConfig option) \<Rightarrow> bool" where
  "same_shape g act cfg g' act' cfg' \<longleftrightarrow>
     graph_id g = graph_id g' \<and> map (node_shape cfg) (sorted_nodes g) = map (node_shape cfg') (sorted_nodes g')
     \<and> act = act' \<and> panel g = panel g'"

lemma workload_canonical_inject:
  "workload_canonical g act cfg = workload_canonical g' act' cfg' \<longleftrightarrow> same_shape g act cfg g' act' cfg'"
proof
  assume "workload_canonical g act cfg = workload_canonical g' act' cfg'"
  then have "graph_id g = graph_id g'"
    and nodes: "concat (map enc_node (map (node_shape cfg) (sorted_nodes g))) @ enc_tail act (panel g) =
      concat (map enc_node (map (node_shape cfg') (sorted_nodes g'))) @ enc_tail act' (panel g')"
    unfolding workload_canonical_eq field.enc_append_iff by blast+
  moreover have "\<exists>c cs. enc_node n = c # cs \<and> c = CHR ''n''" for n
    by (simp add: enc_node_def)
  ultimately show "same_shape g act cfg g' act' cfg'"
    using node.marked_split [of "\<lambda>c. c = CHR ''n''", OF _ _ _ nodes] enc_tail_start
    by (auto simp: same_shape_def enc_tail_inject)
next
  assume "same_shape g act cfg g' act' cfg'"
  then show "workload_canonical g act cfg = workload_canonical g' act' cfg'"
    unfolding workload_canonical_eq same_shape_def by metis
qed

text \<open>
  C10: Two workloads have the same fingerprint exactly when they have the same shape, unless SHA-256 itself
  collides on their two canonical texts. The shape is the graph id, the nodes in the order of their ids,
  each with its agent, effective configuration, sorted inputs and retry numbers, the deadline activation
  and the panel weights; no name, number or list can be read as another, whatever characters it contains.
\<close>

theorem fingerprint_iff_same_shape:
  assumes "inj_on sha {str_bytes (workload_canonical g act cfg), str_bytes (workload_canonical g' act' cfg')}"
  shows "fst (workload_fingerprint_with_activation sha g act cfg)
      = fst (workload_fingerprint_with_activation sha g' act' cfg') \<longleftrightarrow> same_shape g act cfg g' act' cfg'"
proof -
  have "hex_bytes (sha a) = hex_bytes (sha b) \<longleftrightarrow> sha a = sha b" for a b
    by (metis unhex_hex_bytes)
  moreover have "sha (str_bytes (workload_canonical g act cfg)) = sha (str_bytes (workload_canonical g' act' cfg'))
      \<longleftrightarrow> str_bytes (workload_canonical g act cfg) = str_bytes (workload_canonical g' act' cfg')"
    by (rule inj_on_eq_iff [OF assms]) simp_all
  ultimately show ?thesis
    unfolding workload_fingerprint_with_activation_def fingerprint_workload_shape_def fst_conv same_append_eq
    by (simp only: str_bytes_inject workload_canonical_inject)
qed

theorem fingerprint_iff_same_shape_witness:
  "fst (workload_fingerprint_with_activation (\<lambda>bs. bs) example_graph AutomaticR2f1b (\<lambda>_. None))
    \<noteq> fst (workload_fingerprint_with_activation (\<lambda>bs. bs) example_graph ManualOnlyR2f1a (\<lambda>_. None))"
  using fingerprint_iff_same_shape [of "\<lambda>bs. bs" example_graph AutomaticR2f1b "\<lambda>_. None" example_graph
      ManualOnlyR2f1a "\<lambda>_. None"]
  by (simp add: same_shape_def)

text \<open>An absent back-off cap, which means 30 seconds, has the shape of the largest cap.\<close>

lemma absent_cap_shape:
  "retry_fields \<lparr>max_attempts = a, backoff_ms = b, backoff_cap_ms = None\<rparr> =
     retry_fields \<lparr>max_attempts = a, backoff_ms = b, backoff_cap_ms = Some (- 1)\<rparr>"
  by (simp add: retry_fields_def)

end
