(* ===== verification/Template.thy ===== *)
theory Template
  imports Bridge_Prelude
begin

text \<open>
  Prompt templates (\<open>bridge-workflow/src/template.rs\<close>): one left-to-right pass that replaces each
  \<open>{{token}}\<close> by its value. The variables are a partial function from tokens to values.
\<close>

function render :: "(string \<Rightarrow> string option) \<Rightarrow> string \<Rightarrow> string" where
  "render vars rest =
     (case find_sub ''{{'' rest of
        None \<Rightarrow> rest
      | Some open \<Rightarrow>
          take open rest @
          (let after = drop (open + 2) rest in
           case find_sub ''}}'' after of
             Some close \<Rightarrow>
               (let token = take close after
                in (case vars token of Some v \<Rightarrow> v | None \<Rightarrow> ''{{'' @ token @ ''}}'')
                   @ render vars (drop (close + 2) after))
           | None \<Rightarrow> ''{{'' @ render vars after))"
  by auto
termination
  by (relation "measure (length \<circ> snd)") (auto dest!: find_sub_bound)

declare render.simps [simp del]

section \<open>Templates by their segments\<close>

datatype segment = Text string | Var string

fun write_segment :: "segment \<Rightarrow> string" where
  "write_segment (Text t) = t"
| "write_segment (Var token) = ''{{'' @ token @ ''}}''"

fun fill_segment :: "(string \<Rightarrow> string option) \<Rightarrow> segment \<Rightarrow> string" where
  "fill_segment vars (Text t) = t"
| "fill_segment vars (Var token) = (case vars token of Some v \<Rightarrow> v | None \<Rightarrow> write_segment (Var token))"

text \<open>A text that cannot be taken for a delimiter, alone or with what follows it.\<close>

definition free_of :: "char \<Rightarrow> string \<Rightarrow> bool" where
  "free_of c t \<longleftrightarrow> find_sub [c, c] t = None \<and> (t = [] \<or> last t \<noteq> c)"

fun segment_ok :: "segment \<Rightarrow> bool" where
  "segment_ok (Text t) \<longleftrightarrow> free_of CHR ''{'' t"
| "segment_ok (Var token) \<longleftrightarrow> free_of CHR ''}'' token"

lemma starts_with_pair: "starts_with [c, c] s \<longleftrightarrow> (\<exists>t. s = c # c # t)"
  unfolding starts_with_def not_None_eq strip_prefix_Some_iff by simp

lemma find_sub_pair: "find_sub [c, c] (c # c # rest) = Some 0"
  by (simp add: starts_with_pair)

lemma find_sub_skip:
  "free_of c t \<Longrightarrow> find_sub [c, c] (t @ rest) = map_option ((+) (length t)) (find_sub [c, c] rest)"
proof (induction t)
  case Nil
  show ?case by (cases "find_sub [c, c] rest") simp_all
next
  case (Cons a t)
  have no: "\<not> starts_with [c, c] (a # t @ rest)"
    using Cons.prems by (cases t) (auto simp: free_of_def starts_with_pair split: if_splits)
  have "free_of c t" using Cons.prems by (auto simp: free_of_def split: if_splits)
  with no Cons.IH show ?case
    by (cases "find_sub [c, c] rest") simp_all
qed

lemma render_text:
  assumes "free_of CHR ''{'' t"
  shows "render vars (t @ rest) = t @ render vars rest"
proof (cases "find_sub ''{{'' rest")
  case None
  then have "find_sub ''{{'' (t @ rest) = None" by (simp add: find_sub_skip [OF assms])
  with None show ?thesis by (simp add: render.simps [of vars rest] render.simps [of vars "t @ rest"])
next
  case (Some k)
  then have "find_sub ''{{'' (t @ rest) = Some (length t + k)" by (simp add: find_sub_skip [OF assms])
  with Some show ?thesis
    by (simp add: render.simps [of vars rest] render.simps [of vars "t @ rest"])
qed

lemma render_var:
  assumes "free_of CHR ''}'' token"
  shows "render vars (write_segment (Var token) @ rest) = fill_segment vars (Var token) @ render vars rest"
proof -
  have "find_sub ''}}'' (token @ ''}}'' @ rest) = Some (length token)"
    using find_sub_skip [OF assms, of "''}}'' @ rest"] find_sub_pair [of "CHR ''}''" rest] by simp
  moreover have "find_sub ''{{'' (write_segment (Var token) @ rest) = Some 0"
    using find_sub_pair [of "CHR ''{''" "token @ ''}}'' @ rest"] by simp
  moreover have "drop (0 + 2) (write_segment (Var token) @ rest) = token @ ''}}'' @ rest" by simp
  ultimately show ?thesis
    by (subst render.simps) (simp split: option.split)
qed

text \<open>
  A template is filled in one pass. For a template of texts and variables whose texts and names cannot
  be taken for the delimiters, the result is the texts unchanged and, for every variable, its value
  verbatim, or the variable itself when it has no value. The values are arbitrary: delimiters inside a
  value are never expanded again.
\<close>

theorem render_fills_segments:
  assumes "list_all segment_ok segments"
  shows "render vars (concat (map write_segment segments)) = concat (map (fill_segment vars) segments)"
  using assms
proof (induction segments)
  case Nil
  show ?case by (simp add: render.simps)
next
  case (Cons x segments)
  then show ?case
    by (cases x) (simp_all add: render_text render_var del: write_segment.simps(2))
qed

theorem render_fills_segments_witness:
  "render (\<lambda>token. if token = ''input'' then Some ''{{other}}'' else None)
      (concat (map write_segment [Text ''Review: '', Var ''input'', Text ''.'', Var ''other'']))
   = ''Review: {{other}}.{{other}}''"
  by (subst render_fills_segments) (simp_all add: free_of_def starts_with_pair)

text \<open>
  Rendering without variables changes nothing: whatever the template, even with unbalanced or nested
  delimiters, the text that comes out is the text that went in.
\<close>

theorem render_without_variables:
  "render (\<lambda>_. None) template = template"
proof (induction "\<lambda>_ :: string. None :: string option" template rule: render.induct)
  case (1 rest)
  show ?case
  proof (cases "find_sub ''{{'' rest")
    case None
    then show ?thesis by (simp add: render.simps)
  next
    case (Some k)
    obtain u t where ut: "rest = u @ ''{{'' @ t" "length u = k" using find_sub_Some [OF Some] by blast
    then have after: "drop (k + 2) rest = t" by simp
    show ?thesis
    proof (cases "find_sub ''}}'' t")
      case None
      from 1(1) [OF Some after [symmetric] None] have "render (\<lambda>_. None) t = t" by simp
      with None Some ut after show ?thesis by (subst render.simps) simp
    next
      case close: (Some j)
      obtain v w where vw: "t = v @ ''}}'' @ w" "length v = j" using find_sub_Some [OF close] by blast
      with 1(2) [OF Some after [symmetric] close refl] have "render (\<lambda>_. None) w = w" by simp
      with close Some ut vw after show ?thesis by (subst render.simps) simp
    qed
  qed
qed

end
