(* ===== verification/Redaction.thy ===== *)
theory Redaction
  imports Bridge_Errors
begin

text \<open>
  The diagnostic redactor (\<open>diagnostics.rs\<close>): the passes that take known credential values, URL
  queries and fragments, labelled secrets, credential-shaped tokens and the home directory out of a
  line of text before it is stored, the all-or-nothing treatment of ident_chars, the detection of a
  known value spread over adjacent fields, and the authentication evidence of a phase transition.
  The environment variable \<open>HOME\<close>, which a new redactor reads, is an argument.
\<close>

section \<open>The redactor\<close>

definition MAX_CODE_BYTES :: nat where "MAX_CODE_BYTES = 64"
definition MAX_ID_BYTES :: nat where "MAX_ID_BYTES = 64"
definition MAX_AUTH_METHODS :: nat where "MAX_AUTH_METHODS = 16"
definition MAX_TEXT_FIELD_BYTES :: nat where "MAX_TEXT_FIELD_BYTES = 512"

definition REDACTED_KNOWN_SECRET :: scalar_text where
  "REDACTED_KNOWN_SECRET = lit ''[REDACTED KNOWN SECRET]''"

record DiagnosticRedactor =
  known_values :: "scalar_text list"
  home_dir :: "scalar_text option"

text \<open>Longer values first, then in their own order; the order of \<open>str\<close> is that of its scalar values.\<close>

definition normalize_known_values :: "scalar_text list \<Rightarrow> scalar_text list" where
  "normalize_known_values vs = remdups_adj (sort_key (\<lambda>v. (- int (text_len v), v)) vs)"

definition DiagnosticRedactor_new :: "scalar_text option \<Rightarrow> scalar_text list \<Rightarrow> DiagnosticRedactor" where
  "DiagnosticRedactor_new home vs =
     \<lparr>known_values = normalize_known_values (filter (\<lambda>v. v \<noteq> []) vs),
      home_dir = (case home of Some h \<Rightarrow> if h = [] then None else Some h | None \<Rightarrow> None)\<rparr>"

definition with_known_values :: "DiagnosticRedactor \<Rightarrow> scalar_text list \<Rightarrow> DiagnosticRedactor" where
  "with_known_values r vs =
     r\<lparr>known_values := normalize_known_values (known_values r @ filter (\<lambda>v. v \<noteq> []) vs)\<rparr>"

definition with_home_dir :: "DiagnosticRedactor \<Rightarrow> scalar_text \<Rightarrow> DiagnosticRedactor" where
  "with_home_dir r home = r\<lparr>home_dir := if home = [] then None else Some home\<rparr>"

definition contains_known_value :: "DiagnosticRedactor \<Rightarrow> scalar_text \<Rightarrow> bool" where
  "contains_known_value r v = list_ex (\<lambda>known. occurs known v) (known_values r)"

text \<open>A search that continues behind a match makes progress.\<close>

lemma find_sub_advance:
  "find_sub p (drop i s) = Some k \<Longrightarrow> p \<noteq> [] \<Longrightarrow> length s - (i + k + length p) < length s - i"
  by (drule find_sub_bound, cases p) auto

section \<open>URL queries and fragments\<close>

definition http :: scalar_text where "http = lit ''http://''"
definition https :: scalar_text where "https = lit ''https://''"
definition redacted_url :: scalar_text where "redacted_url = lit ''[REDACTED URL]''"

text \<open>Closing brackets 41, 93, 125 and quotes 34, 39.\<close>

definition url_stop :: "nat \<Rightarrow> bool" where
  "url_stop c \<longleftrightarrow> is_whitespace c \<or> c = 41 \<or> c = 93 \<or> c = 125 \<or> c = 34 \<or> c = 39"

text \<open>The question mark and the number sign.\<close>

definition secret_start :: "nat \<Rightarrow> bool" where
  "secret_start c \<longleftrightarrow> c = 63 \<or> c = 35"

text \<open>The offset of the first stop after the first character, else the rest of the text.\<close>

definition extent :: "(nat \<Rightarrow> bool) \<Rightarrow> scalar_text \<Rightarrow> nat" where
  "extent stop t = (case position stop (drop 1 t) of Some off \<Rightarrow> Suc off | None \<Rightarrow> length t)"

definition next_url :: "scalar_text \<Rightarrow> nat option" where
  "next_url remaining =
     (case (find_sub http remaining, find_sub https remaining) of
        (Some a, Some b) \<Rightarrow> Some (min a b)
      | (Some a, None) \<Rightarrow> Some a
      | (None, Some b) \<Rightarrow> Some b
      | (None, None) \<Rightarrow> None)"

lemma http_nonempty [simp]: "http \<noteq> []" "https \<noteq> []"
  by (simp_all add: http_def https_def)

lemma next_url_bound: "next_url s = Some k \<Longrightarrow> k < length s"
proof -
  assume "next_url s = Some k"
  then have "find_sub http s = Some k \<or> find_sub https s = Some k"
    by (auto simp: next_url_def min_def split: option.splits if_splits)
  then have "k + length http \<le> length s \<or> k + length https \<le> length s"
    by (blast dest: find_sub_bound)
  then show ?thesis by (auto simp: http_def https_def)
qed

lemma extent_bounds: "t \<noteq> [] \<Longrightarrow> 0 < extent stop t \<and> extent stop t \<le> length t"
  by (auto simp: extent_def dest: position_Some split: option.splits)

function url_loop :: "scalar_text \<Rightarrow> nat \<Rightarrow> scalar_text" where
  "url_loop value search_from =
     (let lowercase = map ascii_lower value in
      case next_url (drop search_from lowercase) of
        None \<Rightarrow> value
      | Some relative \<Rightarrow>
          (let url_start = search_from + relative;
               url_end = url_start + extent url_stop (drop url_start value)
           in case position secret_start (take (url_end - url_start) (drop url_start value)) of
                Some off \<Rightarrow>
                  url_loop (take (url_start + off) value @ redacted_url @ drop url_end value)
                    (url_start + off + length redacted_url)
              | None \<Rightarrow> url_loop value url_end))"
  by auto
termination
proof (relation "measure (\<lambda>(v, i). length v - i)", goal_cases)
  case (2 v i low rel start fin)
  then have "start < length v" by (auto dest: next_url_bound)
  then show ?case using 2 extent_bounds [of "drop start v" url_stop] by auto
next
  case (3 v i low rel start fin off)
  then have start: "start < length v" by (auto dest: next_url_bound)
  then have "0 < extent url_stop (drop start v)" "extent url_stop (drop start v) \<le> length v - start"
    using extent_bounds [of "drop start v" url_stop] by auto
  moreover have "off < fin - start" using position_Some [OF 3(5)] by simp
  ultimately show ?case using 3(2-4) start by auto
qed simp

declare url_loop.simps [simp del]

definition redact_url_query_and_fragment :: "scalar_text \<Rightarrow> scalar_text" where
  "redact_url_query_and_fragment value = url_loop value 0"

section \<open>Labelled secrets\<close>

text \<open>Letters, digits, underscore 95 and hyphen 45.\<close>

definition ident_char :: "nat \<Rightarrow> bool" where
  "ident_char c \<longleftrightarrow> alphanumeric_scalar c \<or> c = 95 \<or> c = 45"

definition left_ok :: "scalar_text \<Rightarrow> nat \<Rightarrow> bool" where
  "left_ok s start \<longleftrightarrow> start = 0 \<or> \<not> ident_char (s ! (start - 1))"

definition right_ok :: "scalar_text \<Rightarrow> nat \<Rightarrow> bool" where
  "right_ok s fin \<longleftrightarrow> fin = length s \<or> \<not> ident_char (s ! fin)"

definition MARKERS :: "scalar_text list" where
  "MARKERS = [lit ''authorization'', lit ''access_token'', lit ''refresh_token'', lit ''set-cookie'',
     lit ''api_key'', lit ''bearer'', lit ''cookie'', lit ''token'']"

text \<open>The search for one marker; the markers are not empty, so each round advances.\<close>

function scan_marker ::
  "scalar_text \<Rightarrow> scalar_text \<Rightarrow> (nat \<times> nat) option \<Rightarrow> nat \<Rightarrow> (nat \<times> nat) option" where
  "scan_marker lowercase marker best search_from =
     (if marker = [] then best
      else case find_sub marker (drop search_from lowercase) of
        None \<Rightarrow> best
      | Some relative \<Rightarrow>
          (let start = search_from + relative; fin = start + length marker in
           if left_ok lowercase start \<and> right_ok lowercase fin
              \<and> (case best of None \<Rightarrow> True | Some (current, _) \<Rightarrow> start < current)
           then Some (start, fin)
           else scan_marker lowercase marker best fin))"
  by auto
termination
  by (relation "measure (\<lambda>(low, _, _, from). length low - from)") (auto dest: find_sub_advance)

declare scan_marker.simps [simp del]

text \<open>Separators between a label and its value: blank 32, tab 9, colon 58, equals sign 61, quotes 34, 39.\<close>

definition label_separator :: "nat \<Rightarrow> bool" where
  "label_separator c \<longleftrightarrow> c = 32 \<or> c = 9 \<or> c = 58 \<or> c = 61 \<or> c = 34 \<or> c = 39"

definition redact_secret_markers :: "scalar_text \<Rightarrow> scalar_text" where
  "redact_secret_markers value =
     (let lowercase = map ascii_lower value in
      case foldl (\<lambda>best marker. scan_marker lowercase marker best 0) None MARKERS of
        None \<Rightarrow> value
      | Some (start, marker_end) \<Rightarrow>
          if dropWhile label_separator (drop marker_end value) = [] then lit ''[REDACTED LINE]''
          else trim_end (take start value) @ lit '' [REDACTED]'')"

section \<open>Credential-shaped tokens\<close>

definition PREFIXES :: "scalar_text list" where
  "PREFIXES = [lit ''sk-'', lit ''sk_'', lit ''ghp_'', lit ''github_pat_'', lit ''xoxb-'', lit ''xoxp-'',
     lit ''xoxa-'']"

definition REDACTED :: scalar_text where "REDACTED = lit ''[REDACTED]''"

text \<open>Quotes 34, 39, 96, angle brackets 60, 62, comma 44, semicolon 59, closing brackets 41, 93, 125.\<close>

definition credential_stop :: "nat \<Rightarrow> bool" where
  "credential_stop c \<longleftrightarrow>
     is_whitespace c \<or> c = 34 \<or> c = 39 \<or> c = 96 \<or> c = 60 \<or> c = 62 \<or> c = 44 \<or> c = 59 \<or> c = 41 \<or> c = 93 \<or> c = 125"

function scan_prefix :: "scalar_text \<Rightarrow> scalar_text \<Rightarrow> nat \<Rightarrow> nat option" where
  "scan_prefix lowercase prefix prefix_search =
     (if prefix = [] then None
      else case find_sub prefix (drop prefix_search lowercase) of
        None \<Rightarrow> None
      | Some relative \<Rightarrow>
          (let start = prefix_search + relative in
           if left_ok lowercase start then Some start
           else scan_prefix lowercase prefix (start + length prefix)))"
  by auto
termination
  by (relation "measure (\<lambda>(low, _, from). length low - from)") (auto dest: find_sub_advance)

declare scan_prefix.simps [simp del]

definition next_credential :: "scalar_text \<Rightarrow> nat \<Rightarrow> nat option" where
  "next_credential lowercase search_from =
     foldl (\<lambda>next prefix.
        case scan_prefix lowercase prefix search_from of
          None \<Rightarrow> next
        | Some start \<Rightarrow> Some (case next of None \<Rightarrow> start | Some current \<Rightarrow> min current start)) None PREFIXES"

lemma scan_prefix_bounds: "scan_prefix low p i = Some s \<Longrightarrow> i \<le> s \<and> s < length low"
proof (induction low p i rule: scan_prefix.induct)
  case (1 low p i)
  from 1(2) obtain k where p: "p \<noteq> []" and k: "find_sub p (drop i low) = Some k"
    by (auto simp: scan_prefix.simps [of low p i] split: if_splits option.splits)
  from find_sub_bound [OF k] p have bound: "i + k < length low" by (cases p) auto
  show ?case
  proof (cases "left_ok low (i + k)")
    case True
    with 1(2) p k bound show ?thesis by (simp add: scan_prefix.simps [of low p i])
  next
    case False
    with 1(2) p k have "scan_prefix low p (i + k + length p) = Some s"
      by (simp add: scan_prefix.simps [of low p i])
    from 1(1) [OF p k refl False this] show ?thesis by simp
  qed
qed

lemma next_credential_scan:
  "next_credential low i = Some s \<Longrightarrow> \<exists>p\<in>set PREFIXES. scan_prefix low p i = Some s"
proof -
  have "foldl (\<lambda>next p. case scan_prefix low p i of None \<Rightarrow> next
          | Some start \<Rightarrow> Some (case next of None \<Rightarrow> start | Some cur \<Rightarrow> min cur start)) acc ps = Some s
        \<Longrightarrow> acc = Some s \<or> (\<exists>p\<in>set ps. scan_prefix low p i = Some s)" for acc ps
  proof (induction ps arbitrary: acc)
    case (Cons p ps)
    then show ?case
      by (cases "scan_prefix low p i"; cases acc) (auto simp: min_def split: if_splits)
  qed simp
  then show "next_credential low i = Some s \<Longrightarrow> ?thesis" unfolding next_credential_def by blast
qed

function credential_loop :: "scalar_text \<Rightarrow> nat \<Rightarrow> scalar_text" where
  "credential_loop value search_from =
     (case next_credential (map ascii_lower value) search_from of
        None \<Rightarrow> value
      | Some start \<Rightarrow>
          (let fin = start + extent credential_stop (drop start value)
           in credential_loop (take start value @ REDACTED @ drop fin value) (start + length REDACTED)))"
  by auto
termination
proof (relation "measure (\<lambda>(value, search_from). length value - search_from)", goal_cases)
  case (2 v i start fin)
  from next_credential_scan [OF 2(1)] have "i \<le> start" "start < length v"
    by (auto dest: scan_prefix_bounds)
  moreover from this have "0 < fin - start" "fin \<le> length v"
    using 2(2) extent_bounds [of "drop start v" credential_stop] by auto
  ultimately show ?case by auto
qed simp

declare credential_loop.simps [simp del]

definition redact_credential_prefixes :: "scalar_text \<Rightarrow> scalar_text" where
  "redact_credential_prefixes value = credential_loop value 0"

section \<open>Sanitised text and ident_chars\<close>

text \<open>Control characters except the tab 9 are dropped first.\<close>

definition without_controls :: "scalar_text \<Rightarrow> scalar_text" where
  "without_controls value = filter (\<lambda>c. c = 9 \<or> \<not> is_control c) value"

definition sanitize_text :: "DiagnosticRedactor \<Rightarrow> scalar_text \<Rightarrow> nat \<Rightarrow> scalar_text" where
  "sanitize_text r value max_bytes =
     (let sanitized = foldl (\<lambda>s known. replace_all known REDACTED_KNOWN_SECRET s) (without_controls value)
            (known_values r);
          sanitized = redact_url_query_and_fragment sanitized;
          sanitized = redact_secret_markers sanitized;
          sanitized = redact_credential_prefixes sanitized;
          sanitized = (case home_dir r of Some home \<Rightarrow> replace_all home (lit ''~'') sanitized | None \<Rightarrow> sanitized)
      in truncate_utf8 sanitized max_bytes)"

definition looks_secret_shaped :: "scalar_text \<Rightarrow> bool" where
  "looks_secret_shaped value =
     (let lower = map ascii_lower value in
      list_ex (\<lambda>p. starts_with p lower) PREFIXES
      \<or> list_ex (\<lambda>segment. 32 \<le> text_len segment \<and> list_all alphanumeric_scalar segment
                    \<and> list_ex alphabetic_scalar segment \<and> list_ex digit_scalar segment)
          (split_on (\<lambda>c. c = 46 \<or> c = 95 \<or> c = 45) lower))"

datatype RedactedDiagnosticId = IdValue scalar_text | IdRedacted

fun as_value :: "RedactedDiagnosticId \<Rightarrow> scalar_text option" where
  "as_value (IdValue v) = Some v"
| "as_value IdRedacted = None"

definition sanitize_id :: "DiagnosticRedactor \<Rightarrow> scalar_text \<Rightarrow> RedactedDiagnosticId" where
  "sanitize_id r value =
     (if value = [] \<or> MAX_ID_BYTES < text_len value then IdRedacted
      else let sanitized = sanitize_text r value MAX_ID_BYTES in
        if sanitized = value \<and> \<not> looks_secret_shaped value then IdValue value else IdRedacted)"

section \<open>Known values across adjacent fields\<close>

fun spans_from :: "nat \<Rightarrow> scalar_text list \<Rightarrow> (nat \<times> nat) list" where
  "spans_from start [] = []"
| "spans_from start (v # vs) = (start, start + length v) # spans_from (start + length v) vs"

function occurrences :: "scalar_text \<Rightarrow> scalar_text \<Rightarrow> nat \<Rightarrow> nat list" where
  "occurrences known concatenated search_from =
     (if known = [] then []
      else case find_sub known (drop search_from concatenated) of
        None \<Rightarrow> []
      | Some relative \<Rightarrow>
          (let start = search_from + relative
           in start # occurrences known concatenated (start + length known)))"
  by auto
termination
  by (relation "measure (\<lambda>(_, text, from). length text - from)") (auto dest: find_sub_advance)

declare occurrences.simps [simp del]

definition adjacent_sensitive_indices :: "DiagnosticRedactor \<Rightarrow> scalar_text list \<Rightarrow> bool list" where
  "adjacent_sensitive_indices r values =
     map (\<lambda>(field_start, field_end).
            list_ex (\<lambda>known. list_ex (\<lambda>start. start < field_end \<and> field_start < start + length known)
                        (occurrences known (concat values) 0)) (known_values r))
       (spans_from 0 values)"

definition sanitize_collection :: "DiagnosticRedactor \<Rightarrow> scalar_text list \<Rightarrow> scalar_text list" where
  "sanitize_collection r values =
     (let bounded = map (\<lambda>v. truncate_utf8 (without_controls v) MAX_TEXT_FIELD_BYTES) values in
      map (\<lambda>(v, is_sensitive).
             if is_sensitive then REDACTED_KNOWN_SECRET else sanitize_text r v MAX_TEXT_FIELD_BYTES)
        (zip bounded (adjacent_sensitive_indices r bounded)))"

section \<open>Known values do not survive\<close>

text \<open>
  A credential value that cannot be taken for a part of the texts the redactor writes: it is not empty, has no
  bracket, tilde or blank and is not a part of one of the words between the brackets.
\<close>

definition plain_secret :: "scalar_text \<Rightarrow> bool" where
  "plain_secret k \<longleftrightarrow>
     k \<noteq> [] \<and> list_all (\<lambda>c. c \<notin> {91, 93, 126, 32}) k
     \<and> list_all (\<lambda>w. \<not> occurs k (lit w)) [''REDACTED'', ''KNOWN'', ''SECRET'', ''URL'', ''LINE'']"

lemma plain_secretD:
  assumes "plain_secret k"
  shows "k \<noteq> []" "91 \<notin> set k" "93 \<notin> set k" "126 \<notin> set k" "32 \<notin> set k"
    "\<not> occurs k (lit ''REDACTED'')" "\<not> occurs k (lit ''KNOWN'')" "\<not> occurs k (lit ''SECRET'')"
    "\<not> occurs k (lit ''URL'')" "\<not> occurs k (lit ''LINE'')"
  using assms by (auto simp: plain_secret_def list_all_iff simp del: lit_simps)

lemma occurs_bracketed:
  assumes "plain_secret k" and "\<not> occurs k w"
  shows "occurs k (s @ (91 # w @ [93]) @ t) \<longleftrightarrow> occurs k s \<or> occurs k t"
  using occurs_around [of 91 k s "w @ 93 # t"] occurs_around [of 93 k w t] assms(2) plain_secretD [OF assms(1)]
  by simp

lemma marker_shapes:
  "REDACTED = 91 # lit ''REDACTED'' @ [93]"
  "redacted_url = 91 # (lit ''REDACTED'' @ 32 # lit ''URL'') @ [93]"
  "lit ''[REDACTED LINE]'' = 91 # (lit ''REDACTED'' @ 32 # lit ''LINE'') @ [93]"
  "REDACTED_KNOWN_SECRET = 91 # (lit ''REDACTED'' @ 32 # lit ''KNOWN'' @ 32 # lit ''SECRET'') @ [93]"
  by (simp_all add: REDACTED_def redacted_url_def REDACTED_KNOWN_SECRET_def)

lemma occurs_marker:
  assumes "plain_secret k" and "m \<in> {REDACTED, redacted_url, lit ''[REDACTED LINE]'', REDACTED_KNOWN_SECRET}"
  shows "occurs k (s @ m @ t) \<longleftrightarrow> occurs k s \<or> occurs k t"
proof -
  note k = plain_secretD [OF assms(1)]
  have "\<exists>w. m = 91 # w @ [93] \<and> \<not> occurs k w"
    using assms(2) k occurs_around [OF k(5) k(1)]
    unfolding marker_shapes insert_iff empty_iff by (elim disjE) (auto simp del: lit_simps)
  with occurs_bracketed [OF assms(1)] show ?thesis by blast
qed

lemma occurs_marker_alone:
  "plain_secret k \<Longrightarrow> m \<in> {REDACTED, redacted_url, lit ''[REDACTED LINE]'', REDACTED_KNOWN_SECRET} \<Longrightarrow> \<not> occurs k m"
  using occurs_marker [of k m "[]" "[]"] plain_secretD(1) by (simp add: occurs_def)

lemma occurs_spliced:
  assumes "plain_secret k" and "m \<in> {REDACTED, redacted_url, lit ''[REDACTED LINE]'', REDACTED_KNOWN_SECRET}"
    and "\<not> occurs k v"
  shows "\<not> occurs k (take i v @ m @ drop j v)"
  using occurs_marker [OF assms(1,2)] occurs_take [OF assms(3)] occurs_drop [OF assms(3)] by simp

text \<open>What every splice of a marker preserves, the loops preserve.\<close>

lemma url_loop_inv:
  assumes "\<And>v a b. Q v \<Longrightarrow> Q (take a v @ redacted_url @ drop b v)" and "Q v"
  shows "Q (url_loop v i)"
  using assms(2)
proof (induction v i rule: url_loop.induct)
  case (1 v i)
  with assms(1) show ?case
    by (subst url_loop.simps) (auto simp: Let_def split: option.splits)
qed

lemma credential_loop_inv:
  assumes "\<And>v a b. Q v \<Longrightarrow> Q (take a v @ REDACTED @ drop b v)" and "Q v"
  shows "Q (credential_loop v i)"
  using assms(2)
proof (induction v i rule: credential_loop.induct)
  case (1 v i)
  with assms(1) show ?case
    by (subst credential_loop.simps) (auto simp: Let_def split: option.splits)
qed

lemma url_loop_keeps_free: "plain_secret k \<Longrightarrow> \<not> occurs k v \<Longrightarrow> \<not> occurs k (url_loop v i)"
  by (rule url_loop_inv [of "\<lambda>v. \<not> occurs k v"]) (rule occurs_spliced; simp)

lemma credential_loop_keeps_free: "plain_secret k \<Longrightarrow> \<not> occurs k v \<Longrightarrow> \<not> occurs k (credential_loop v i)"
  by (rule credential_loop_inv [of "\<lambda>v. \<not> occurs k v"]) (rule occurs_spliced; simp)

lemma markers_keep_free:
  assumes "plain_secret k" and "\<not> occurs k v"
  shows "\<not> occurs k (redact_secret_markers v)"
proof -
  note k = plain_secretD [OF assms(1)]
  have line: "\<not> occurs k (lit ''[REDACTED LINE]'')" using occurs_marker_alone [OF assms(1)] by simp
  have "\<not> occurs k (trim_end (take n v))" for n by (intro occurs_trim_end occurs_take assms(2))
  moreover have "lit '' [REDACTED]'' = 32 # REDACTED" by (simp add: REDACTED_def)
  moreover have "\<not> occurs k REDACTED" using occurs_marker_alone [OF assms(1)] by simp
  ultimately have "\<not> occurs k (trim_end (take n v) @ lit '' [REDACTED]'')" for n
    using occurs_around [OF k(5) k(1)] by simp
  with line assms(2) show ?thesis
    by (auto simp: redact_secret_markers_def Let_def simp del: lit_simps split: option.splits)
qed

lemma replace_all_keeps_free:
  assumes "k \<noteq> []" and "pat \<noteq> []" and splice: "\<And>s t. occurs k (s @ rep @ t) \<longleftrightarrow> occurs k s \<or> occurs k t"
    and "\<not> occurs k v"
  shows "\<not> occurs k (replace_all pat rep v)"
  using assms(4)
proof (induction "length v" arbitrary: v rule: less_induct)
  case less
  show ?case
  proof (cases "find_sub pat v")
    case None
    with less.prems assms(2) show ?thesis by (simp add: replace_all.simps)
  next
    case (Some j)
    from less.hyps [OF find_sub_drop_less [OF Some assms(2)] occurs_drop [OF less.prems]]
    have "\<not> occurs k (replace_all pat rep (drop (j + length pat) v))" .
    with Some assms(2) occurs_take [OF less.prems] splice show ?thesis by (simp add: replace_all.simps [of pat rep v])
  qed
qed

lemma find_sub_first: "find_sub k s = Some j \<Longrightarrow> k \<noteq> [] \<Longrightarrow> \<not> occurs k (take j s)"
proof (induction s arbitrary: j)
  case (Cons c cs)
  show ?case
  proof (cases j)
    case 0
    with Cons.prems show ?thesis by (simp add: occurs_def)
  next
    case (Suc i)
    with Cons.prems have i: "find_sub k cs = Some i" and no: "\<not> starts_with k (c # cs)"
      by (auto split: if_splits)
    show ?thesis
    proof
      assume "occurs k (take j (c # cs))"
      then obtain a b where ab: "c # take i cs = a @ k @ b" using Suc by (auto simp: occurs_iff)
      show False
      proof (cases a)
        case Nil
        with ab have "c # cs = k @ b @ drop i cs" by (metis append_Cons append_Nil append_assoc append_take_drop_id)
        then have "strip_prefix k (c # cs) = Some (b @ drop i cs)" by (simp only: strip_prefix_Some_iff)
        with no show False by (simp add: starts_with_def)
      next
        case (Cons x xs)
        with ab have "occurs k (take i cs)" by (auto simp: occurs_iff)
        with Cons.IH [OF i] Cons.prems show False by simp
      qed
    qed
  qed
qed simp

lemma replace_all_removes:
  assumes "k \<noteq> []" and splice: "\<And>s t. occurs k (s @ rep @ t) \<longleftrightarrow> occurs k s \<or> occurs k t"
  shows "\<not> occurs k (replace_all k rep v)"
proof (induction "length v" arbitrary: v rule: less_induct)
  case less
  show ?case
  proof (cases "find_sub k v")
    case None
    with assms(1) show ?thesis by (simp add: replace_all.simps occurs_def)
  next
    case (Some j)
    from less [OF find_sub_drop_less [OF Some assms(1)]] find_sub_first [OF Some assms(1)] splice Some assms(1)
    show ?thesis by (simp add: replace_all.simps [of k rep v])
  qed
qed

definition redactor_ok :: "DiagnosticRedactor \<Rightarrow> bool" where
  "redactor_ok r \<longleftrightarrow> [] \<notin> set (known_values r) \<and> home_dir r \<noteq> Some []"

lemma replace_known_free:
  assumes "plain_secret k" and "k \<in> set ks \<or> \<not> occurs k v" and "[] \<notin> set ks"
  shows "\<not> occurs k (foldl (\<lambda>s known. replace_all known REDACTED_KNOWN_SECRET s) v ks)"
  using assms(2,3)
proof (induction ks arbitrary: v)
  case (Cons x xs)
  note k = plain_secretD(1) [OF assms(1)] and m = occurs_marker [OF assms(1), of REDACTED_KNOWN_SECRET, simplified]
  from Cons.prems have "x \<noteq> []" by auto
  have "k \<in> set xs \<or> \<not> occurs k (replace_all x REDACTED_KNOWN_SECRET v)"
  proof (cases "x = k")
    case True
    then show ?thesis using replace_all_removes [OF k m] by simp
  next
    case False
    with Cons.prems replace_all_keeps_free [OF k \<open>x \<noteq> []\<close> m] show ?thesis by auto
  qed
  with Cons show ?case by simp
qed simp

lemma sanitize_text_free:
  assumes "plain_secret k" and "k \<in> set (known_values r)" and "redactor_ok r"
  shows "\<not> occurs k (sanitize_text r v n)"
proof -
  note k = plain_secretD [OF assms(1)]
  have home: "occurs k (s @ lit ''~'' @ t) \<longleftrightarrow> occurs k s \<or> occurs k t" for s t
    using occurs_around [OF k(4) k(1), of s t] by simp
  let ?a = "foldl (\<lambda>s known. replace_all known REDACTED_KNOWN_SECRET s) (without_controls v) (known_values r)"
  have "\<not> occurs k ?a"
    using replace_known_free [OF assms(1)] assms(2,3) by (simp add: redactor_ok_def)
  then have b: "\<not> occurs k (redact_credential_prefixes (redact_secret_markers (redact_url_query_and_fragment ?a)))"
    unfolding redact_credential_prefixes_def redact_url_query_and_fragment_def
    by (intro credential_loop_keeps_free markers_keep_free url_loop_keeps_free assms(1))
  show ?thesis
  proof (cases "home_dir r")
    case None
    with occurs_truncate [OF b] show ?thesis by (simp add: sanitize_text_def Let_def)
  next
    case (Some h)
    with assms(3) have "h \<noteq> []" by (auto simp: redactor_ok_def)
    from occurs_truncate [OF replace_all_keeps_free [OF k(1) this home b]] Some
    show ?thesis by (simp add: sanitize_text_def Let_def)
  qed
qed

lemma set_normalize_known_values [simp]: "set (normalize_known_values vs) = set vs"
  by (simp add: normalize_known_values_def)

lemma redactor_ok_new: "redactor_ok (DiagnosticRedactor_new home vs)"
  by (auto simp: redactor_ok_def DiagnosticRedactor_new_def split: option.splits)

lemma redactor_ok_known: "redactor_ok r \<Longrightarrow> redactor_ok (with_known_values r vs)"
  by (auto simp: redactor_ok_def with_known_values_def)

lemma redactor_ok_home: "redactor_ok r \<Longrightarrow> redactor_ok (with_home_dir r home)"
  by (auto simp: redactor_ok_def with_home_dir_def)

text \<open>
  C6: A credential value given to the redactor, at its construction or later, does not survive in
  the text it sanitises: whatever the text, the other known values, the home directory and the length
  bound, no pass brings the value back. The value is not empty, has no bracket, tilde or blank, and is not a
  part of a word of the markers the redactor writes: such a value can still be read in the marker that replaces it.
\<close>

theorem known_secret_never_survives:
  assumes "plain_secret k" and "k \<in> set vs \<union> set ws"
  shows "\<not> occurs k (sanitize_text (with_known_values (DiagnosticRedactor_new home vs) ws) text max_bytes)"
proof -
  have "k \<noteq> []" using plain_secretD(1) [OF assms(1)] .
  with assms(2) have "k \<in> set (known_values (with_known_values (DiagnosticRedactor_new home vs) ws))"
    by (auto simp: with_known_values_def DiagnosticRedactor_new_def)
  with assms(1) show ?thesis by (intro sanitize_text_free redactor_ok_known redactor_ok_new)
qed

theorem known_secret_never_survives_witness:
  "\<not> occurs (lit ''hunter2'')
       (sanitize_text (with_known_values (DiagnosticRedactor_new None [lit ''hunter2'']) [lit ''2'']) (lit ''pw=hunter2'') 512)"
  by (rule known_secret_never_survives) (simp_all add: plain_secret_def occurs_def starts_with_def)

section \<open>Bounds of sanitised text\<close>

abbreviation printable :: "nat \<Rightarrow> bool" where
  "printable c \<equiv> c = 9 \<or> \<not> is_control c"

definition all_printable :: "scalar_text \<Rightarrow> bool" where
  "all_printable t = list_all printable t"

lemma all_printable_append [simp]: "all_printable (s @ t) \<longleftrightarrow> all_printable s \<and> all_printable t"
  by (simp add: all_printable_def)

lemma all_printable_subset: "all_printable t \<Longrightarrow> set s \<subseteq> set t \<Longrightarrow> all_printable s"
  by (auto simp: all_printable_def list_all_iff)

lemmas all_printable_parts =
  all_printable_subset [OF _ set_take_subset] all_printable_subset [OF _ set_drop_subset]
  all_printable_subset [OF _ set_truncate_utf8] all_printable_subset [OF _ set_trim_end]

lemma all_printable_words [simp]:
  "all_printable REDACTED" "all_printable redacted_url" "all_printable REDACTED_KNOWN_SECRET"
  "all_printable (lit ''[REDACTED LINE]'')" "all_printable (lit '' [REDACTED]'')" "all_printable (lit ''~'')"
  by (simp_all add: all_printable_def REDACTED_def redacted_url_def REDACTED_KNOWN_SECRET_def is_control_def)

lemma all_printable_replace:
  "pat \<noteq> [] \<Longrightarrow> all_printable rep \<Longrightarrow> all_printable v \<Longrightarrow> all_printable (replace_all pat rep v)"
proof (induction pat rep v rule: replace_all.induct)
  case (1 pat rep v)
  then show ?case
    by (subst replace_all.simps) (auto intro: all_printable_parts split: option.splits)
qed

lemma all_printable_replace_known:
  "[] \<notin> set ks \<Longrightarrow> all_printable v \<Longrightarrow>
   all_printable (foldl (\<lambda>s known. replace_all known REDACTED_KNOWN_SECRET s) v ks)"
proof (induction ks arbitrary: v)
  case (Cons x xs)
  then have "all_printable (replace_all x REDACTED_KNOWN_SECRET v)"
    by (intro all_printable_replace) auto
  with Cons show ?case by simp
qed simp

lemma all_printable_passes:
  assumes "all_printable v"
  shows "all_printable (redact_credential_prefixes (redact_secret_markers (redact_url_query_and_fragment v)))"
proof -
  have "all_printable (redact_url_query_and_fragment v)"
    unfolding redact_url_query_and_fragment_def
    by (rule url_loop_inv) (use assms in \<open>auto intro: all_printable_parts\<close>)
  then have "all_printable (redact_secret_markers (redact_url_query_and_fragment v))"
    by (auto simp: redact_secret_markers_def Let_def simp del: lit_simps intro: all_printable_parts
        split: option.splits)
  then show ?thesis
    unfolding redact_credential_prefixes_def
    by (rule credential_loop_inv [rotated]) (auto intro: all_printable_parts)
qed

lemma sanitize_text_printable:
  assumes "redactor_ok r"
  shows "all_printable (sanitize_text r v n)"
proof -
  have "all_printable (without_controls v)" by (simp add: all_printable_def without_controls_def list_all_iff)
  with assms have p: "all_printable (redact_credential_prefixes (redact_secret_markers (redact_url_query_and_fragment
      (foldl (\<lambda>s known. replace_all known REDACTED_KNOWN_SECRET s) (without_controls v) (known_values r)))))"
    by (intro all_printable_passes all_printable_replace_known) (auto simp: redactor_ok_def)
  show ?thesis
  proof (cases "home_dir r")
    case None
    with p show ?thesis by (auto simp: sanitize_text_def Let_def intro: all_printable_parts)
  next
    case (Some h)
    with assms have "h \<noteq> []" by (auto simp: redactor_ok_def)
    from all_printable_replace [OF this all_printable_words(6) p] Some
    show ?thesis by (auto simp: sanitize_text_def Let_def simp del: lit_simps intro: all_printable_parts)
  qed
qed

lemma sanitize_text_len: "text_len (sanitize_text r v n) \<le> n"
  by (simp add: sanitize_text_def Let_def truncate_utf8_len)

text \<open>
  Sanitised text fits its bound in bytes of UTF-8, whatever the replacements added, and holds no
  control character but the tab.
\<close>

theorem sanitized_text_bounded:
  "let out = sanitize_text (with_known_values (DiagnosticRedactor_new home vs) ws) text max_bytes
   in text_len out \<le> max_bytes \<and> set (filter is_control out) \<subseteq> {9}"
proof -
  have "all_printable (sanitize_text (with_known_values (DiagnosticRedactor_new home vs) ws) text max_bytes)"
    by (rule sanitize_text_printable [OF redactor_ok_known [OF redactor_ok_new]])
  then show ?thesis by (auto simp: Let_def sanitize_text_len all_printable_def list_all_iff)
qed

section \<open>No credential-shaped token is left\<close>

lemma starts_with_iff: "starts_with p s \<longleftrightarrow> (\<exists>t. s = p @ t)"
  unfolding starts_with_def not_None_eq strip_prefix_Some_iff by simp

lemma starts_with_append: "starts_with p s \<Longrightarrow> starts_with p (s @ t)"
  by (auto simp: starts_with_iff)

lemma starts_with_before: "x \<notin> set p \<Longrightarrow> starts_with p (s @ x # t) \<Longrightarrow> starts_with p s"
proof (induction p arbitrary: s)
  case Nil
  then show ?case by (simp add: starts_with_iff)
next
  case (Cons c p)
  then show ?case by (cases s) (auto simp: starts_with_iff)
qed

lemma starts_with_hd: "starts_with p s \<Longrightarrow> p \<noteq> [] \<Longrightarrow> s \<noteq> [] \<and> hd s = hd p"
  by (cases p) (auto simp: starts_with_iff)

lemma find_sub_least:
  "find_sub p s = Some k \<Longrightarrow> starts_with p (drop k s) \<and> (\<forall>j<k. \<not> starts_with p (drop j s))"
proof (induction s arbitrary: k)
  case Nil
  then show ?case by (auto simp: starts_with_iff split: if_splits)
next
  case (Cons c cs)
  then show ?case by (auto simp: less_Suc_eq_0_disj split: if_splits)
qed

lemma find_sub_none: "find_sub p s = None \<Longrightarrow> \<not> starts_with p (drop j s)"
proof
  assume none: "find_sub p s = None" and "starts_with p (drop j s)"
  then obtain t where "drop j s = p @ t" by (auto simp: starts_with_iff)
  then have "s = take j s @ p @ t" by (metis append_take_drop_id)
  with find_sub_None_imp [OF none] show False by blast
qed

text \<open>Two occurrences of a word overlap only when the word has a border.\<close>

definition borderless :: "scalar_text \<Rightarrow> bool" where
  "borderless p = list_all (\<lambda>d. take (length p - d) p \<noteq> drop d p) [1..<length p]"

lemma overlap_border:
  assumes "borderless p" and "starts_with p s" and "starts_with p (drop d s)"
  shows "d = 0 \<or> length p \<le> d"
proof (rule ccontr)
  assume no: "\<not> (d = 0 \<or> length p \<le> d)"
  from assms(2,3) obtain t u where t: "s = p @ t" and u: "drop d s = p @ u" by (auto simp: starts_with_iff)
  from no t have "drop d s = drop d p @ t" by simp
  with u have "p @ u = drop d p @ t" by simp
  then have "take (length p - d) (p @ u) = take (length p - d) (drop d p @ t)" by simp
  then have "take (length p - d) p = drop d p" by simp
  with assms(1) no show False by (auto simp: borderless_def list_all_iff)
qed

definition bounded_at :: "scalar_text \<Rightarrow> scalar_text \<Rightarrow> nat \<Rightarrow> bool" where
  "bounded_at low p i \<longleftrightarrow> starts_with p (drop i low) \<and> left_ok low i"

lemma scan_prefix_least:
  assumes "borderless p" and "p \<noteq> []"
  shows "case scan_prefix low p i of
           None \<Rightarrow> \<forall>j\<ge>i. \<not> bounded_at low p j
         | Some s \<Rightarrow> i \<le> s \<and> bounded_at low p s \<and> (\<forall>j. i \<le> j \<and> j < s \<longrightarrow> \<not> bounded_at low p j)"
proof (induction "length low - i" arbitrary: i rule: less_induct)
  case less
  show ?case
  proof (cases "find_sub p (drop i low)")
    case None
    then have "\<not> starts_with p (drop j (drop i low))" for j by (rule find_sub_none)
    then have "\<forall>j\<ge>i. \<not> bounded_at low p j" by (auto simp: bounded_at_def dest!: le_Suc_ex simp: add.commute)
    with None assms(2) show ?thesis by (simp add: scan_prefix.simps [of low p i])
  next
    case (Some k)
    from find_sub_least [OF Some]
    have at: "starts_with p (drop (i + k) low)" and no: "\<And>j. j < k \<Longrightarrow> \<not> starts_with p (drop (i + j) low)"
      by (auto simp: add.commute)
    have early: "\<not> bounded_at low p j" if "i \<le> j" "j < i + k" for j
      using no [of "j - i"] that by (simp add: bounded_at_def)
    show ?thesis
    proof (cases "left_ok low (i + k)")
      case True
      with Some assms(2) at early show ?thesis by (auto simp: scan_prefix.simps [of low p i] bounded_at_def)
    next
      case False
      have gap: "\<not> bounded_at low p j" if "i \<le> j" "j < i + k + length p" for j
      proof (cases "j < i + k")
        case True
        with early that show ?thesis by blast
      next
        case late: False
        show ?thesis
        proof
          assume "bounded_at low p j"
          then have "starts_with p (drop (j - (i + k)) (drop (i + k) low))" and ok: "left_ok low j"
            using late by (simp_all add: bounded_at_def)
          from overlap_border [OF assms(1) at this(1)] late that have "j = i + k" by auto
          with ok False show False by simp
        qed
      qed
      have "scan_prefix low p i = scan_prefix low p (i + k + length p)"
        using Some assms(2) False by (simp add: scan_prefix.simps [of low p i])
      with less [OF find_sub_advance [OF Some assms(2)]] gap show ?thesis
        by (auto split: option.splits) (metis le_less_linear)+
    qed
  qed
qed

text \<open>A credential prefix at the start of a word of the lower-case text.\<close>

definition credential_at :: "scalar_text \<Rightarrow> nat \<Rightarrow> bool" where
  "credential_at low i \<longleftrightarrow> list_ex (\<lambda>p. bounded_at low p i) PREFIXES"

lemma prefixes_ok: "list_all (\<lambda>p. borderless p \<and> p \<noteq> [] \<and> 91 \<notin> set p \<and> hd p \<notin> set (map ascii_lower REDACTED)) PREFIXES"
  by (simp add: PREFIXES_def borderless_def upt_rec ascii_lower_def REDACTED_def)

lemma next_credential_least:
  "case next_credential low i of
     None \<Rightarrow> \<forall>j\<ge>i. \<not> credential_at low j
   | Some s \<Rightarrow> i \<le> s \<and> (\<forall>j. i \<le> j \<and> j < s \<longrightarrow> \<not> credential_at low j)"
proof -
  let ?f = "\<lambda>next p. case scan_prefix low p i of None \<Rightarrow> next
          | Some start \<Rightarrow> Some (case next of None \<Rightarrow> start | Some cur \<Rightarrow> min cur start)"
  have "case foldl ?f acc ps of
          None \<Rightarrow> acc = None \<and> (\<forall>p\<in>set ps. \<forall>j\<ge>i. \<not> bounded_at low p j)
        | Some s \<Rightarrow> i \<le> s \<and> (\<forall>a. acc = Some a \<longrightarrow> s \<le> a)
            \<and> (\<forall>p\<in>set ps. \<forall>j. i \<le> j \<and> j < s \<longrightarrow> \<not> bounded_at low p j)"
    if "list_all (\<lambda>p. borderless p \<and> p \<noteq> []) ps" "case acc of None \<Rightarrow> True | Some a \<Rightarrow> i \<le> a" for acc ps
    using that
  proof (induction ps arbitrary: acc)
    case Nil
    then show ?case by (cases acc) auto
  next
    case (Cons p ps)
    from Cons.prems(1) have p: "borderless p" "p \<noteq> []" and ps: "list_all (\<lambda>p. borderless p \<and> p \<noteq> []) ps" by auto
    note first = scan_prefix_least [OF p, where low = low and i = i]
    have ok: "case ?f acc p of None \<Rightarrow> True | Some a \<Rightarrow> i \<le> a"
      using first Cons.prems(2) by (auto split: option.splits)
    from Cons.IH [OF ps ok] first show ?case
      by (cases "scan_prefix low p i"; cases acc) (fastforce split: option.splits)+
  qed
  from this [of PREFIXES None] prefixes_ok show ?thesis
    unfolding next_credential_def credential_at_def by (auto simp: list_all_iff list_ex_iff split: option.splits)
qed

lemma map_lower_splice:
  "map ascii_lower (take s v @ REDACTED @ t)
     = take s (map ascii_lower v) @ 91 # map ascii_lower (drop 1 REDACTED @ t)"
  by (simp add: REDACTED_def take_map ascii_lower_def)

lemma credential_splice:
  assumes "s \<le> length v" and before: "\<And>j. j < s \<Longrightarrow> \<not> credential_at (map ascii_lower v) j"
    and j: "j < s + length REDACTED"
  shows "\<not> credential_at (map ascii_lower (take s v @ REDACTED @ t)) j"
proof
  let ?low = "map ascii_lower v"
  let ?new = "map ascii_lower (take s v @ REDACTED @ t)"
  assume "credential_at ?new j"
  then obtain p where p: "p \<in> set PREFIXES" "starts_with p (drop j ?new)" "left_ok ?new j"
    by (auto simp: credential_at_def bounded_at_def list_ex_iff)
  from prefixes_ok p(1) have props: "p \<noteq> []" "91 \<notin> set p" "hd p \<notin> set (map ascii_lower REDACTED)"
    by (auto simp: list_all_iff)
  show False
  proof (cases "j < s")
    case True
    with assms(1) have "drop j ?new = drop j (take s ?low) @ 91 # map ascii_lower (drop 1 REDACTED @ t)"
      unfolding map_lower_splice by simp
    with p(2) props have "starts_with p (drop j (take s ?low))" by (metis starts_with_before)
    then have "starts_with p (drop j (take s ?low) @ drop s ?low)" by (rule starts_with_append)
    moreover have "drop j (take s ?low @ drop s ?low) = drop j (take s ?low) @ drop s ?low"
      unfolding drop_append using True assms(1) by simp
    then have "drop j (take s ?low) @ drop s ?low = drop j ?low" by simp
    moreover have "left_ok ?low j"
    proof (cases j)
      case (Suc i)
      with True assms(1) have "?new ! i = ?low ! i" unfolding map_lower_splice by (simp add: nth_append)
      with p(3) Suc show ?thesis by (simp add: left_ok_def)
    qed (simp add: left_ok_def)
    ultimately have "credential_at ?low j" using p(1) by (auto simp: credential_at_def bounded_at_def list_ex_iff)
    with before [OF True] show False by simp
  next
    case False
    with j assms(1) have "hd (drop j ?new) = map ascii_lower REDACTED ! (j - s)"
      by (simp add: hd_drop_conv_nth nth_append)
    with starts_with_hd [OF p(2) props(1)] False j
    have "hd p \<in> set (map ascii_lower REDACTED)" by (metis add_diff_inverse_nat nat_add_left_cancel_less length_map nth_mem)
    with props(3) show False by simp
  qed
qed

lemma credential_loop_clean:
  "(\<And>j. j < i \<Longrightarrow> \<not> credential_at (map ascii_lower v) j) \<Longrightarrow>
   \<not> credential_at (map ascii_lower (credential_loop v i)) j"
proof (induction v i rule: credential_loop.induct)
  case (1 v i)
  let ?low = "map ascii_lower v"
  show ?case
  proof (cases "next_credential ?low i")
    case None
    with next_credential_least [where low = ?low and i = i] have "\<not> credential_at ?low j" if "i \<le> j" for j using that by simp
    with 1(2) have "\<not> credential_at ?low j" by (cases "j < i") auto
    with None show ?thesis by (simp add: credential_loop.simps [of v i])
  next
    case (Some s)
    from next_credential_scan [OF Some] have "s \<le> length v" by (auto dest: scan_prefix_bounds)
    moreover have "\<not> credential_at ?low j" if "j < s" for j
      using next_credential_least [where low = ?low and i = i] Some 1(2) that by (cases "j < i") auto
    ultimately have "\<not> credential_at (map ascii_lower (take s v @ REDACTED @ t)) j"
      if "j < s + length REDACTED" for j t using that by (rule credential_splice)
    from 1(1) [OF Some refl this] Some show ?thesis by (simp add: credential_loop.simps [of v i] Let_def)
  qed
qed

text \<open>
  C31: The credential pass is complete: in the text it returns no known credential prefix stands at the
  start of a word, in upper or lower case, at any position.
\<close>

theorem no_credential_prefix_left:
  "\<not> credential_at (map ascii_lower (redact_credential_prefixes value)) i"
  unfolding redact_credential_prefixes_def by (rule credential_loop_clean) simp

section \<open>No URL keeps its query or fragment\<close>

definition url_starts :: "scalar_text \<Rightarrow> bool" where
  "url_starts t \<longleftrightarrow> starts_with http (map ascii_lower t) \<or> starts_with https (map ascii_lower t)"

definition url_clean :: "scalar_text \<Rightarrow> bool" where
  "url_clean t \<longleftrightarrow> \<not> (url_starts t \<and> list_ex secret_start (take (extent url_stop t) t))"

lemma next_url_least:
  "case next_url (map ascii_lower t) of
     None \<Rightarrow> \<forall>j. \<not> url_starts (drop j t)
   | Some r \<Rightarrow> url_starts (drop r t) \<and> (\<forall>j<r. \<not> url_starts (drop j t))"
  using find_sub_least [of http "map ascii_lower t"] find_sub_least [of https "map ascii_lower t"]
    find_sub_none [of http "map ascii_lower t"] find_sub_none [of https "map ascii_lower t"]
  by (auto simp: next_url_def url_starts_def drop_map min_def split: option.splits)

lemma url_starts_hd: "url_starts t \<Longrightarrow> t \<noteq> [] \<and> ascii_lower (hd t) = 104"
  by (cases t) (auto simp: url_starts_def http_def https_def dest!: starts_with_hd)

lemma url_starts_before:
  "ascii_lower x \<notin> set (lit ''htps:/'') \<Longrightarrow> url_starts (s @ x # t) \<Longrightarrow> url_starts s"
  using starts_with_before [of "ascii_lower x" http "map ascii_lower s" "map ascii_lower t"]
    starts_with_before [of "ascii_lower x" https "map ascii_lower s" "map ascii_lower t"]
  by (auto simp: url_starts_def http_def https_def)

lemma url_starts_append: "url_starts s \<Longrightarrow> url_starts (s @ t)"
  by (auto simp: url_starts_def intro: starts_with_append)

lemma url_stop_lower: "url_stop x \<Longrightarrow> ascii_lower x \<notin> set (lit ''htps:/'')"
  by (auto simp: url_stop_def is_whitespace_def ascii_lower_def)

lemma extent_at_stop: "a \<noteq> [] \<Longrightarrow> url_stop x \<Longrightarrow> extent url_stop (a @ x # b) \<le> length a"
proof -
  assume a: "a \<noteq> []" "url_stop x"
  then obtain c a' where "a = c # a'" by (cases a) auto
  moreover have "position url_stop (a' @ x # b) \<noteq> None" "the (position url_stop (a' @ x # b)) \<le> length a'"
    using a(2) by (induction a') (auto split: option.splits)
  ultimately show ?thesis by (auto simp: extent_def)
qed

lemma url_clean_before_stop:
  assumes "a \<noteq> []" and "url_stop x" and "url_starts (a @ x # t) \<Longrightarrow> \<not> list_ex secret_start a"
  shows "url_clean (a @ x # t)"
proof -
  have "take (extent url_stop (a @ x # t)) (a @ x # t) = take (extent url_stop (a @ x # t)) a"
    using extent_at_stop [OF assms(1,2), of t] by simp
  then show ?thesis using assms(3) by (auto simp: url_clean_def list_ex_iff dest: in_set_takeD)
qed

text \<open>The part of a text up to the end of its first URL, with what the pass puts behind it.\<close>

lemma drop_take_window:
  assumes "n \<le> length w" and "j \<le> n"
  shows "drop j w = drop j (take n w) @ drop n w"
proof -
  have "drop j (take n w @ drop n w) = drop j (take n w) @ drop n w"
    unfolding drop_append using assms by simp
  then show ?thesis by simp
qed

lemma url_in_window:
  assumes "n \<le> length w" and "j \<le> n" and "\<forall>j<r. \<not> url_starts (drop j w)"
    and "\<not> list_ex secret_start (take m (drop r w))" and "n \<le> r + m" and "url_starts (drop j (take n w))"
  shows "\<not> list_ex secret_start (drop j (take n w))"
proof -
  have "url_starts (drop j w)"
    unfolding drop_take_window [OF assms(1,2)] by (rule url_starts_append [OF assms(6)])
  with assms(3) have "r \<le> j" using not_less by blast
  then have "drop j (take n w) = drop (j - r) (take (n - r) (drop r w))" by (simp add: drop_take)
  moreover have "set (drop (j - r) (take (n - r) (drop r w))) \<subseteq> set (take m (drop r w))"
    by (rule subset_trans [OF set_drop_subset set_take_subset_set_take]) (use assms(5) in simp)
  ultimately show ?thesis using assms(4) by (auto simp: list_ex_iff)
qed

lemma clean_after_redaction:
  assumes len: "r + off \<le> length w" and first: "\<forall>j<r. \<not> url_starts (drop j w)"
    and none: "\<not> list_ex secret_start (take off (drop r w))" and R: "\<And>j. url_clean (drop j R)"
  shows "url_clean (drop j (take (r + off) w @ redacted_url @ R))"
proof -
  let ?P = "take (r + off) w"
  have P: "length ?P = r + off" using len by simp
  consider "j < r + off" | "r + off \<le> j" "j < r + off + length redacted_url" | "r + off + length redacted_url \<le> j"
    by linarith
  then show ?thesis
  proof cases
    case 1
    then have eq: "drop j (?P @ redacted_url @ R) = (drop j ?P @ lit ''[REDACTED'') @ 32 # (lit ''URL]'' @ R)"
      using P by (simp add: redacted_url_def)
    show ?thesis
    proof (cases "url_starts (drop j ?P)")
      case True
      then have "\<not> list_ex secret_start (drop j ?P)"
        using url_in_window [OF len _ first none] 1 by simp
      then have "\<not> list_ex secret_start (drop j ?P @ lit ''[REDACTED'')" by (simp add: secret_start_def)
      then show ?thesis unfolding eq
        by (intro url_clean_before_stop) (simp_all add: url_stop_def is_whitespace_def)
    next
      case False
      have "drop j (?P @ redacted_url @ R) = drop j ?P @ 91 # (lit ''REDACTED URL]'' @ R)"
        using 1 P by (simp add: redacted_url_def)
      with False show ?thesis
        using url_starts_before [of 91 "drop j ?P"] by (auto simp: url_clean_def ascii_lower_def simp del: append_Cons)
    qed
  next
    case 2
    then have "hd (drop j (?P @ redacted_url @ R)) \<in> set redacted_url"
      using P by (simp add: hd_drop_conv_nth nth_append)
    then have "ascii_lower (hd (drop j (?P @ redacted_url @ R))) \<noteq> 104"
      by (auto simp: redacted_url_def ascii_lower_def)
    then show ?thesis using url_starts_hd by (auto simp: url_clean_def)
  next
    case 3
    then have "drop j (?P @ redacted_url @ R) = drop (j - (r + off + length redacted_url)) R"
      using P by simp
    with R show ?thesis by simp
  qed
qed

lemma clean_without_secret:
  assumes len: "r + e \<le> length w" and first: "\<forall>j<r. \<not> url_starts (drop j w)"
    and none: "\<not> list_ex secret_start (take e (drop r w))" and R: "\<And>j. url_clean (drop j R)"
    and next_: "R = [] \<and> drop (r + e) w = [] \<or> (\<exists>x t. R = x # t \<and> url_stop x)"
  shows "url_clean (drop j (take (r + e) w @ R))"
proof (cases "j < r + e")
  case True
  let ?P = "take (r + e) w"
  have eq: "drop j (?P @ R) = drop j ?P @ R" and ne: "drop j ?P \<noteq> []" using True len by auto
  have no: "\<not> list_ex secret_start (drop j ?P)" if "url_starts (drop j ?P)"
    using url_in_window [OF len _ first none _ that] True by simp
  from next_ show ?thesis
  proof
    assume "R = [] \<and> drop (r + e) w = []"
    then show ?thesis
      using no unfolding eq by (auto simp: url_clean_def list_ex_iff dest: in_set_takeD)
  next
    assume "\<exists>x t. R = x # t \<and> url_stop x"
    then obtain x t where x: "R = x # t" "url_stop x" by blast
    show ?thesis unfolding eq unfolding x(1)
      using ne x(2) no [OF url_starts_before [OF url_stop_lower [OF x(2)]]] by (rule url_clean_before_stop)
  qed
next
  case False
  then have "drop j (take (r + e) w @ R) = drop (j - (r + e)) R" using len by simp
  with R show ?thesis by simp
qed

lemma extent_end:
  "t \<noteq> [] \<Longrightarrow> drop (extent stop t) t = [] \<or> (\<exists>x u. drop (extent stop t) t = x # u \<and> stop x)"
proof (cases t)
  case (Cons c cs)
  show ?thesis
  proof (cases "position stop cs")
    case (Some n)
    then have "n < length cs" "stop (cs ! n)" using position_Some [OF Some] by auto
    then have "drop n cs = cs ! n # drop (Suc n) cs" by (simp add: Cons_nth_drop_Suc)
    with Some Cons \<open>stop (cs ! n)\<close> show ?thesis by (simp add: extent_def)
  qed (simp add: Cons extent_def)
qed simp

text \<open>What a round leaves behind position \<open>i\<close>: clean URLs, and the same stop character in front.\<close>

definition tail_ok :: "scalar_text \<Rightarrow> scalar_text \<Rightarrow> bool" where
  "tail_ok w R \<longleftrightarrow> (\<forall>j. url_clean (drop j R)) \<and> (w = [] \<longrightarrow> R = [])
     \<and> (\<forall>x t. w = x # t \<and> url_stop x \<longrightarrow> (\<exists>t'. R = x # t'))"

lemma tail_ok_prefix:
  assumes "\<And>j. url_clean (drop j (take n w @ R))" and "w \<noteq> []" and "\<not> url_starts w \<Longrightarrow> 0 < n"
  shows "tail_ok w (take n w @ R)"
proof -
  have "\<exists>t'. take n w @ R = x # t'" if "w = x # t" "url_stop x" for x t
  proof -
    have "\<not> url_starts w" using that url_starts_hd [of w] url_stop_lower [OF that(2)] by auto
    with assms(3) that show ?thesis by (cases n) auto
  qed
  with assms show ?thesis by (auto simp: tail_ok_def)
qed

lemma url_found:
  assumes "next_url (drop i (map ascii_lower v)) = Some r"
  shows "url_starts (drop r (drop i v))" and "\<forall>j<r. \<not> url_starts (drop j (drop i v))" and "drop (i + r) v \<noteq> []" and "drop i v \<noteq> []"
    and "0 < extent url_stop (drop (i + r) v)" and "r + extent url_stop (drop (i + r) v) \<le> length (drop i v)"
proof -
  from next_url_least [of "drop i v"] assms
  show "url_starts (drop r (drop i v))" "\<forall>j<r. \<not> url_starts (drop j (drop i v))" by (simp_all add: drop_map)
  have r: "i + r < length v" using next_url_bound [OF assms] by simp
  then show u: "drop (i + r) v \<noteq> []" and "drop i v \<noteq> []" by auto
  show "0 < extent url_stop (drop (i + r) v)" "r + extent url_stop (drop (i + r) v) \<le> length (drop i v)"
    using extent_bounds [OF u, of url_stop] r by auto
qed

text \<open>A URL without a query stays; one with a query is cut there.\<close>

lemma url_tail_kept:
  assumes some: "next_url (drop i (map ascii_lower v)) = Some r" and e: "e = extent url_stop (drop (i + r) v)"
    and none: "position secret_start (take e (drop (i + r) v)) = None"
    and R: "url_loop v (i + r + e) = take (i + r + e) v @ R" "tail_ok (drop (i + r + e) v) R"
  shows "url_loop v i = take i v @ take (r + e) (drop i v) @ R" and "tail_ok (drop i v) (take (r + e) (drop i v) @ R)"
proof -
  let ?w = "drop i v"
  note found = url_found [OF some, folded e]
  from extent_end [OF found(3), of url_stop] R(2)
  have "R = [] \<and> drop (r + e) ?w = [] \<or> (\<exists>x t. R = x # t \<and> url_stop x)"
    by (auto simp: e tail_ok_def add.commute add.left_commute)
  moreover have "\<not> list_ex secret_start (take e (drop r ?w))"
    using none by (simp add: position_None list_ex_iff add.commute)
  ultimately have "url_clean (drop j (take (r + e) ?w @ R))" for j
    using R(2) by (intro clean_without_secret [OF found(6,2)]) (auto simp: tail_ok_def)
  then show "tail_ok ?w (take (r + e) ?w @ R)" using found(4) by (rule tail_ok_prefix) (use found(5) in simp)
  show "url_loop v i = take i v @ take (r + e) ?w @ R"
    using some none R(1) by (simp add: url_loop.simps [of v i] Let_def take_add add.assoc e)
qed

lemma url_tail_redacted:
  assumes some: "next_url (drop i (map ascii_lower v)) = Some r" and e: "e = extent url_stop (drop (i + r) v)"
    and off: "position secret_start (take e (drop (i + r) v)) = Some off"
    and v': "v' = take (i + r + off) v @ redacted_url @ drop (i + r + e) v" "n = i + r + off + length redacted_url"
    and R: "url_loop v' n = take n v' @ R" "tail_ok (drop n v') R"
  shows "url_loop v i = take i v @ take (r + off) (drop i v) @ redacted_url @ R"
    and "tail_ok (drop i v) (take (r + off) (drop i v) @ redacted_url @ R)"
proof -
  let ?w = "drop i v"
  note found = url_found [OF some, folded e]
  from position_Some [OF off] have "off < e" by simp
  then have off_len: "r + off \<le> length ?w" using found(6) by simp
  have no: "\<not> list_ex secret_start (take off (drop r ?w))"
    using position_Some [OF off] \<open>off < e\<close> by (simp add: list_ex_iff add.commute)
  have "url_clean (drop j (take (r + off) ?w @ redacted_url @ R))" for j
    using R(2) by (intro clean_after_redaction [OF off_len found(2) no]) (auto simp: tail_ok_def)
  moreover have "0 < r + off" if "\<not> url_starts ?w" using found(1) that by (cases r) auto
  ultimately show "tail_ok ?w (take (r + off) ?w @ redacted_url @ R)" using found(4) by (intro tail_ok_prefix)
  have "i + r + off \<le> length v" using off_len found(4) by simp
  moreover have "url_loop v i = url_loop v' n" using some off by (simp add: url_loop.simps [of v i] Let_def e v')
  ultimately have "url_loop v i = take (i + r + off) v @ redacted_url @ R" using R(1) by (simp add: v')
  then show "url_loop v i = take i v @ take (r + off) ?w @ redacted_url @ R" by (simp add: take_add add.assoc)
qed

lemma url_loop_tail: "i \<le> length v \<Longrightarrow> \<exists>R. url_loop v i = take i v @ R \<and> tail_ok (drop i v) R"
proof (induction v i rule: url_loop.induct)
  case (1 v i)
  let ?w = "drop i v"
  show ?case
  proof (cases "next_url (drop i (map ascii_lower v))")
    case None
    with next_url_least [of ?w] have "url_clean (drop j ?w)" for j by (simp add: drop_map url_clean_def)
    then have "tail_ok ?w ?w" by (auto simp: tail_ok_def)
    with None show ?thesis by (auto simp: url_loop.simps [of v i] Let_def intro!: exI [of _ ?w])
  next
    case (Some r)
    let ?s = "i + r" and ?e = "extent url_stop (drop (i + r) v)"
    have fin: "?s + ?e \<le> length v" using url_found(3,6) [OF Some] by auto
    show ?thesis
    proof (cases "position secret_start (take ?e (drop ?s v))")
      case none: None
      from 1(1) [OF refl Some refl refl] none fin
      obtain R where "url_loop v (?s + ?e) = take (?s + ?e) v @ R" "tail_ok (drop (?s + ?e) v) R" by auto
      from url_tail_kept [OF Some refl none this] show ?thesis by blast
    next
      case off: (Some off)
      let ?v = "take (?s + off) v @ redacted_url @ drop (?s + ?e) v"
      from position_Some [OF off] fin have "?s + off + length redacted_url \<le> length ?v" by simp
      with 1(2) [OF refl Some refl refl, of off] off
      obtain R where "url_loop ?v (?s + off + length redacted_url) = take (?s + off + length redacted_url) ?v @ R"
        "tail_ok (drop (?s + off + length redacted_url) ?v) R" by (auto simp del: take_append drop_append)
      from url_tail_redacted [OF Some refl off refl refl this] show ?thesis by blast
    qed
  qed
qed

text \<open>
  C32: The URL pass is complete: in the text it returns, no \<open>http\<close> or \<open>https\<close> URL, in upper or
  lower case and starting at any position, has a question mark or number sign before its end. So
  neither a query nor a fragment is left behind.
\<close>

theorem no_url_secret_left: "url_clean (drop i (redact_url_query_and_fragment value))"
proof -
  obtain R where "url_loop value 0 = R" "tail_ok value R" using url_loop_tail [of 0 "value"] by auto
  then show ?thesis unfolding redact_url_query_and_fragment_def tail_ok_def by blast
qed

end
