(* ===== verification/Diagnostics.thy ===== *)
theory Diagnostics
  imports Redaction
begin

text \<open>
  Building diagnostics and observing them (\<open>diagnostics.rs\<close>): codes, authentication evidence, phase
  transitions, failure diagnostics with their text budget, and the observers that admit a sequence of
  phase events. The wall clock is an argument, and so is the answer of the task store that the
  journal observer waits for.
\<close>

definition DIAGNOSTIC_SCHEMA_V1 :: u16 where "DIAGNOSTIC_SCHEMA_V1 = 1"
definition MAX_CAUSES :: nat where "MAX_CAUSES = 8"
definition MAX_STDERR_LINES :: nat where "MAX_STDERR_LINES = 32"
definition MAX_DIAGNOSTIC_TEXT_BYTES :: nat where "MAX_DIAGNOSTIC_TEXT_BYTES = 8 * 1024"

section \<open>Codes\<close>

text \<open>The full stop 46, underscore 95 and hyphen 45 besides lower-case letters and digits.\<close>

definition code_char :: "nat \<Rightarrow> bool" where
  "code_char c \<longleftrightarrow> lowercase_scalar c \<or> digit_scalar c \<or> c = 46 \<or> c = 95 \<or> c = 45"

definition DiagnosticCode_build_inner ::
  "scalar_text \<Rightarrow> DiagnosticRedactor option \<Rightarrow> DiagnosticBuildError + scalar_text" where
  "DiagnosticCode_build_inner value redactor =
     (if value = [] \<or> MAX_CODE_BYTES < text_len value \<or> \<not> list_all code_char value
         \<or> (case redactor of None \<Rightarrow> False | Some r \<Rightarrow> contains_known_value r value)
         \<or> looks_secret_shaped value
      then Inl InvalidCode else Inr value)"

definition DiagnosticCode_build :: "scalar_text \<Rightarrow> DiagnosticRedactor \<Rightarrow> DiagnosticBuildError + scalar_text" where
  "DiagnosticCode_build value r = DiagnosticCode_build_inner value (Some r)"

definition DiagnosticCode_build_static :: "scalar_text \<Rightarrow> DiagnosticBuildError + scalar_text" where
  "DiagnosticCode_build_static value = DiagnosticCode_build_inner value None"

section \<open>Authentication evidence\<close>

datatype AuthenticationEvidenceInput =
  InPreAuthenticated "scalar_text list"
| InConfiguredMethod scalar_text bool
| InSelectedAdvertisedMethod scalar_text
| InNoMethodsAdvertised
| InApiKeyEnv scalar_text bool
| InNotApplicable

datatype AuthenticationEvidence =
  PreAuthenticated "RedactedDiagnosticId list" u16
| ConfiguredMethod RedactedDiagnosticId bool
| SelectedAdvertisedMethod RedactedDiagnosticId
| NoMethodsAdvertised
| ApiKeyEnv RedactedDiagnosticId bool
| NotApplicable

definition id_text :: "RedactedDiagnosticId \<Rightarrow> scalar_text" where
  "id_text i = (case as_value i of Some v \<Rightarrow> v | None \<Rightarrow> [])"

definition build_redacted_ids :: "scalar_text list \<Rightarrow> DiagnosticRedactor \<Rightarrow> RedactedDiagnosticId list" where
  "build_redacted_ids values r =
     (let ids = map (sanitize_id r) values;
          sensitive = adjacent_sensitive_indices r (map id_text ids)
      in map (\<lambda>(i, s). if s then IdRedacted else i) (zip ids sensitive))"

fun AuthenticationEvidence_build ::
  "AuthenticationEvidenceInput \<Rightarrow> DiagnosticRedactor \<Rightarrow> AuthenticationEvidence" where
  "AuthenticationEvidence_build (InPreAuthenticated ids) r =
     PreAuthenticated (build_redacted_ids (take MAX_AUTH_METHODS ids) r)
       (if length ids < 65536 then of_nat (length ids) else 65535)"
| "AuthenticationEvidence_build (InConfiguredMethod i adv) r = ConfiguredMethod (sanitize_id r i) adv"
| "AuthenticationEvidence_build (InSelectedAdvertisedMethod i) r = SelectedAdvertisedMethod (sanitize_id r i)"
| "AuthenticationEvidence_build InNoMethodsAdvertised r = NoMethodsAdvertised"
| "AuthenticationEvidence_build (InApiKeyEnv name present) r = ApiKeyEnv (sanitize_id r name) present"
| "AuthenticationEvidence_build InNotApplicable r = NotApplicable"

fun dynamic_values :: "AuthenticationEvidence \<Rightarrow> scalar_text list" where
  "dynamic_values (PreAuthenticated ids _) = map id_text ids"
| "dynamic_values (ConfiguredMethod i _) = [id_text i]"
| "dynamic_values (SelectedAdvertisedMethod i) = [id_text i]"
| "dynamic_values (ApiKeyEnv i _) = [id_text i]"
| "dynamic_values _ = []"

text \<open>\<open>sensitive.get(index).copied().unwrap_or(false)\<close>\<close>

definition flag_at :: "bool list \<Rightarrow> nat \<Rightarrow> bool" where
  "flag_at flags n \<longleftrightarrow> n < length flags \<and> flags ! n"

definition redact_if :: "bool \<Rightarrow> RedactedDiagnosticId \<Rightarrow> RedactedDiagnosticId" where
  "redact_if s i = (if s then IdRedacted else i)"

fun apply_sensitive_indices :: "AuthenticationEvidence \<Rightarrow> bool list \<Rightarrow> AuthenticationEvidence" where
  "apply_sensitive_indices (PreAuthenticated ids n) sensitive =
     PreAuthenticated (map (\<lambda>(k, i). redact_if (flag_at sensitive k) i) (enumerate 0 ids)) n"
| "apply_sensitive_indices (ConfiguredMethod i adv) sensitive = ConfiguredMethod (redact_if (flag_at sensitive 0) i) adv"
| "apply_sensitive_indices (SelectedAdvertisedMethod i) sensitive = SelectedAdvertisedMethod (redact_if (flag_at sensitive 0) i)"
| "apply_sensitive_indices (ApiKeyEnv i present) sensitive = ApiKeyEnv (redact_if (flag_at sensitive 0) i) present"
| "apply_sensitive_indices a sensitive = a"

section \<open>Phase transitions\<close>

datatype PhaseStatus = Started | Completed | Skipped | Failed

datatype DiagnosticOperation = OpMode | OpModel | OpEffort

record PersistedPhaseTransitionInput =
  in_phase :: DiagnosticPhase
  in_status :: PhaseStatus
  in_at_ms :: int
  in_operation :: "DiagnosticOperation option"
  in_code :: "scalar_text option"
  in_auth :: "AuthenticationEvidenceInput option"

record PersistedPhaseTransition =
  tr_phase :: DiagnosticPhase
  tr_status :: PhaseStatus
  tr_at_ms :: int
  tr_operation :: "DiagnosticOperation option"
  tr_code :: "scalar_text option"
  tr_auth :: "AuthenticationEvidence option"

definition transition_code ::
  "scalar_text option \<Rightarrow> DiagnosticRedactor \<Rightarrow> bool \<Rightarrow> DiagnosticBuildError + scalar_text option" where
  "transition_code cod r static_code =
     (case cod of
        None \<Rightarrow> Inr None
      | Some c \<Rightarrow> rbind (if static_code then DiagnosticCode_build_static c else DiagnosticCode_build c r)
                   (\<lambda>c. Inr (Some c)))"

definition PersistedPhaseTransition_build_inner ::
  "PersistedPhaseTransitionInput \<Rightarrow> DiagnosticRedactor \<Rightarrow> bool \<Rightarrow> DiagnosticBuildError + PersistedPhaseTransition" where
  "PersistedPhaseTransition_build_inner input r static_code =
     rbind (transition_code (in_code input) r static_code) (\<lambda>cod.
       rbind (case map_option (\<lambda>a. AuthenticationEvidence_build a r) (in_auth input) of
                None \<Rightarrow> Inr None
              | Some auth \<Rightarrow>
                  (let dynamic = (if static_code then [] else case cod of Some c \<Rightarrow> c | None \<Rightarrow> [])
                                 # dynamic_values auth;
                       sensitive = adjacent_sensitive_indices r dynamic
                   in if flag_at sensitive 0 then Inl InvalidCode
                      else Inr (Some (apply_sensitive_indices auth (drop 1 sensitive)))))
         (\<lambda>auth. Inr \<lparr>tr_phase = in_phase input, tr_status = in_status input, tr_at_ms = in_at_ms input,
            tr_operation = in_operation input, tr_code = cod, tr_auth = auth\<rparr>))"

section \<open>Failure diagnostics\<close>

text \<open>Each text is cut to what is left of the budget, in order.\<close>

fun bound_texts :: "nat \<Rightarrow> scalar_text list \<Rightarrow> scalar_text list \<times> nat" where
  "bound_texts remaining [] = ([], remaining)"
| "bound_texts remaining (v # vs) =
     (let v' = (if remaining < text_len v then truncate_utf8 v remaining else v);
          (vs', rest) = bound_texts (remaining - text_len v') vs
      in (v' # vs', rest))"

definition enforce_text_budget ::
  "scalar_text \<Rightarrow> scalar_text list \<Rightarrow> scalar_text list option
     \<Rightarrow> scalar_text \<times> scalar_text list \<times> scalar_text list option" where
  "enforce_text_budget summ caus tail =
     (let (summ', r1) = bound_texts MAX_DIAGNOSTIC_TEXT_BYTES [summ];
          (caus', r2) = bound_texts r1 caus
      in (hd summ', caus', map_option (\<lambda>lines. fst (bound_texts r2 lines)) tail))"

definition select_causes :: "scalar_text list \<Rightarrow> scalar_text list" where
  "select_causes cs = (if MAX_CAUSES < length cs then take 2 cs @ drop (length cs - 6) cs else cs)"

definition mark_sensitive :: "bool list \<Rightarrow> nat \<Rightarrow> scalar_text list \<Rightarrow> scalar_text list" where
  "mark_sensitive sensitive first vs =
     map (\<lambda>(k, v). if flag_at sensitive k then REDACTED_KNOWN_SECRET else v) (enumerate first vs)"

definition FailureDiagnostic_build_inner ::
  "FailureDiagnosticInput \<Rightarrow> DiagnosticRedactor \<Rightarrow> int option \<Rightarrow> bool \<Rightarrow> DiagnosticBuildError + FailureDiagnostic" where
  "FailureDiagnostic_build_inner input r reference_time_ms static_code =
     rbind (validate_disposition input) (\<lambda>_.
     rbind (validate_stderr input) (\<lambda>_.
     rbind (validate_retry_metadata input reference_time_ms) (\<lambda>_.
     rbind (if static_code then DiagnosticCode_build_static (code input) else DiagnosticCode_build (code input) r)
       (\<lambda>cod.
        let caus = sanitize_collection r (select_causes (causes input));
            summ = sanitize_text r (summary input) MAX_TEXT_FIELD_BYTES;
            tail = map_option (\<lambda>lines. sanitize_collection r (take MAX_STDERR_LINES lines)) (stderr_tail input);
            all_dynamic = (if static_code then [] else cod) # summ # caus
                          @ (case tail of Some lines \<Rightarrow> lines | None \<Rightarrow> []);
            sensitive = adjacent_sensitive_indices r all_dynamic
        in if flag_at sensitive 0 then Inl InvalidCode
           else let summ = (if flag_at sensitive 1 then REDACTED_KNOWN_SECRET else summ);
                    tail = map_option (mark_sensitive sensitive (2 + length caus)) tail;
                    caus = mark_sensitive sensitive 2 caus;
                    (summ, caus, tail) = enforce_text_budget summ caus tail
                in Inr \<lparr>failed_phase = failed_phase input, last_completed_phase = last_completed_phase input,
                     failure_class = failure_class input, disposition = disposition input, code = cod,
                     summary = summ, causes = caus, stderr_observed = stderr_observed input,
                     stderr_line_count = stderr_line_count input, stderr_scope = stderr_scope input,
                     stderr_tail = tail, stderr_redaction = stderr_redaction input,
                     retry_after_ms = retry_after_ms input, reset_at_ms = reset_at_ms input,
                     prompt_may_have_been_accepted = prompt_may_have_been_accepted input,
                     schema_version = DIAGNOSTIC_SCHEMA_V1\<rparr>))))"

definition teardown_marker :: scalar_text where "teardown_marker = lit ''teardown.secondary''"

definition with_secondary_teardown_marker :: "FailureDiagnostic \<Rightarrow> FailureDiagnostic" where
  "with_secondary_teardown_marker d =
     (let kept = filter (\<lambda>c. c \<noteq> teardown_marker) (causes d);
          kept = (if length kept = MAX_CAUSES then butlast kept else kept);
          (summ, caus, tail) = enforce_text_budget (summary d) (teardown_marker # kept) (stderr_tail d)
      in d\<lparr>summary := summ, causes := caus, stderr_tail := tail\<rparr>)"

section \<open>Events and observers\<close>

record DiagnosticEvent =
  transition :: PersistedPhaseTransition
  failure :: "FailureDiagnostic option"

definition DiagnosticEvent_new ::
  "PersistedPhaseTransition \<Rightarrow> FailureDiagnostic option \<Rightarrow> DiagnosticBuildError + DiagnosticEvent" where
  "DiagnosticEvent_new tr fail =
     (if (case fail of None \<Rightarrow> False
          | Some f \<Rightarrow> tr_status tr \<noteq> Failed \<or> tr_phase tr \<noteq> failed_phase f)
      then Inl InvalidEvent else Inr \<lparr>transition = tr, failure = fail\<rparr>)"

type_synonym OpenTransition = "DiagnosticPhase \<times> DiagnosticOperation option"

definition event_key :: "DiagnosticEvent \<Rightarrow> OpenTransition" where
  "event_key e = (tr_phase (transition e), tr_operation (transition e))"

abbreviation event_status :: "DiagnosticEvent \<Rightarrow> PhaseStatus" where
  "event_status e \<equiv> tr_status (transition e)"

text \<open>\<open>DiagnosticSequence::accept\<close>; the transition that ends is removed at its last position.\<close>

definition accept :: "OpenTransition list \<Rightarrow> DiagnosticEvent \<Rightarrow> BridgeError + OpenTransition list" where
  "accept opened e =
     (let key = event_key e in
      case event_status e of
        Started \<Rightarrow> if key \<in> set opened then Inl InvalidStateTransition else Inr (opened @ [key])
      | _ \<Rightarrow> if key \<in> set opened then Inr (rev (remove1 key (rev opened))) else Inl InvalidStateTransition)"

definition noop_observe :: "OpenTransition list \<Rightarrow> DiagnosticEvent \<Rightarrow> BridgeError + OpenTransition list" where
  "noop_observe s e = accept s e"

record InMemoryDiagnosticObserver =
  capacity :: nat
  include_redacted_stderr :: bool
  opened :: "OpenTransition list"
  events :: "DiagnosticEvent list"
  dropped :: u64

definition InMemoryDiagnosticObserver_new :: "nat \<Rightarrow> DiagnosticBuildError + InMemoryDiagnosticObserver" where
  "InMemoryDiagnosticObserver_new cap =
     (if cap = 0 then Inl InvalidObserverCapacity
      else Inr \<lparr>capacity = cap, include_redacted_stderr = False, opened = [], events = [], dropped = 0\<rparr>)"

definition in_memory_record ::
  "InMemoryDiagnosticObserver \<Rightarrow> DiagnosticEvent \<Rightarrow> BridgeError + InMemoryDiagnosticObserver" where
  "in_memory_record s e =
     rbind (accept (opened s) e) (\<lambda>opened'.
       let s = s\<lparr>opened := opened'\<rparr>;
           s = (if length (events s) = capacity s
                then s\<lparr>events := drop 1 (events s), dropped := sat_add (dropped s) 1\<rparr> else s)
       in Inr (s\<lparr>events := events s @ [e]\<rparr>))"

text \<open>The journal observer: the staged sequence takes effect only after the store has persisted the event.\<close>

definition commit_after_persist ::
  "(DiagnosticEvent \<Rightarrow> BridgeError + unit) \<Rightarrow> OpenTransition list \<Rightarrow> DiagnosticEvent
     \<Rightarrow> BridgeError + OpenTransition list" where
  "commit_after_persist persist s e =
     rbind (accept s e) (\<lambda>staged. rbind (persist e) (\<lambda>_. Inr staged))"

section \<open>The text budget\<close>

lemma bound_texts_budget: "bound_texts n vs = (ws, r) \<Longrightarrow> sum_list (map text_len ws) + r = n"
proof (induction n vs arbitrary: ws r rule: bound_texts.induct)
  case (2 n v vs)
  let ?v = "if n < text_len v then truncate_utf8 v n else v"
  obtain ws' where ws: "ws = ?v # ws'" "bound_texts (n - text_len ?v) vs = (ws', r)"
    using 2(2) by (auto simp: Let_def split: prod.splits)
  have "text_len ?v \<le> n" using truncate_utf8_len [of v n] by simp
  with 2(1) [OF refl ws(2)] ws(1) show ?case by simp
qed simp

lemma bound_texts_prefixes:
  "bound_texts n vs = (ws, r) \<Longrightarrow> list_all2 (\<lambda>v w. \<exists>rest. v = w @ rest) vs ws"
proof (induction n vs arbitrary: ws r rule: bound_texts.induct)
  case (2 n v vs)
  let ?v = "if n < text_len v then truncate_utf8 v n else v"
  obtain ws' where ws: "ws = ?v # ws'" "bound_texts (n - text_len ?v) vs = (ws', r)"
    using 2(2) by (auto simp: Let_def split: prod.splits)
  with 2(1) [OF refl ws(2)] truncate_utf8_prefix [of v n] show ?case by auto
qed simp

lemma bound_texts_one: "bound_texts n [v] = (ws, r) \<Longrightarrow> \<exists>w. ws = [w]"
  by (auto simp: Let_def)

definition tail_lines :: "scalar_text list option \<Rightarrow> scalar_text list" where
  "tail_lines t = (case t of None \<Rightarrow> [] | Some ls \<Rightarrow> ls)"

text \<open>The texts of a diagnostic in the order of the budget.\<close>

lemma enforce_text_budget_spec:
  assumes "enforce_text_budget summ caus tail = (summ', caus', tail')"
  shows "text_len summ' + sum_list (map text_len caus') + sum_list (map text_len (tail_lines tail')) \<le> MAX_DIAGNOSTIC_TEXT_BYTES"
    and "list_all2 (\<lambda>v w. \<exists>rest. v = w @ rest) (summ # caus @ tail_lines tail) (summ' # caus' @ tail_lines tail')"
    and "length caus' = length caus" and "map_option length tail' = map_option length tail"
proof -
  obtain w r1 r2 where b1: "bound_texts MAX_DIAGNOSTIC_TEXT_BYTES [summ] = ([w], r1)"
    and b2: "bound_texts r1 caus = (caus', r2)" and w: "summ' = w"
    and t: "tail' = map_option (\<lambda>lines. fst (bound_texts r2 lines)) tail"
    using assms bound_texts_one by (auto simp: enforce_text_budget_def Let_def split: prod.splits)
  have e: "text_len w + r1 = MAX_DIAGNOSTIC_TEXT_BYTES" using bound_texts_budget [OF b1] by simp
  have e2: "sum_list (map text_len caus') + r2 = r1" using bound_texts_budget [OF b2] .
  have e3: "sum_list (map text_len (tail_lines tail')) \<le> r2
      \<and> list_all2 (\<lambda>v w. \<exists>rest. v = w @ rest) (tail_lines tail) (tail_lines tail')"
  proof (cases tail)
    case (Some ls)
    obtain ws r3 where "bound_texts r2 ls = (ws, r3)" by fastforce
    with bound_texts_budget [OF this] bound_texts_prefixes [OF this] Some t show ?thesis
      by (simp add: tail_lines_def)
  qed (simp add: t tail_lines_def)
  show "text_len summ' + sum_list (map text_len caus') + sum_list (map text_len (tail_lines tail')) \<le> MAX_DIAGNOSTIC_TEXT_BYTES"
    using e e2 e3 w by simp
  show "list_all2 (\<lambda>v w. \<exists>rest. v = w @ rest) (summ # caus @ tail_lines tail) (summ' # caus' @ tail_lines tail')"
    using bound_texts_prefixes [OF b1] bound_texts_prefixes [OF b2] e3 w by (simp add: list_all2_appendI)
  show "length caus' = length caus" using bound_texts_prefixes [OF b2] by (auto dest: list_all2_lengthD)
  show "map_option length tail' = map_option length tail"
    using e3 t by (cases tail) (auto simp: tail_lines_def dest: list_all2_lengthD)
qed

lemma prefix_fields:
  assumes "list_all2 (\<lambda>v w. \<exists>rest. v = w @ rest) vs ws" and "list_all P vs"
    and "\<And>v w rest. P v \<Longrightarrow> v = w @ rest \<Longrightarrow> P w"
  shows "list_all P ws"
  using assms(1,2) by (induction rule: list_all2_induct) (auto dest: assms(3))

section \<open>What a built diagnostic holds\<close>

lemma length_spans_from [simp]: "length (spans_from n vs) = length vs"
  by (induction vs arbitrary: n) simp_all

lemma length_adjacent [simp]: "length (adjacent_sensitive_indices r vs) = length vs"
  by (simp add: adjacent_sensitive_indices_def)

lemma length_sanitize_collection [simp]: "length (sanitize_collection r vs) = length vs"
  by (simp add: sanitize_collection_def Let_def)

text \<open>A property of the redaction marker and of every sanitised text holds in every field.\<close>

lemma sanitize_collection_all:
  assumes "P REDACTED_KNOWN_SECRET" and "\<And>v. P (sanitize_text r v MAX_TEXT_FIELD_BYTES)"
  shows "list_all P (sanitize_collection r vs)"
  using assms by (auto simp: sanitize_collection_def list_all_iff Let_def)

lemma mark_sensitive_all: "P REDACTED_KNOWN_SECRET \<Longrightarrow> list_all P vs \<Longrightarrow> list_all P (mark_sensitive fl n vs)"
  by (auto simp: mark_sensitive_def list_all_iff in_set_enumerate_eq)

lemma length_mark_sensitive [simp]: "length (mark_sensitive fl n vs) = length vs"
  by (simp add: mark_sensitive_def)

lemma length_select_causes: "length (select_causes cs) \<le> MAX_CAUSES"
  by (simp add: select_causes_def MAX_CAUSES_def)

definition diagnostic_code :: "FailureDiagnosticInput \<Rightarrow> DiagnosticRedactor \<Rightarrow> bool \<Rightarrow> DiagnosticBuildError + scalar_text" where
  "diagnostic_code input r static_code =
     (if static_code then DiagnosticCode_build_static (code input) else DiagnosticCode_build (code input) r)"

lemma build_inner_InrE:
  assumes "FailureDiagnostic_build_inner input r now static_code = Inr d"
  obtains flags where
    "validate_disposition input = Inr ()" "validate_stderr input = Inr ()"
    "diagnostic_code input r static_code = Inr (code d)"
    "enforce_text_budget
       (if flag_at flags 1 then REDACTED_KNOWN_SECRET else sanitize_text r (summary input) MAX_TEXT_FIELD_BYTES)
       (mark_sensitive flags 2 (sanitize_collection r (select_causes (causes input))))
       (map_option (mark_sensitive flags (2 + length (select_causes (causes input))))
          (map_option (\<lambda>lines. sanitize_collection r (take MAX_STDERR_LINES lines)) (stderr_tail input)))
     = (summary d, causes d, stderr_tail d)"
    "failed_phase d = failed_phase input" "failure_class d = failure_class input"
    "disposition d = disposition input" "prompt_may_have_been_accepted d = prompt_may_have_been_accepted input"
proof -
  from assms obtain cod where v: "validate_disposition input = Inr ()" "validate_stderr input = Inr ()"
    and c: "diagnostic_code input r static_code = Inr cod"
    by (auto simp: FailureDiagnostic_build_inner_def diagnostic_code_def rbind_Inr_iff)
  obtain m where m: "validate_retry_metadata input now = Inr m"
    using assms v by (auto simp: FailureDiagnostic_build_inner_def rbind_Inr_iff)
  let ?caus = "sanitize_collection r (select_causes (causes input))"
  let ?summ = "sanitize_text r (summary input) MAX_TEXT_FIELD_BYTES"
  let ?tail = "map_option (\<lambda>lines. sanitize_collection r (take MAX_STDERR_LINES lines)) (stderr_tail input)"
  define flags where "flags = adjacent_sensitive_indices r
    ((if static_code then [] else cod) # ?summ # ?caus @ (case ?tail of Some lines \<Rightarrow> lines | None \<Rightarrow> []))"
  obtain summ caus tail where e: "enforce_text_budget (if flag_at flags 1 then REDACTED_KNOWN_SECRET else ?summ)
      (mark_sensitive flags 2 ?caus) (map_option (mark_sensitive flags (2 + length ?caus)) ?tail) = (summ, caus, tail)"
    by (metis prod_cases3)
  have "FailureDiagnostic_build_inner input r now static_code =
     (if flag_at flags 0 then Inl InvalidCode
      else Inr \<lparr>failed_phase = failed_phase input, last_completed_phase = last_completed_phase input,
             failure_class = failure_class input, disposition = disposition input, code = cod,
             summary = summ, causes = caus, stderr_observed = stderr_observed input,
             stderr_line_count = stderr_line_count input, stderr_scope = stderr_scope input,
             stderr_tail = tail, stderr_redaction = stderr_redaction input,
             retry_after_ms = retry_after_ms input, reset_at_ms = reset_at_ms input,
             prompt_may_have_been_accepted = prompt_may_have_been_accepted input,
             schema_version = DIAGNOSTIC_SCHEMA_V1\<rparr>)"
    unfolding FailureDiagnostic_build_inner_def v c [unfolded diagnostic_code_def] m rbind_simps Let_def
      flags_def [symmetric] e prod.case ..
  with assms have d: "code d = cod" "summary d = summ" "causes d = caus" "stderr_tail d = tail"
    "failed_phase d = failed_phase input" "failure_class d = failure_class input"
    "disposition d = disposition input" "prompt_may_have_been_accepted d = prompt_may_have_been_accepted input"
    by (auto split: if_splits)
  show ?thesis
    by (rule that [OF v, of flags]) (use c e d in simp_all)
qed

lemma built_fields:
  assumes "FailureDiagnostic_build_inner input r now static_code = Inr d"
    and marker: "P REDACTED_KNOWN_SECRET" and sanitized: "\<And>v. P (sanitize_text r v MAX_TEXT_FIELD_BYTES)"
    and prefix: "\<And>v w rest. P v \<Longrightarrow> v = w @ rest \<Longrightarrow> P w"
  shows "list_all P (summary d # causes d @ tail_lines (stderr_tail d))"
proof -
  note all = mark_sensitive_all [of P, OF marker sanitize_collection_all [of P, OF marker sanitized]]
  from assms(1) show ?thesis
  proof (rule build_inner_InrE, goal_cases)
    case (1 flags)
    show ?case
      by (rule prefix_fields [OF enforce_text_budget_spec(2) [OF 1(4)] _ prefix])
        (use all marker sanitized in \<open>auto simp: tail_lines_def split: option.splits\<close>)
  qed
qed

lemma diagnostic_code_Inr:
  assumes "diagnostic_code input r static_code = Inr c"
  shows "c \<noteq> []" "text_len c \<le> MAX_CODE_BYTES" "list_all code_char c"
    "\<not> static_code \<Longrightarrow> \<not> contains_known_value r c"
  using assms
  by (auto simp: diagnostic_code_def DiagnosticCode_build_def DiagnosticCode_build_static_def
      DiagnosticCode_build_inner_def split: if_splits)

lemma redacted_len: "text_len REDACTED_KNOWN_SECRET \<le> MAX_TEXT_FIELD_BYTES"
  by (simp add: REDACTED_KNOWN_SECRET_def len_utf8_def MAX_TEXT_FIELD_BYTES_def)

text \<open>
  C30: A diagnostic that the builder returns keeps its bounds: the code is between 1 and 64 bytes of the
  code alphabet, there are at most 8 causes and 32 lines of standard error, each text has at most 512
  bytes and all texts together at most 8192, and its disposition passes the admission rule again.
\<close>

theorem built_diagnostic_bounded:
  assumes "FailureDiagnostic_build_inner input r now static_code = Inr d"
  shows "code d \<noteq> [] \<and> text_len (code d) \<le> 64 \<and> list_all code_char (code d)
       \<and> length (causes d) \<le> 8 \<and> length (tail_lines (stderr_tail d)) \<le> 32
       \<and> list_all (\<lambda>t. text_len t \<le> 512) (summary d # causes d @ tail_lines (stderr_tail d))
       \<and> text_len (summary d) + sum_list (map text_len (causes d))
           + sum_list (map text_len (tail_lines (stderr_tail d))) \<le> 8192
       \<and> validate_disposition d = Inr ()"
proof -
  have fields: "list_all (\<lambda>t. text_len t \<le> MAX_TEXT_FIELD_BYTES) (summary d # causes d @ tail_lines (stderr_tail d))"
    by (rule built_fields [OF assms]) (auto intro: redacted_len sanitize_text_len)
  from assms show ?thesis
  proof (rule build_inner_InrE, goal_cases)
    case (1 flags)
    note budget = enforce_text_budget_spec [OF 1(4)]
    have "length (causes d) \<le> 8"
      using budget(3) length_select_causes [of "causes input"] by (simp add: MAX_CAUSES_def)
    moreover have "length (tail_lines (stderr_tail d)) \<le> 32"
      using budget(4) by (cases "stderr_tail input") (auto simp: tail_lines_def MAX_STDERR_LINES_def)
    moreover have "validate_disposition d = validate_disposition input"
      unfolding validate_disposition_def barrier_is_consistent_def 1(5-8) ..
    then have "validate_disposition d = Inr ()" using 1(1) by simp
    ultimately show ?case
      using fields budget(1) diagnostic_code_Inr [OF 1(3)]
      by (simp add: MAX_CODE_BYTES_def MAX_TEXT_FIELD_BYTES_def MAX_DIAGNOSTIC_TEXT_BYTES_def)
  qed
qed

text \<open>
  C29: No known credential value is left in a built diagnostic, provided that the value is not empty, has no bracket,
  tilde or blank and is not a part of a word of the redaction markers: not in the summary, a cause or a line of standard error, and not in the code unless
  the code is a static one of the bridge, which is checked for its form and not redacted.
\<close>

theorem built_diagnostic_redacted:
  assumes "FailureDiagnostic_build_inner input (with_known_values (DiagnosticRedactor_new home vs) ws) now static_code = Inr d"
    and "plain_secret k" and "k \<in> set vs \<union> set ws"
  shows "list_all (\<lambda>t. \<not> occurs k t) (summary d # causes d @ tail_lines (stderr_tail d))
       \<and> (static_code \<or> \<not> occurs k (code d))"
proof -
  let ?r = "with_known_values (DiagnosticRedactor_new home vs) ws"
  from assms(2,3) have k: "k \<in> set (known_values ?r)" using plain_secretD(1) [OF assms(2)]
    by (auto simp: with_known_values_def DiagnosticRedactor_new_def)
  have "list_all (\<lambda>t. \<not> occurs k t) (summary d # causes d @ tail_lines (stderr_tail d))"
  proof (rule built_fields [OF assms(1)])
    show "\<not> occurs k REDACTED_KNOWN_SECRET" using occurs_marker_alone [OF assms(2)] by simp
    show "\<not> occurs k (sanitize_text ?r v MAX_TEXT_FIELD_BYTES)" for v
      by (rule sanitize_text_free [OF assms(2) k redactor_ok_known [OF redactor_ok_new]])
    show "\<not> occurs k w" if "\<not> occurs k v" "v = w @ rest" for v w rest using occurs_prefix [OF that] .
  qed
  moreover have "static_code \<or> \<not> occurs k (code d)"
    using assms(1)
  proof (rule build_inner_InrE, goal_cases)
    case (1 flags)
    from diagnostic_code_Inr(4) [OF 1(3)] k show ?case by (auto simp: contains_known_value_def list_ex_iff)
  qed
  ultimately show ?thesis by blast
qed

definition example_input :: FailureDiagnosticInput where
  "example_input =
     \<lparr>failed_phase = Spawn, last_completed_phase = Some Resolve, failure_class = ClassAgentProcess,
      disposition = Fatal, code = lit ''agent.exit'', summary = lit ''key pw'', causes = [lit ''pw''],
      stderr_observed = False, stderr_line_count = 0, stderr_scope = None, stderr_tail = None,
      stderr_redaction = None, retry_after_ms = None, reset_at_ms = None,
      prompt_may_have_been_accepted = False\<rparr>"

lemma example_builds:
  "is_ok (FailureDiagnostic_build_inner example_input (with_known_values (DiagnosticRedactor_new None [lit ''pw'']) []) None False)"
  by code_simp

theorem built_diagnostic_bounded_witness:
  "\<exists>d. FailureDiagnostic_build_inner example_input (with_known_values (DiagnosticRedactor_new None [lit ''pw'']) []) None False = Inr d
     \<and> length (causes d) \<le> 8"
proof -
  obtain d where d: "FailureDiagnostic_build_inner example_input (with_known_values (DiagnosticRedactor_new None [lit ''pw'']) []) None False = Inr d"
    using example_builds by (auto simp: is_ok_def split: sum.splits)
  with built_diagnostic_bounded [OF d] show ?thesis by blast
qed

theorem built_diagnostic_redacted_witness:
  "\<exists>d. FailureDiagnostic_build_inner example_input (with_known_values (DiagnosticRedactor_new None [lit ''pw'']) []) None False = Inr d
     \<and> \<not> occurs (lit ''pw'') (summary d)"
proof -
  obtain d where d: "FailureDiagnostic_build_inner example_input (with_known_values (DiagnosticRedactor_new None [lit ''pw'']) []) None False = Inr d"
    using example_builds by (auto simp: is_ok_def split: sum.splits)
  have "plain_secret (lit ''pw'')" by (simp add: plain_secret_def occurs_def starts_with_def)
  from built_diagnostic_redacted [OF d this] d show ?thesis by auto
qed

section \<open>The grammar of phase events\<close>

fun accept_all :: "OpenTransition list \<Rightarrow> DiagnosticEvent list \<Rightarrow> BridgeError + OpenTransition list" where
  "accept_all s [] = Inr s"
| "accept_all s (e # es) = rbind (accept s e) (\<lambda>s'. accept_all s' es)"

text \<open>A transition that is closed can only start, and one that is open can only end.\<close>

fun alternates :: "bool \<Rightarrow> PhaseStatus list \<Rightarrow> bool" where
  "alternates is_open [] = True"
| "alternates is_open (st # sts) \<longleftrightarrow> (st = Started) \<noteq> is_open \<and> alternates (\<not> is_open) sts"

definition statuses_of :: "OpenTransition \<Rightarrow> DiagnosticEvent list \<Rightarrow> PhaseStatus list" where
  "statuses_of key es = map event_status (filter (\<lambda>e. event_key e = key) es)"

lemma statuses_of_simps [simp]:
  "statuses_of key [] = []"
  "statuses_of key (e # es) = (if event_key e = key then event_status e # statuses_of key es else statuses_of key es)"
  by (simp_all add: statuses_of_def)

lemma accept_cases:
  assumes "distinct s"
  shows "if (event_status e = Started) \<noteq> (event_key e \<in> set s)
         then \<exists>s'. accept s e = Inr s' \<and> distinct s'
                \<and> set s' = (if event_status e = Started then insert (event_key e) (set s) else set s - {event_key e})
         else accept s e = Inl InvalidStateTransition"
  using assms by (cases "event_status e") (auto simp: accept_def Let_def)

lemma accept_all_iff:
  "distinct s \<Longrightarrow> is_ok (accept_all s es) \<longleftrightarrow> (\<forall>key. alternates (key \<in> set s) (statuses_of key es))"
proof (induction es arbitrary: s)
  case (Cons e es)
  show ?case
  proof (cases "(event_status e = Started) \<noteq> (event_key e \<in> set s)")
    case True
    with accept_cases [OF Cons.prems, of e] obtain s' where s': "accept s e = Inr s'" "distinct s'"
      "set s' = (if event_status e = Started then insert (event_key e) (set s) else set s - {event_key e})"
      by auto
    have "alternates (key \<in> set s') (statuses_of key es) \<longleftrightarrow> alternates (key \<in> set s) (statuses_of key (e # es))" for key
      using True s'(3) by (cases "event_key e = key") (auto split: if_splits)
    with Cons.IH [OF s'(2)] s'(1) show ?thesis by simp
  next
    case False
    then have "\<not> is_ok (accept_all s (e # es))" using accept_cases [OF Cons.prems, of e] by simp
    moreover have "\<not> alternates (event_key e \<in> set s) (statuses_of (event_key e) (e # es))" using False by auto
    ultimately show ?thesis by blast
  qed
qed simp

text \<open>
  A sequence of phase events is admitted exactly when, for every phase and operation, starts and
  ends alternate, beginning with a start: nothing starts twice, nothing ends that is not open, and every
  well-formed sequence passes, however the phases interleave.
\<close>

theorem event_grammar_iff:
  "is_ok (accept_all [] es) \<longleftrightarrow> (\<forall>key. alternates False (statuses_of key es))"
  using accept_all_iff [of "[]" es] by simp

section \<open>Observers\<close>

text \<open>The events an observer admits, one after the other, and the state it ends in; a refusal changes nothing.\<close>

fun admit_all :: "('s \<Rightarrow> DiagnosticEvent \<Rightarrow> BridgeError + 's) \<Rightarrow> 's \<Rightarrow> DiagnosticEvent list \<Rightarrow> DiagnosticEvent list \<times> 's" where
  "admit_all observe s [] = ([], s)"
| "admit_all observe s (e # es) =
     (case observe s e of
        Inl _ \<Rightarrow> admit_all observe s es
      | Inr s' \<Rightarrow> (let (admitted, t) = admit_all observe s' es in (e # admitted, t)))"

locale diagnostic_observer =
  fixes observe :: "'s \<Rightarrow> DiagnosticEvent \<Rightarrow> BridgeError + 's"
    and opened_of :: "'s \<Rightarrow> OpenTransition list"
  assumes observe_accepts: "observe s e = Inr s' \<Longrightarrow> accept (opened_of s) e = Inr (opened_of s')"
begin

lemma admitted_accepted:
  "accept_all (opened_of s) (fst (admit_all observe s es)) = Inr (opened_of (snd (admit_all observe s es)))"
proof (induction es arbitrary: s)
  case (Cons e es)
  show ?case
  proof (cases "observe s e")
    case (Inr s')
    with Cons.IH [of s'] observe_accepts [OF Inr] show ?thesis by (cases "admit_all observe s' es") simp
  qed (simp add: Cons.IH)
qed simp

lemma admitted_alternate:
  assumes "opened_of s = []"
  shows "alternates False (statuses_of key (fst (admit_all observe s es)))"
proof -
  have "is_ok (accept_all [] (fst (admit_all observe s es)))" using admitted_accepted [of s es] assms by simp
  with accept_all_iff [of "[]"] show ?thesis by (metis distinct.simps(1) empty_iff empty_set)
qed

end

interpretation noop_observer: diagnostic_observer noop_observe "\<lambda>s. s"
  by unfold_locales (simp add: noop_observe_def)

interpretation in_memory_observer: diagnostic_observer in_memory_record opened
  by unfold_locales (auto simp: in_memory_record_def rbind_Inr_iff Let_def split: if_splits)

interpretation journal_observer: diagnostic_observer "commit_after_persist persist" "\<lambda>s. s" for persist
  by unfold_locales (auto simp: commit_after_persist_def rbind_Inr_iff)

text \<open>
  The journal observer admits only well-formed sequences, whatever the store answers: an event
  that the store fails to persist leaves the grammar state as it was, so the events that reached the
  journal alternate for every phase and operation.
\<close>

theorem journal_events_alternate:
  "alternates False (statuses_of key (fst (admit_all (commit_after_persist persist) [] es)))"
  by (rule journal_observer.admitted_alternate) simp

lemma in_memory_step:
  assumes "in_memory_record s e = Inr t" and "0 < capacity s" and "length (events s) \<le> capacity s"
  shows "capacity t = capacity s" and "events t = drop (length (events s @ [e]) - capacity s) (events s @ [e])"
    and "dropped t = (if length (events s) = capacity s then sat_add (dropped s) 1 else dropped s)"
proof -
  obtain op where "accept (opened s) e = Inr op" using assms(1) by (auto simp: in_memory_record_def rbind_Inr_iff)
  with assms show "capacity t = capacity s" "events t = drop (length (events s @ [e]) - capacity s) (events s @ [e])"
    "dropped t = (if length (events s) = capacity s then sat_add (dropped s) 1 else dropped s)"
    by (cases "length (events s) = capacity s"; auto simp: in_memory_record_def Let_def)+
qed

lemma in_memory_run:
  assumes "0 < c"
  shows "admit_all in_memory_record s es = (admitted, t) \<Longrightarrow> capacity s = c \<Longrightarrow>
     events s = drop (length before - c) before \<Longrightarrow> unat (dropped s) = min (length before - c) (2 ^ 64 - 1) \<Longrightarrow>
     events t = drop (length (before @ admitted) - c) (before @ admitted)
     \<and> unat (dropped t) = min (length (before @ admitted) - c) (2 ^ 64 - 1)"
proof (induction es arbitrary: s before admitted)
  case (Cons e es)
  show ?case
  proof (cases "in_memory_record s e")
    case (Inl err)
    with Cons show ?thesis by simp
  next
    case (Inr u)
    then obtain rest where rest: "admit_all in_memory_record u es = (rest, t)" "admitted = e # rest"
      using Cons.prems(1) by (auto split: prod.splits)
    have len: "length (events s) = min (length before) c" using Cons.prems(3) by simp
    note step = in_memory_step [OF Inr]
    have cap: "0 < capacity s" "length (events s) \<le> capacity s" using Cons.prems(2) assms len by simp_all
    have ev: "events u = drop (length (before @ [e]) - c) (before @ [e])"
      using step(2) [OF cap] len Cons.prems(2,3) by (cases "length before < c") (simp_all add: Suc_diff_le)
    have dr: "unat (dropped u) = min (length (before @ [e]) - c) (2 ^ 64 - 1)"
      using step(3) [OF cap] len Cons.prems(2,4)
      by (cases "length before < c") (simp_all add: Suc_diff_le u64_simps)
    from Cons.IH [OF rest(1) _ ev dr] step(1) [OF cap] Cons.prems(2) rest(2) show ?thesis by simp
  qed
qed auto

text \<open>
  The bounded observer keeps exactly the latest events: after any offers, of which some were
  refused, its snapshot is the suffix of the admitted events that fits its capacity, and its counter is
  the number of admitted events before that suffix, saturating at the largest 64-bit number.
\<close>

theorem in_memory_keeps_latest:
  assumes "InMemoryDiagnosticObserver_new cap = Inr s" and "admit_all in_memory_record s es = (admitted, t)"
  shows "events t = drop (length admitted - cap) admitted
       \<and> unat (dropped t) = min (length admitted - cap) (2 ^ 64 - 1)"
  using in_memory_run [of cap s es admitted t "[]"] assms
  by (auto simp: InMemoryDiagnosticObserver_new_def split: if_splits)

definition example_event :: "DiagnosticPhase \<Rightarrow> PhaseStatus \<Rightarrow> DiagnosticEvent" where
  "example_event p st = \<lparr>transition = \<lparr>tr_phase = p, tr_status = st, tr_at_ms = 0, tr_operation = None, tr_code = None,
     tr_auth = None\<rparr>, failure = None\<rparr>"

theorem in_memory_keeps_latest_witness:
  "\<exists>s admitted t. InMemoryDiagnosticObserver_new 1 = Inr s
     \<and> admit_all in_memory_record s [example_event Spawn Completed, example_event Spawn Started, example_event Spawn Completed]
         = (admitted, t)
     \<and> events t = drop (length admitted - 1) admitted"
proof -
  obtain s where s: "InMemoryDiagnosticObserver_new 1 = Inr s" by (simp add: InMemoryDiagnosticObserver_new_def)
  obtain admitted t where
    "admit_all in_memory_record s [example_event Spawn Completed, example_event Spawn Started, example_event Spawn Completed]
       = (admitted, t)" by fastforce
  with in_memory_keeps_latest [OF s this] s show ?thesis by blast
qed

end
