(* ===== verification/Node_Evidence.thy ===== *)
theory Node_Evidence
  imports Execution_Policy Diagnostics
begin

text \<open>
  The bounded evidence records of a workflow node (\<open>execution_policy.rs\<close>): the cause of a failure
  drawn from a bridge error, the terminal, primary and clean-up records with their canonical encoders,
  which shorten the cause text until the record fits its bound, the matching decoders, policy triggers
  and outcomes. The JSON serialiser and parser (crate \<open>serde_json\<close>) are the parameters \<open>json\<close>
  and \<open>parse\<close>; the \<open>HOME\<close> variable that the default redactor reads is the argument \<open>home\<close>.
\<close>

section \<open>Identifiers and outcomes\<close>

definition MAX_CONTROL_EVENT_ID_BYTES :: nat where "MAX_CONTROL_EVENT_ID_BYTES = 128"
definition MAX_DEEPEST_CAUSE_BYTES :: nat where "MAX_DEEPEST_CAUSE_BYTES = 512"
definition MAX_NODE_TERMINAL_JSON_BYTES :: nat where "MAX_NODE_TERMINAL_JSON_BYTES = 2048"
definition MAX_POLICY_TRIGGER_JSON_BYTES :: nat where "MAX_POLICY_TRIGGER_JSON_BYTES = 1024"
definition MAX_CONTROLS_JSON_BYTES :: nat where "MAX_CONTROLS_JSON_BYTES = 4096"
definition NODE_PRIMARY_RECORD_SCHEMA_V3 :: u16 where "NODE_PRIMARY_RECORD_SCHEMA_V3 = 3"
definition MAX_NODE_PRIMARY_RECORD_JSON_BYTES :: nat where "MAX_NODE_PRIMARY_RECORD_JSON_BYTES = 1536"
definition MAX_NODE_CLEANUP_RECORD_JSON_BYTES :: nat where "MAX_NODE_CLEANUP_RECORD_JSON_BYTES = 2048"

definition ControlEventIdV1_parse :: "scalar_text \<Rightarrow> ExecutionPolicyError + scalar_text" where
  "ControlEventIdV1_parse value =
     (if value = [] \<or> MAX_CONTROL_EVENT_ID_BYTES < text_len value \<or> list_ex is_control value
      then Inl InvalidControlEventId else Inr value)"

datatype WorkflowRuntimeOutcomeV1 = RunCompleted | RunCompletedDegraded | RunFailed | RunCanceled

datatype WorkflowDurableOutcomeV1 =
  DurCompleted | DurCompletedDegraded | DurFailed | DurCanceled | DurInterrupted

fun runtime_as_str :: "WorkflowRuntimeOutcomeV1 \<Rightarrow> string" where
  "runtime_as_str RunCompleted = ''completed''"
| "runtime_as_str RunCompletedDegraded = ''completed_degraded''"
| "runtime_as_str RunFailed = ''failed''"
| "runtime_as_str RunCanceled = ''canceled''"

fun durable :: "WorkflowRuntimeOutcomeV1 \<Rightarrow> WorkflowDurableOutcomeV1" where
  "durable RunCompleted = DurCompleted"
| "durable RunCompletedDegraded = DurCompletedDegraded"
| "durable RunFailed = DurFailed"
| "durable RunCanceled = DurCanceled"

fun durable_as_str :: "WorkflowDurableOutcomeV1 \<Rightarrow> string" where
  "durable_as_str DurCompleted = ''completed''"
| "durable_as_str DurCompletedDegraded = ''completed_degraded''"
| "durable_as_str DurFailed = ''failed''"
| "durable_as_str DurCanceled = ''canceled''"
| "durable_as_str DurInterrupted = ''interrupted''"

definition parse_closed :: "string \<Rightarrow> WorkflowDurableOutcomeV1 option" where
  "parse_closed value =
     (if value = ''completed'' then Some DurCompleted
      else if value = ''completed_degraded'' then Some DurCompletedDegraded
      else if value = ''failed'' then Some DurFailed
      else if value = ''canceled'' then Some DurCanceled
      else if value = ''interrupted'' then Some DurInterrupted
      else None)"

section \<open>Causes\<close>

text \<open>A bridge-owned code goes through the builder; \<^const>\<open>None\<close> stands for the panic of \<open>expect\<close>.\<close>

definition static_code :: "scalar_text option \<Rightarrow> string \<Rightarrow> scalar_text option" where
  "static_code home c =
     (case DiagnosticCode_build (lit c) (DiagnosticRedactor_new home []) of Inr v \<Rightarrow> Some v | Inl _ \<Rightarrow> None)"

definition skipped_dependency :: "scalar_text option \<Rightarrow> DependencySetRefV1 \<Rightarrow> NodeCauseV1 option" where
  "skipped_dependency home deps =
     map_option (\<lambda>c. \<lparr>cause_failure_class = ClassUnknown, cause_code = c, deepest_cause = None,
        cause_truncated = False, evidence_overflow = False, dependency_set = Some deps\<rparr>)
       (static_code home ''workflow.skipped_dependency'')"

fun class_and_code :: "BridgeError \<Rightarrow> DiagnosticFailureClass \<times> string" where
  "class_and_code A2aVersionMismatch = (ClassProtocol, ''bridge.a2a_version_mismatch'')"
| "class_and_code (InvalidRequest _) = (ClassConfig, ''bridge.invalid_request'')"
| "class_and_code IdentityUnavailable = (ClassPersistence, ''bridge.identity_unavailable'')"
| "class_and_code (DurableEvidenceUnavailable _) = (ClassPersistence, ''bridge.durable_evidence_unavailable'')"
| "class_and_code TaskNotFound = (ClassConfig, ''bridge.task_not_found'')"
| "class_and_code SessionNotFound = (ClassUnknown, ''bridge.session_not_found'')"
| "class_and_code (ConfigMismatch _) = (ClassConfig, ''bridge.config_mismatch'')"
| "class_and_code (ConfigReseedRequired _) = (ClassConfig, ''bridge.config_reseed_required'')"
| "class_and_code BoundSessionUnsupported = (ClassConfig, ''bridge.bound_session_unsupported'')"
| "class_and_code BindUnsupported = (ClassConfig, ''bridge.bind_unsupported'')"
| "class_and_code ResourceFlightUnsupported = (ClassConfig, ''bridge.resource_flight_unsupported'')"
| "class_and_code SessionExpired = (ClassUnknown, ''bridge.session_expired'')"
| "class_and_code HandleBusy = (ClassUnknown, ''bridge.handle_busy'')"
| "class_and_code (AuthRequired _) = (ClassAuthentication, ''bridge.auth_required'')"
| "class_and_code (PermissionRequired _) = (ClassConfig, ''bridge.permission_required'')"
| "class_and_code PermissionDenied = (ClassConfig, ''bridge.permission_denied'')"
| "class_and_code AgentNotAuthenticated = (ClassAuthentication, ''bridge.agent_not_authenticated'')"
| "class_and_code ModelNotAvailable = (ClassModel, ''bridge.model_not_available'')"
| "class_and_code CancelTimeout = (ClassTimeout, ''bridge.cancel_timeout'')"
| "class_and_code AgentTimedOut = (ClassTimeout, ''bridge.agent_timed_out'')"
| "class_and_code FrameError = (ClassTransport, ''bridge.frame_error'')"
| "class_and_code MissingTerminal = (ClassProtocol, ''bridge.missing_terminal'')"
| "class_and_code MessageTooLarge = (ClassProtocol, ''bridge.message_too_large'')"
| "class_and_code EmptyFinal = (ClassProtocol, ''bridge.empty_final'')"
| "class_and_code (AgentCrashed _) = (ClassAgentProcess, ''bridge.agent_crashed'')"
| "class_and_code (AgentFailure d) = (failure_class d, '''')"
| "class_and_code AgentOverloaded = (ClassOverloaded, ''bridge.agent_overloaded'')"
| "class_and_code UpstreamA2aError = (ClassTransport, ''bridge.upstream_a2a_error'')"
| "class_and_code (BudgetRefused _) = (ClassConfig, ''bridge.budget_refused'')"
| "class_and_code StoreFailure = (ClassPersistence, ''bridge.store_failure'')"
| "class_and_code (HarvestAuditPersistFailed _) = (ClassPersistence, ''bridge.harvest_audit_persist_failed'')"
| "class_and_code InvalidStateTransition = (ClassProtocol, ''bridge.invalid_state_transition'')"
| "class_and_code (UnknownAgent _) = (ClassConfig, ''bridge.unknown_agent'')"
| "class_and_code (ConfigInvalid _) = (ClassConfig, ''bridge.config_invalid'')"
| "class_and_code (TaskSpecInvalid _) = (ClassConfig, ''bridge.task_spec_invalid'')"

text \<open>
  A structured failure keeps its class, code and deepest cause, with the summary when it has no
  causes; the row of \<^const>\<open>class_and_code\<close> for it is the unreachable arm of the source.
\<close>

definition from_bridge_error :: "scalar_text option \<Rightarrow> BridgeError \<Rightarrow> NodeCauseV1 option" where
  "from_bridge_error home e =
     (case e of
        AgentFailure d \<Rightarrow>
          Some \<lparr>cause_failure_class = failure_class d, cause_code = code d,
             deepest_cause = Some (if causes d = [] then summary d else last (causes d)),
             cause_truncated = False, evidence_overflow = False, dependency_set = None\<rparr>
      | _ \<Rightarrow>
          (let (cls, cod) = class_and_code e; deepest = client_message e in
           map_option (\<lambda>c. \<lparr>cause_failure_class = cls, cause_code = c,
                deepest_cause = (if deepest = [] then None else Some deepest),
                cause_truncated = False, evidence_overflow = False, dependency_set = None\<rparr>)
             (static_code home cod)))"

definition normalize_bounded_cause :: "scalar_text option \<Rightarrow> NodeCauseV1 \<Rightarrow> NodeCauseV1" where
  "normalize_bounded_cause home c =
     (let deepest = map_option (\<lambda>v. sanitize_text (DiagnosticRedactor_new home []) v MAX_DEEPEST_CAUSE_BYTES)
            (deepest_cause c);
          c' = c\<lparr>deepest_cause := deepest\<rparr>
      in if deepest \<noteq> deepest_cause c then c'\<lparr>cause_truncated := True\<rparr> else c')"

text \<open>
  \<open>remove_first_scalar\<close> and \<open>shorten_bounded_cause\<close>: the first character goes, an empty text
  becomes none, and none cannot be shortened.
\<close>

fun shorten_cause :: "scalar_text option \<Rightarrow> scalar_text option option" where
  "shorten_cause None = None"
| "shorten_cause (Some []) = Some None"
| "shorten_cause (Some (_ # cs)) = Some (Some cs)"

text \<open>
  The loop that shortens until the record fits; \<open>enc\<close> encodes the record with a given cause text.
  It recurs on the text, so it ends.
\<close>

function shrink_cause ::
  "(scalar_text option \<Rightarrow> ExecutionPolicyError + u8 list) \<Rightarrow> nat \<Rightarrow> scalar_text option \<Rightarrow> u8 list
     \<Rightarrow> ExecutionPolicyError + scalar_text option \<times> u8 list" where
  "shrink_cause enc max_bytes deepest encoded =
     (if length encoded \<le> max_bytes then Inr (deepest, encoded)
      else case shorten_cause deepest of
        None \<Rightarrow> Inr (deepest, encoded)
      | Some deepest' \<Rightarrow> rbind (enc deepest') (\<lambda>encoded'. shrink_cause enc max_bytes deepest' encoded'))"
  by auto
termination
proof (relation "measure (\<lambda>(_, _, d, _). case d of None \<Rightarrow> 0 | Some t \<Rightarrow> Suc (length t))", goal_cases)
  case (2 enc max_bytes deepest encoded deepest' encoded')
  then show ?case by (cases deepest rule: shorten_cause.cases) auto
qed simp

declare shrink_cause.simps [simp del]

definition canonical_json :: "('r \<Rightarrow> u8 list option) \<Rightarrow> 'r \<Rightarrow> ExecutionPolicyError + u8 list" where
  "canonical_json json v = (case json v of Some b \<Rightarrow> Inr b | None \<Rightarrow> Inl InvalidStructuredEvidence)"

section \<open>Node terminals\<close>

datatype NodePrimaryDispositionV1 =
  PrimaryCompleted | PrimaryFailed | PrimaryTimedOut | CanceledWorkflow | CanceledPolicy | CanceledNode
| SkippedDependency | NotStartedPolicy | InterruptedLegacy | PrimaryDeadline

datatype NodeCleanupDispositionV1 = LegacyComplete | LegacyFailed | LegacyNotNeeded | UnknownLegacy

record NodeCleanupV1 =
  legacy_disposition :: NodeCleanupDispositionV1
  legacy_duration_ms :: u64

record NodeTerminalV1 =
  nt_schema_version :: u16
  nt_primary :: NodePrimaryDispositionV1
  nt_cleanup :: NodeCleanupV1
  nt_cause :: "NodeCauseV1 option"
  nt_prompt_may_have_been_accepted :: bool
  nt_degraded_ancestry :: bool
  nt_policy_trigger_id :: "string option"

definition NodeTerminalV1_normalize :: "scalar_text option \<Rightarrow> NodeTerminalV1 \<Rightarrow> ExecutionPolicyError + NodeTerminalV1" where
  "NodeTerminalV1_normalize home v =
     (if nt_schema_version v \<noteq> EXECUTION_POLICY_SCHEMA_V1 then Inl InvalidStructuredEvidence
      else Inr (v\<lparr>nt_cause := map_option (normalize_bounded_cause home) (nt_cause v)\<rparr>))"

text \<open>One shortening loop over the cause of a terminal; without a cause it does nothing.\<close>

definition shrink_terminal ::
  "(NodeTerminalV1 \<Rightarrow> u8 list option) \<Rightarrow> nat \<Rightarrow> NodeTerminalV1 \<Rightarrow> u8 list
     \<Rightarrow> ExecutionPolicyError + NodeTerminalV1 \<times> u8 list" where
  "shrink_terminal json max_bytes v encoded =
     (case nt_cause v of
        None \<Rightarrow> Inr (v, encoded)
      | Some c \<Rightarrow>
          (let with_text = (\<lambda>d. v\<lparr>nt_cause := Some (c\<lparr>deepest_cause := d\<rparr>)\<rparr>) in
           rbind (shrink_cause (\<lambda>d. canonical_json json (with_text d)) max_bytes (deepest_cause c) encoded)
             (\<lambda>(d, encoded). Inr (with_text d, encoded))))"

definition NodeTerminalV1_encode_canonical ::
  "scalar_text option \<Rightarrow> (NodeTerminalV1 \<Rightarrow> u8 list option) \<Rightarrow> NodeTerminalV1 \<Rightarrow> ExecutionPolicyError + u8 list" where
  "NodeTerminalV1_encode_canonical home json v =
     rbind (NodeTerminalV1_normalize home v) (\<lambda>v.
     rbind (canonical_json json v) (\<lambda>encoded.
       if length encoded \<le> MAX_NODE_TERMINAL_JSON_BYTES then Inr encoded
       else let v = v\<lparr>nt_cause := map_option (cause_truncated_update (\<lambda>_. True)) (nt_cause v)\<rparr> in
         rbind (shrink_terminal json MAX_NODE_TERMINAL_JSON_BYTES v encoded) (\<lambda>(v, encoded).
         if length encoded \<le> MAX_NODE_TERMINAL_JSON_BYTES then Inr encoded
         else let v = v\<lparr>nt_cause := map_option (\<lambda>c. c\<lparr>evidence_overflow := True, dependency_set := None\<rparr>) (nt_cause v)\<rparr> in
           rbind (canonical_json json v) (\<lambda>encoded.
           rbind (shrink_terminal json MAX_NODE_TERMINAL_JSON_BYTES v encoded) (\<lambda>(v, encoded).
           if MAX_NODE_TERMINAL_JSON_BYTES < length encoded then Inl StructuredEvidenceOverBound
           else Inr encoded)))))"

definition NodeTerminalV1_decode_canonical ::
  "scalar_text option \<Rightarrow> (NodeTerminalV1 \<Rightarrow> u8 list option) \<Rightarrow> (u8 list \<Rightarrow> NodeTerminalV1 option) \<Rightarrow> u8 list
     \<Rightarrow> ExecutionPolicyError + NodeTerminalV1" where
  "NodeTerminalV1_decode_canonical home json parse bytes =
     (if MAX_NODE_TERMINAL_JSON_BYTES < length bytes then Inl StructuredEvidenceOverBound
      else case parse bytes of
        None \<Rightarrow> Inl InvalidStructuredEvidence
      | Some v \<Rightarrow> rbind (NodeTerminalV1_encode_canonical home json v) (\<lambda>encoded.
          if encoded \<noteq> bytes then Inl InvalidStructuredEvidence else Inr v))"

section \<open>Primary records\<close>

record NodePrimaryRecordV3 =
  pr_schema_version :: u16
  pr_primary :: NodePrimaryDispositionV1
  pr_cause :: "NodeCauseV1 option"
  pr_prompt_may_have_been_accepted :: bool
  pr_degraded_ancestry :: bool
  pr_policy_trigger_id :: "string option"

definition NodePrimaryRecordV3_normalize ::
  "scalar_text option \<Rightarrow> NodePrimaryRecordV3 \<Rightarrow> ExecutionPolicyError + NodePrimaryRecordV3" where
  "NodePrimaryRecordV3_normalize home v =
     (if pr_schema_version v \<noteq> NODE_PRIMARY_RECORD_SCHEMA_V3 then Inl InvalidStructuredEvidence
      else Inr (v\<lparr>pr_cause := map_option (normalize_bounded_cause home) (pr_cause v)\<rparr>))"

definition placeholder :: NodePrimaryRecordV3 where
  "placeholder = \<lparr>pr_schema_version = NODE_PRIMARY_RECORD_SCHEMA_V3, pr_primary = NotStartedPolicy, pr_cause = None,
     pr_prompt_may_have_been_accepted = False, pr_degraded_ancestry = False, pr_policy_trigger_id = None\<rparr>"

text \<open>The loop shortens the cause of a terminal with the same cause and copies it back each round.\<close>

definition shrink_primary ::
  "(NodePrimaryRecordV3 \<Rightarrow> u8 list option) \<Rightarrow> nat \<Rightarrow> NodePrimaryRecordV3 \<Rightarrow> u8 list
     \<Rightarrow> ExecutionPolicyError + NodePrimaryRecordV3 \<times> u8 list" where
  "shrink_primary json max_bytes v encoded =
     (case pr_cause v of
        None \<Rightarrow> Inr (v, encoded)
      | Some c \<Rightarrow>
          (let with_text = (\<lambda>d. v\<lparr>pr_cause := Some (c\<lparr>deepest_cause := d\<rparr>)\<rparr>) in
           rbind (shrink_cause (\<lambda>d. canonical_json json (with_text d)) max_bytes (deepest_cause c) encoded)
             (\<lambda>(d, encoded). Inr (with_text d, encoded))))"

definition NodePrimaryRecordV3_encode_canonical ::
  "scalar_text option \<Rightarrow> (NodePrimaryRecordV3 \<Rightarrow> u8 list option) \<Rightarrow> NodePrimaryRecordV3
     \<Rightarrow> ExecutionPolicyError + u8 list" where
  "NodePrimaryRecordV3_encode_canonical home json v =
     rbind (NodePrimaryRecordV3_normalize home v) (\<lambda>v.
     rbind (canonical_json json v) (\<lambda>encoded.
       if length encoded \<le> MAX_NODE_PRIMARY_RECORD_JSON_BYTES then Inr encoded
       else let v = v\<lparr>pr_cause := map_option (cause_truncated_update (\<lambda>_. True)) (pr_cause v)\<rparr> in
         rbind (shrink_primary json MAX_NODE_PRIMARY_RECORD_JSON_BYTES v encoded) (\<lambda>(v, encoded).
         if MAX_NODE_PRIMARY_RECORD_JSON_BYTES < length encoded then Inl StructuredEvidenceOverBound
         else Inr encoded)))"

definition NodePrimaryRecordV3_decode_canonical ::
  "scalar_text option \<Rightarrow> (NodePrimaryRecordV3 \<Rightarrow> u8 list option) \<Rightarrow> (u8 list \<Rightarrow> NodePrimaryRecordV3 option) \<Rightarrow> u8 list
     \<Rightarrow> ExecutionPolicyError + NodePrimaryRecordV3" where
  "NodePrimaryRecordV3_decode_canonical home json parse bytes =
     (if MAX_NODE_PRIMARY_RECORD_JSON_BYTES < length bytes then Inl StructuredEvidenceOverBound
      else case parse bytes of
        None \<Rightarrow> Inl InvalidStructuredEvidence
      | Some v \<Rightarrow> rbind (NodePrimaryRecordV3_encode_canonical home json v) (\<lambda>encoded.
          if encoded \<noteq> bytes then Inl InvalidStructuredEvidence else Inr v))"

section \<open>Clean-up records\<close>

text \<open>Only a failed clean-up has a cause.\<close>

fun map_cleanup_cause :: "(NodeCauseV1 \<Rightarrow> NodeCauseV1) \<Rightarrow> NodeCleanupV2 \<Rightarrow> NodeCleanupV2" where
  "map_cleanup_cause f (CleanupFailed d c) = CleanupFailed d (f c)"
| "map_cleanup_cause f other = other"

fun cleanup_cause :: "NodeCleanupV2 \<Rightarrow> NodeCauseV1 option" where
  "cleanup_cause (CleanupFailed _ c) = Some c"
| "cleanup_cause _ = None"

definition flight_id_ok :: "string \<Rightarrow> ExecutionPolicyError + unit" where
  "flight_id_ok flight = (case ResourceFlightIdV1_parse flight of Inr _ \<Rightarrow> Inr () | Inl _ \<Rightarrow> Inl InvalidStructuredEvidence)"

definition NodeCleanupRecordV2_normalize ::
  "scalar_text option \<Rightarrow> NodeCleanupRecordV2 \<Rightarrow> ExecutionPolicyError + NodeCleanupRecordV2" where
  "NodeCleanupRecordV2_normalize home r =
     (if cleanup_schema_version r \<noteq> NODE_CLEANUP_RECORD_SCHEMA_V2 then Inl InvalidStructuredEvidence
      else rbind (validate_coherence r) (\<lambda>_.
        rbind (case cleanup r of
                 CleanupPending flight \<Rightarrow> flight_id_ok flight
               | CleanupPartial _ ow \<Rightarrow> flight_id_ok (owner_resource_flight_id ow)
               | CleanupUnknown _ (Some ow) \<Rightarrow> flight_id_ok (owner_resource_flight_id ow)
               | _ \<Rightarrow> Inr ()) (\<lambda>_.
          Inr (r\<lparr>cleanup := map_cleanup_cause (normalize_bounded_cause home) (cleanup r)\<rparr>))))"

definition shrink_cleanup ::
  "(NodeCleanupRecordV2 \<Rightarrow> u8 list option) \<Rightarrow> nat \<Rightarrow> NodeCleanupRecordV2 \<Rightarrow> u8 list
     \<Rightarrow> ExecutionPolicyError + NodeCleanupRecordV2 \<times> u8 list" where
  "shrink_cleanup json max_bytes r encoded =
     (case cleanup_cause (cleanup r) of
        None \<Rightarrow> Inr (r, encoded)
      | Some c \<Rightarrow>
          (let with_text = (\<lambda>d. r\<lparr>cleanup := map_cleanup_cause (deepest_cause_update (\<lambda>_. d)) (cleanup r)\<rparr>) in
           rbind (shrink_cause (\<lambda>d. canonical_json json (with_text d)) max_bytes (deepest_cause c) encoded)
             (\<lambda>(d, encoded). Inr (with_text d, encoded))))"

definition NodeCleanupRecordV2_encode_canonical ::
  "scalar_text option \<Rightarrow> (NodeCleanupRecordV2 \<Rightarrow> u8 list option) \<Rightarrow> NodeCleanupRecordV2
     \<Rightarrow> ExecutionPolicyError + u8 list" where
  "NodeCleanupRecordV2_encode_canonical home json r =
     rbind (NodeCleanupRecordV2_normalize home r) (\<lambda>r.
     rbind (canonical_json json r) (\<lambda>encoded.
       if length encoded \<le> MAX_NODE_CLEANUP_RECORD_JSON_BYTES then Inr encoded
       else let r = r\<lparr>cleanup := map_cleanup_cause (cause_truncated_update (\<lambda>_. True)) (cleanup r)\<rparr> in
         rbind (shrink_cleanup json MAX_NODE_CLEANUP_RECORD_JSON_BYTES r encoded) (\<lambda>(r, encoded).
         if length encoded \<le> MAX_NODE_CLEANUP_RECORD_JSON_BYTES then Inr encoded
         else let r = r\<lparr>cleanup := map_cleanup_cause (\<lambda>c. c\<lparr>evidence_overflow := True, dependency_set := None\<rparr>) (cleanup r)\<rparr> in
           rbind (canonical_json json r) (\<lambda>encoded.
           rbind (shrink_cleanup json MAX_NODE_CLEANUP_RECORD_JSON_BYTES r encoded) (\<lambda>(r, encoded).
           if MAX_NODE_CLEANUP_RECORD_JSON_BYTES < length encoded then Inl StructuredEvidenceOverBound
           else Inr encoded)))))"

definition NodeCleanupRecordV2_decode_canonical ::
  "scalar_text option \<Rightarrow> (NodeCleanupRecordV2 \<Rightarrow> u8 list option) \<Rightarrow> (u8 list \<Rightarrow> NodeCleanupRecordV2 option) \<Rightarrow> u8 list
     \<Rightarrow> ExecutionPolicyError + NodeCleanupRecordV2" where
  "NodeCleanupRecordV2_decode_canonical home json parse bytes =
     (if MAX_NODE_CLEANUP_RECORD_JSON_BYTES < length bytes then Inl StructuredEvidenceOverBound
      else case parse bytes of
        None \<Rightarrow> Inl InvalidStructuredEvidence
      | Some r \<Rightarrow> rbind (NodeCleanupRecordV2_encode_canonical home json r) (\<lambda>encoded.
          if encoded \<noteq> bytes then Inl InvalidStructuredEvidence else Inr r))"

section \<open>Policy triggers and controls\<close>

definition PolicyTriggerV1_encode_canonical ::
  "(PolicyTriggerV1 \<Rightarrow> u8 list option) \<Rightarrow> PolicyTriggerV1 \<Rightarrow> ExecutionPolicyError + u8 list" where
  "PolicyTriggerV1_encode_canonical json t =
     rbind (trigger_validate t) (\<lambda>_.
     rbind (canonical_json json t) (\<lambda>encoded.
       if MAX_POLICY_TRIGGER_JSON_BYTES < length encoded then Inl StructuredEvidenceOverBound else Inr encoded))"

definition PolicyTriggerV1_decode_canonical ::
  "(PolicyTriggerV1 \<Rightarrow> u8 list option) \<Rightarrow> (u8 list \<Rightarrow> PolicyTriggerV1 option) \<Rightarrow> u8 list
     \<Rightarrow> ExecutionPolicyError + PolicyTriggerV1" where
  "PolicyTriggerV1_decode_canonical json parse bytes =
     (if MAX_POLICY_TRIGGER_JSON_BYTES < length bytes then Inl StructuredEvidenceOverBound
      else case parse bytes of
        None \<Rightarrow> Inl InvalidStructuredEvidence
      | Some t \<Rightarrow> rbind (PolicyTriggerV1_encode_canonical json t) (\<lambda>encoded.
          if encoded \<noteq> bytes then Inl InvalidStructuredEvidence else Inr t))"

definition controls_encode_canonical ::
  "(FrozenWorkflowControlsV1 \<Rightarrow> u8 list option) \<Rightarrow> FrozenWorkflowControlsV1 \<Rightarrow> ExecutionPolicyError + u8 list" where
  "controls_encode_canonical json c =
     rbind (canonical_json json c) (\<lambda>encoded.
       if MAX_CONTROLS_JSON_BYTES < length encoded then Inl StructuredEvidenceOverBound else Inr encoded)"

section \<open>Canonical evidence\<close>

text \<open>
  The contract the four record types share: an encoder never exceeds the bound, and a decoder accepts
  a value only from the bytes the encoder gives for it.
\<close>

locale bounded_evidence =
  fixes encode :: "'r \<Rightarrow> ExecutionPolicyError + u8 list"
    and decode :: "u8 list \<Rightarrow> ExecutionPolicyError + 'r"
    and parse :: "u8 list \<Rightarrow> 'r option"
    and max_bytes :: nat
  assumes encode_fits: "encode v = Inr b \<Longrightarrow> length b \<le> max_bytes"
    and decode_eq: "decode b = (if max_bytes < length b then Inl StructuredEvidenceOverBound
          else case parse b of None \<Rightarrow> Inl InvalidStructuredEvidence
            | Some v \<Rightarrow> rbind (encode v) (\<lambda>e. if e \<noteq> b then Inl InvalidStructuredEvidence else Inr v))"
begin

lemma decode_Inr_iff: "decode b = Inr v \<longleftrightarrow> parse b = Some v \<and> encode v = Inr b"
  using encode_fits [of v b] by (auto simp: decode_eq rbind_Inr_iff split: option.splits if_splits)

lemma decoded_fits: "decode b = Inr v \<Longrightarrow> length b \<le> max_bytes"
  using encode_fits by (auto simp: decode_Inr_iff)

lemma canonical_unique: "decode b = Inr v \<Longrightarrow> decode b' = Inr v \<Longrightarrow> b = b'"
  by (auto simp: decode_Inr_iff)

end

lemma terminal_encode_fits:
  "NodeTerminalV1_encode_canonical home json v = Inr b \<Longrightarrow> length b \<le> MAX_NODE_TERMINAL_JSON_BYTES"
  by (auto simp: NodeTerminalV1_encode_canonical_def rbind_Inr_iff Let_def split: if_splits prod.splits)

lemma primary_encode_fits:
  "NodePrimaryRecordV3_encode_canonical home json v = Inr b \<Longrightarrow> length b \<le> MAX_NODE_PRIMARY_RECORD_JSON_BYTES"
  by (auto simp: NodePrimaryRecordV3_encode_canonical_def rbind_Inr_iff Let_def split: if_splits prod.splits)

lemma cleanup_encode_fits:
  "NodeCleanupRecordV2_encode_canonical home json v = Inr b \<Longrightarrow> length b \<le> MAX_NODE_CLEANUP_RECORD_JSON_BYTES"
  by (auto simp: NodeCleanupRecordV2_encode_canonical_def rbind_Inr_iff Let_def split: if_splits prod.splits)

interpretation terminal_evidence: bounded_evidence "NodeTerminalV1_encode_canonical home json"
  "NodeTerminalV1_decode_canonical home json parse" parse MAX_NODE_TERMINAL_JSON_BYTES for home json parse
  by unfold_locales (simp_all add: terminal_encode_fits NodeTerminalV1_decode_canonical_def)

interpretation primary_evidence: bounded_evidence "NodePrimaryRecordV3_encode_canonical home json"
  "NodePrimaryRecordV3_decode_canonical home json parse" parse MAX_NODE_PRIMARY_RECORD_JSON_BYTES for home json parse
  by unfold_locales (simp_all add: primary_encode_fits NodePrimaryRecordV3_decode_canonical_def)

interpretation cleanup_evidence: bounded_evidence "NodeCleanupRecordV2_encode_canonical home json"
  "NodeCleanupRecordV2_decode_canonical home json parse" parse MAX_NODE_CLEANUP_RECORD_JSON_BYTES for home json parse
  by unfold_locales (simp_all add: cleanup_encode_fits NodeCleanupRecordV2_decode_canonical_def)

interpretation trigger_evidence: bounded_evidence "PolicyTriggerV1_encode_canonical json"
  "PolicyTriggerV1_decode_canonical json parse" parse MAX_POLICY_TRIGGER_JSON_BYTES for json parse
  by unfold_locales
    (auto simp: PolicyTriggerV1_encode_canonical_def PolicyTriggerV1_decode_canonical_def rbind_Inr_iff split: if_splits)

section \<open>Encoding always ends within the bound\<close>

lemma shrink_cause_total:
  assumes "\<forall>d. \<exists>b. enc d = Inr b"
  shows "\<exists>d b. shrink_cause enc n deepest encoded = Inr (d, b) \<and> (length b \<le> n \<or> d = None)"
  using assms
proof (induction enc n deepest encoded rule: shrink_cause.induct)
  case (1 enc n deepest encoded)
  show ?case
  proof (cases "length encoded \<le> n")
    case True
    then show ?thesis by (subst shrink_cause.simps) auto
  next
    case False
    show ?thesis
    proof (cases "shorten_cause deepest")
      case None
      then have "deepest = None" by (cases deepest rule: shorten_cause.cases) auto
      with False None show ?thesis by (subst shrink_cause.simps) auto
    next
      case (Some d)
      obtain b where b: "enc d = Inr b" using 1(2) by blast
      from 1(1) [OF False Some 1(2)] b False Some show ?thesis by (subst shrink_cause.simps) auto
    qed
  qed
qed

lemma shrink_fits: "length encoded \<le> n \<Longrightarrow> shrink_cause enc n deepest encoded = Inr (deepest, encoded)"
  by (subst shrink_cause.simps) simp

lemma canonical_json_total: "\<forall>w. json w \<noteq> None \<Longrightarrow> \<exists>b. canonical_json json w = Inr b \<and> json w = Some b"
proof -
  assume "\<forall>w. json w \<noteq> None"
  then obtain b where "json w = Some b" by (metis option.exhaust)
  then show ?thesis by (simp add: canonical_json_def)
qed

text \<open>The part of a terminal that the encoder never drops.\<close>

definition terminal_skeleton :: "NodeTerminalV1 \<Rightarrow> NodeTerminalV1" where
  "terminal_skeleton v = v\<lparr>nt_cause := map_option (\<lambda>c. c\<lparr>deepest_cause := None, cause_truncated := True,
     evidence_overflow := True, dependency_set := None\<rparr>) (nt_cause v)\<rparr>"

lemma shrink_terminal_total:
  assumes "\<forall>v. json v \<noteq> None" and "nt_cause v = Some c"
  shows "\<exists>d b. shrink_terminal json n v encoded = Inr (v\<lparr>nt_cause := Some (c\<lparr>deepest_cause := d\<rparr>)\<rparr>, b)
           \<and> (length b \<le> n \<or> d = None)"
proof -
  let ?enc = "\<lambda>d. canonical_json json (v\<lparr>nt_cause := Some (c\<lparr>deepest_cause := d\<rparr>)\<rparr>)"
  have tot: "\<forall>d. \<exists>b. ?enc d = Inr b" using canonical_json_total [OF assms(1)] by blast
  from shrink_cause_total [OF this, of n "deepest_cause c" encoded] show ?thesis
    using assms(2) by (auto simp: shrink_terminal_def Let_def)
qed

lemma terminal_encode_long:
  assumes schema: "nt_schema_version v = EXECUTION_POLICY_SCHEMA_V1" and total: "\<forall>w. json w \<noteq> None"
    and fits: "length (the (json (terminal_skeleton v))) \<le> 2048" and cause: "nt_cause v = Some c"
    and e: "canonical_json json (v\<lparr>nt_cause := Some (normalize_bounded_cause home c)\<rparr>) = Inr e" and long: "2048 < length e"
  shows "\<exists>b. NodeTerminalV1_encode_canonical home json v = Inr b"
proof -
  let ?n = MAX_NODE_TERMINAL_JSON_BYTES and ?c = "(normalize_bounded_cause home c)\<lparr>cause_truncated := True\<rparr>"
  let ?w = "v\<lparr>nt_cause := Some ?c\<rparr>"
  obtain d b where d: "shrink_terminal json ?n ?w e = Inr (v\<lparr>nt_cause := Some (?c\<lparr>deepest_cause := d\<rparr>)\<rparr>, b)"
    "length b \<le> ?n \<or> d = None"
    using shrink_terminal_total [OF total, of ?w ?c ?n e] by auto
  have step: "NodeTerminalV1_encode_canonical home json v =
      (if length b \<le> ?n then Inr b
       else let w = v\<lparr>nt_cause := Some (?c\<lparr>deepest_cause := d, evidence_overflow := True, dependency_set := None\<rparr>)\<rparr> in
         rbind (canonical_json json w) (\<lambda>encoded. rbind (shrink_terminal json ?n w encoded) (\<lambda>(w, encoded).
           if ?n < length encoded then Inl StructuredEvidenceOverBound else Inr encoded)))"
    using schema e long d(1) cause
    by (simp add: NodeTerminalV1_encode_canonical_def NodeTerminalV1_normalize_def MAX_NODE_TERMINAL_JSON_BYTES_def)
  show ?thesis
  proof (cases "length b \<le> ?n")
    case True
    with step show ?thesis by simp
  next
    case False
    with d(2) have "d = None" by simp
    let ?w = "v\<lparr>nt_cause := Some (?c\<lparr>deepest_cause := None, evidence_overflow := True, dependency_set := None\<rparr>)\<rparr>"
    have "?w = terminal_skeleton v"
      using cause by (simp add: terminal_skeleton_def normalize_bounded_cause_def Let_def)
    then obtain b' where b': "canonical_json json ?w = Inr b'" "length b' \<le> ?n"
      using canonical_json_total [OF total, of ?w] fits by (auto simp: MAX_NODE_TERMINAL_JSON_BYTES_def)
    then have "shrink_terminal json ?n ?w b' = Inr (?w, b')" by (simp add: shrink_terminal_def shrink_fits)
    with step False b' \<open>d = None\<close> show ?thesis by (simp add: Let_def)
  qed
qed

text \<open>
  C13: The canonical encoder of a node terminal is total: when the record without its cause text and
  dependency set fits the bound, the encoder returns at most 2048 bytes for every terminal of the current
  schema, however long the cause text is; the two shortening loops end and refuse nothing. The serialiser
  succeeds on every terminal.
\<close>

theorem terminal_encode_total:
  assumes "nt_schema_version v = EXECUTION_POLICY_SCHEMA_V1" and "\<forall>w. json w \<noteq> None"
    and "length (the (json (terminal_skeleton v))) \<le> 2048"
  shows "\<exists>b. NodeTerminalV1_encode_canonical home json v = Inr b \<and> length b \<le> 2048"
proof -
  let ?n = MAX_NODE_TERMINAL_JSON_BYTES
  let ?v = "v\<lparr>nt_cause := map_option (normalize_bounded_cause home) (nt_cause v)\<rparr>"
  have norm: "NodeTerminalV1_normalize home v = Inr ?v" using assms(1) by (simp add: NodeTerminalV1_normalize_def)
  note tot = canonical_json_total [OF assms(2)]
  obtain e where e: "canonical_json json ?v = Inr e" "json ?v = Some e" using tot by blast
  have "\<exists>b. NodeTerminalV1_encode_canonical home json v = Inr b"
  proof (cases "length e \<le> ?n")
    case True
    with norm e show ?thesis by (simp add: NodeTerminalV1_encode_canonical_def)
  next
    case long: False
    show ?thesis
    proof (cases "nt_cause v")
      case None
      then have "terminal_skeleton v = ?v" by (simp add: terminal_skeleton_def)
      with assms(3) e long show ?thesis by (simp add: MAX_NODE_TERMINAL_JSON_BYTES_def)
    next
      case (Some c)
      with e(1) long show ?thesis
        by (intro terminal_encode_long [OF assms Some, of home e]) (simp_all add: MAX_NODE_TERMINAL_JSON_BYTES_def)
    qed
  qed
  then obtain b where b: "NodeTerminalV1_encode_canonical home json v = Inr b" ..
  with terminal_encode_fits [OF b] show ?thesis by (simp add: MAX_NODE_TERMINAL_JSON_BYTES_def)
qed

definition example_cause :: "scalar_text \<Rightarrow> NodeCauseV1" where
  "example_cause t = \<lparr>cause_failure_class = ClassUnknown, cause_code = lit ''bridge.frame_error'', deepest_cause = Some t,
     cause_truncated = False, evidence_overflow = False, dependency_set = None\<rparr>"

definition example_terminal :: "scalar_text \<Rightarrow> NodeTerminalV1" where
  "example_terminal t = \<lparr>nt_schema_version = 1, nt_primary = PrimaryFailed,
     nt_cleanup = \<lparr>legacy_disposition = LegacyNotNeeded, legacy_duration_ms = 0\<rparr>, nt_cause = Some (example_cause t),
     nt_prompt_may_have_been_accepted = False, nt_degraded_ancestry = False, nt_policy_trigger_id = None\<rparr>"

text \<open>A serialiser that spends one byte per character of the cause text.\<close>

definition example_json :: "NodeTerminalV1 \<Rightarrow> u8 list option" where
  "example_json v = Some (case nt_cause v of None \<Rightarrow> [] | Some c \<Rightarrow>
     (case deepest_cause c of None \<Rightarrow> [] | Some t \<Rightarrow> map of_nat t))"

theorem terminal_encode_total_witness:
  "\<exists>b. NodeTerminalV1_encode_canonical None example_json (example_terminal (replicate 4000 97)) = Inr b \<and> length b \<le> 2048"
  by (rule terminal_encode_total)
    (simp_all add: example_terminal_def EXECUTION_POLICY_SCHEMA_V1_def example_json_def terminal_skeleton_def)

section \<open>Causes of bridge errors\<close>

lemma static_code_ok:
  assumes "list_all code_char (lit c)" and "c \<noteq> []" and "length c \<le> 64" and "\<not> looks_secret_shaped (lit c)"
  shows "static_code home c = Some (lit c)"
proof -
  have "text_len (lit c) = length c"
    using assms(1) by (induction c) (auto simp: code_char_def lowercase_scalar_def digit_scalar_def len_utf8_def)
  moreover have "lit c \<noteq> []" using assms(2) by (simp add: lit_def)
  ultimately show ?thesis
    using assms by (simp add: static_code_def DiagnosticCode_build_def DiagnosticCode_build_inner_def
        contains_known_value_def DiagnosticRedactor_new_def normalize_known_values_def MAX_CODE_BYTES_def)
qed

lemma codes_ok:
  "(\<forall>d. e \<noteq> AgentFailure d) \<Longrightarrow>
   list_all code_char (lit (snd (class_and_code e))) \<and> snd (class_and_code e) \<noteq> [] \<and> length (snd (class_and_code e)) \<le> 64
   \<and> \<not> looks_secret_shaped (lit (snd (class_and_code e)))"
  by (cases e rule: class_and_code.cases)
    (simp_all add: code_char_def lowercase_scalar_def digit_scalar_def looks_secret_shaped_def Let_def PREFIXES_def
      starts_with_def ascii_lower_def len_utf8_def alphanumeric_scalar_def alphabetic_scalar_def)

text \<open>
  Drawing a cause from a bridge error never panics: every row of the code table passes the code
  builder, whatever the home directory, and the cause has the class of the table. A structured
  failure keeps its own class, code and last cause; the reason of a crash or of an invalid
  configuration does not enter the cause.
\<close>

theorem from_bridge_error_total:
  "(\<exists>c. from_bridge_error home e = Some c \<and> cause_failure_class c = fst (class_and_code e)
      \<and> (case e of AgentFailure d \<Rightarrow> cause_code c = code d \<and> deepest_cause c = Some (last (summary d # causes d))
         | _ \<Rightarrow> cause_code c = lit (snd (class_and_code e))))
   \<and> from_bridge_error home (AgentCrashed reason) = from_bridge_error home (AgentCrashed [])
   \<and> from_bridge_error home (ConfigInvalid reason) = from_bridge_error home (ConfigInvalid [])"
proof -
  have "\<exists>c. from_bridge_error home e = Some c \<and> cause_failure_class c = fst (class_and_code e)
      \<and> cause_code c = lit (snd (class_and_code e))" if "\<forall>d. e \<noteq> AgentFailure d"
  proof -
    from codes_ok [OF that] have "static_code home (snd (class_and_code e)) = Some (lit (snd (class_and_code e)))"
      by (intro static_code_ok) simp_all
    with that show ?thesis
      by (cases e) (simp_all add: from_bridge_error_def Let_def del: lit_simps)
  qed
  moreover have "\<exists>c. from_bridge_error home (AgentFailure d) = Some c \<and> cause_failure_class c = failure_class d
      \<and> cause_code c = code d \<and> deepest_cause c = Some (last (summary d # causes d))" for d
    by (simp add: from_bridge_error_def)
  ultimately show ?thesis
    by (cases e) (simp_all add: from_bridge_error_def Let_def del: lit_simps)
qed

section \<open>Sanitising twice\<close>

text \<open>
  Truncation can end a text inside a longer word so that a secret label stands alone at its end. The
  next sanitisation takes the label for one and replaces the line. A record with such a cause is
  encoded but not decoded again.
\<close>

definition pad :: scalar_text where "pad = replicate 126 128512"

lemma find_sub_replicate:
  "x \<notin> set p \<Longrightarrow> p \<noteq> [] \<Longrightarrow> find_sub p (replicate n x @ s) = map_option ((+) n) (find_sub p s)"
proof (induction n)
  case 0
  then show ?case by (cases "find_sub p s") auto
next
  case (Suc n)
  then have "\<not> starts_with p (x # replicate n x @ s)" by (cases p) (auto simp: starts_with_def)
  with Suc show ?case by (cases "find_sub p s") auto
qed

lemma truncate_append: "text_len s \<le> n \<Longrightarrow> truncate_utf8 (s @ t) n = s @ truncate_utf8 t (n - text_len s)"
  by (induction s arbitrary: n) auto

lemma pad_simps [simp]:
  "length pad = 126" "text_len pad = 504" "map ascii_lower pad = pad" "without_controls (pad @ s) = pad @ without_controls s"
  "128512 \<notin> set p \<Longrightarrow> p \<noteq> [] \<Longrightarrow> find_sub p (pad @ s) = map_option ((+) 126) (find_sub p s)"
  by (simp_all add: pad_def find_sub_replicate text_len_def sum_list_replicate len_utf8_def ascii_lower_def
      without_controls_def is_control_def)

lemma pad_url: "next_url (pad @ s) = map_option ((+) 126) (next_url s)"
  by (auto simp: next_url_def http_def https_def split: option.splits)

lemma cut_url: "redact_url_query_and_fragment (pad @ lit s) = pad @ lit s" if "next_url (map ascii_lower (lit s)) = None" for s
  using that by (simp add: redact_url_query_and_fragment_def url_loop.simps pad_url)

lemma cut_credentials:
  "next_credential (pad @ map ascii_lower (lit s)) 0 = None \<Longrightarrow> redact_credential_prefixes (pad @ lit s) = pad @ lit s"
  by (simp add: redact_credential_prefixes_def credential_loop.simps)

lemma cut_text_sanitized:
  "sanitize_text (DiagnosticRedactor_new None []) (pad @ lit ''xx tokenized'') 512 = pad @ lit ''xx token''"
proof -
  let ?s = "lit ''xx tokenized''"
  have "without_controls (pad @ ?s) = pad @ ?s" by (simp add: pad_def without_controls_def is_control_def)
  moreover have "redact_url_query_and_fragment (pad @ ?s) = pad @ ?s"
    by (rule cut_url) (simp add: next_url_def http_def https_def starts_with_def ascii_lower_def)
  moreover have "redact_secret_markers (pad @ ?s) = pad @ ?s"
    by (simp add: redact_secret_markers_def MARKERS_def scan_marker.simps starts_with_def ascii_lower_def
        left_ok_def right_ok_def ident_char_def alphanumeric_scalar_def alphabetic_scalar_def lowercase_scalar_def nth_append)
  moreover have "redact_credential_prefixes (pad @ ?s) = pad @ ?s"
    by (rule cut_credentials)
      (simp add: next_credential_def PREFIXES_def scan_prefix.simps starts_with_def ascii_lower_def)
  moreover have "truncate_utf8 (pad @ ?s) 512 = pad @ lit ''xx token''"
    by (simp add: truncate_append len_utf8_def)
  ultimately show ?thesis
    by (simp add: sanitize_text_def DiagnosticRedactor_new_def normalize_known_values_def del: lit_simps)
qed

lemma cut_text_sanitized_again:
  "sanitize_text (DiagnosticRedactor_new None []) (pad @ lit ''xx token'') 512 = lit ''[REDACTED LINE]''"
proof -
  let ?s = "lit ''xx token''"
  have "without_controls (pad @ ?s) = pad @ ?s" by (simp add: pad_def without_controls_def is_control_def)
  moreover have "redact_url_query_and_fragment (pad @ ?s) = pad @ ?s"
    by (rule cut_url) (simp add: next_url_def http_def https_def starts_with_def ascii_lower_def)
  moreover have "redact_secret_markers (pad @ ?s) = lit ''[REDACTED LINE]''"
    by (simp add: redact_secret_markers_def MARKERS_def scan_marker.simps starts_with_def ascii_lower_def
        left_ok_def right_ok_def ident_char_def alphanumeric_scalar_def alphabetic_scalar_def lowercase_scalar_def
        digit_scalar_def nth_append)
  moreover have "redact_credential_prefixes (lit ''[REDACTED LINE]'') = lit ''[REDACTED LINE]''"
    by (simp add: redact_credential_prefixes_def credential_loop.simps next_credential_def PREFIXES_def scan_prefix.simps
        starts_with_def ascii_lower_def)
  moreover have "truncate_utf8 (lit ''[REDACTED LINE]'') 512 = lit ''[REDACTED LINE]''"
    by (simp add: len_utf8_def)
  ultimately show ?thesis
    by (simp add: sanitize_text_def DiagnosticRedactor_new_def normalize_known_values_def del: lit_simps)
qed

definition truncated_terminal :: "scalar_text \<Rightarrow> NodeTerminalV1" where
  "truncated_terminal t = (example_terminal t)\<lparr>nt_cause := Some ((example_cause t)\<lparr>cause_truncated := True\<rparr>)\<rparr>"

lemma twice_sanitized_not_decoded:
  assumes inverse: "\<And>v. parse (the (json v)) = Some v" and tot: "\<forall>v. json v \<noteq> None"
    and once: "sanitize_text (DiagnosticRedactor_new None []) s 512 = t" "s \<noteq> t"
    and twice: "sanitize_text (DiagnosticRedactor_new None []) t 512 = u" "t \<noteq> u"
    and fits: "length (the (json (truncated_terminal t))) \<le> 2048" "length (the (json (truncated_terminal u))) \<le> 2048"
  shows "\<exists>b. NodeTerminalV1_encode_canonical None json (example_terminal s) = Inr b
      \<and> NodeTerminalV1_decode_canonical None json parse b = Inl InvalidStructuredEvidence"
proof -
  obtain b where b: "canonical_json json (truncated_terminal t) = Inr b" "json (truncated_terminal t) = Some b"
    using canonical_json_total [OF tot] by blast
  obtain c where c: "canonical_json json (truncated_terminal u) = Inr c" "json (truncated_terminal u) = Some c"
    using canonical_json_total [OF tot] by blast
  have "NodeTerminalV1_normalize None (example_terminal s) = Inr (truncated_terminal t)"
    using once by (simp add: NodeTerminalV1_normalize_def example_terminal_def example_cause_def truncated_terminal_def
        normalize_bounded_cause_def EXECUTION_POLICY_SCHEMA_V1_def MAX_DEEPEST_CAUSE_BYTES_def)
  then have enc: "NodeTerminalV1_encode_canonical None json (example_terminal s) = Inr b"
    using b fits(1) by (simp add: NodeTerminalV1_encode_canonical_def MAX_NODE_TERMINAL_JSON_BYTES_def)
  have "NodeTerminalV1_normalize None (truncated_terminal t) = Inr (truncated_terminal u)"
    using twice by (simp add: NodeTerminalV1_normalize_def example_terminal_def example_cause_def truncated_terminal_def
        normalize_bounded_cause_def EXECUTION_POLICY_SCHEMA_V1_def MAX_DEEPEST_CAUSE_BYTES_def)
  then have re: "NodeTerminalV1_encode_canonical None json (truncated_terminal t) = Inr c"
    using c fits(2) by (simp add: NodeTerminalV1_encode_canonical_def MAX_NODE_TERMINAL_JSON_BYTES_def)
  have parsed: "parse b = Some (truncated_terminal t)" "parse c = Some (truncated_terminal u)"
    using inverse [of "truncated_terminal t"] inverse [of "truncated_terminal u"] b(2) c(2) by simp_all
  have "truncated_terminal t \<noteq> truncated_terminal u"
    using twice(2) by (simp add: truncated_terminal_def example_terminal_def example_cause_def)
  with parsed have "c \<noteq> b" by auto
  then have "NodeTerminalV1_decode_canonical None json parse b = Inl InvalidStructuredEvidence"
    using re b(2) fits(1) parsed(1) by (simp add: NodeTerminalV1_decode_canonical_def MAX_NODE_TERMINAL_JSON_BYTES_def)
  with enc show ?thesis by blast
qed

lemma encoded_terminal_not_decoded:
  assumes "\<And>v. parse (the (json v)) = Some v" and "\<forall>v. json v \<noteq> None"
    and "length (the (json (truncated_terminal (pad @ lit ''xx token'')))) \<le> 2048"
    and "length (the (json (truncated_terminal (lit ''[REDACTED LINE]'')))) \<le> 2048"
  shows "\<exists>b. NodeTerminalV1_encode_canonical None json (example_terminal (pad @ lit ''xx tokenized'')) = Inr b
      \<and> NodeTerminalV1_decode_canonical None json parse b = Inl InvalidStructuredEvidence"
proof -
  have "pad @ lit ''xx tokenized'' \<noteq> pad @ lit ''xx token''" by simp
  moreover have "length (pad @ lit ''xx token'') \<noteq> length (lit ''[REDACTED LINE]'')" by simp
  then have "pad @ lit ''xx token'' \<noteq> lit ''[REDACTED LINE]''" by metis
  ultimately show ?thesis
    by (rule twice_sanitized_not_decoded [OF assms(1,2) cut_text_sanitized _ cut_text_sanitized_again _ assms(3,4)])
qed

end
