(* ===== verification/Fanout_Control.thy ===== *)
theory Fanout_Control
  imports Node_Evidence
begin

text \<open>
  The control of a workflow's parallel nodes (\<open>bridge-workflow\<close>): the fan-out trigger controller
  (\<open>fanout.rs\<close>), the arbitration between the ready arms of the scheduler
  (\<open>scheduler_arbitration.rs\<close>) and the settlement of a cancelled node with its sole clean-up owner
  (\<open>cancellation_settlement.rs\<close>). A \<open>BTreeMap\<close> is an association list in the order of its keys.
\<close>

section \<open>The fan-out controller\<close>

record ReadyNodeTerminalV1 =
  ready_node :: string
  ready_terminal :: NodeTerminalV1

record ReadyBatchSelectionV1 =
  sel_terminals :: "ReadyNodeTerminalV1 list"
  sel_trigger :: "PolicyTriggerV1 option"

datatype FanOutControllerError = MissingNodeReference | DuplicateReadyNode | InvalidRestoredTrigger

datatype LedgerUnavailableReason =
  LedgerOpen | LedgerPermission | ReadOnlyDatabase | ReadOnlyLock | ReadOnlyParent | AdvisoryLockUnsupported
| AdvisoryLockIo | LedgerLocked | LedgerMigration | UnsupportedConfiguration | LedgerSchema | LedgerCorruption
| LedgerIo | CapacityProtected | LedgerCollision

datatype PolicyTriggerBarrierResultV1 =
  ServedPrimaryCommitted | OfflineHistoryCommitted | OfflineTelemetryUnavailable LedgerUnavailableReason
| PrimaryBarrierFailed

datatype PolicyActionV1 = NoAction | CancelRunningSiblings | ArmManualGrace u64 | GlobalCancelAndDrain

fun classify_offline_barrier_error_v1 :: "LedgerUnavailableReason \<Rightarrow> PolicyTriggerBarrierResultV1" where
  "classify_offline_barrier_error_v1 LedgerCollision = PrimaryBarrierFailed"
| "classify_offline_barrier_error_v1 UnsupportedConfiguration = PrimaryBarrierFailed"
| "classify_offline_barrier_error_v1 reason = OfflineTelemetryUnavailable reason"

record FanOutControllerV1 =
  fan_policy :: FanOutPolicyV1
  fan_trigger :: "PolicyTriggerV1 option"
  barrier_pending :: bool
  admission_stopped :: bool
  manual_grace_armed :: bool
  manual_grace_expired :: bool

definition FanOutControllerV1_new :: "FanOutPolicyV1 \<Rightarrow> FanOutControllerV1" where
  "FanOutControllerV1_new p = \<lparr>fan_policy = p, fan_trigger = None, barrier_pending = False, admission_stopped = False,
     manual_grace_armed = False, manual_grace_expired = False\<rparr>"

fun policy_grace :: "FanOutPolicyV1 \<Rightarrow> u64 option" where
  "policy_grace (FixedGrace g) = Some g"
| "policy_grace _ = None"

definition failed_primary :: "NodeTerminalV1 \<Rightarrow> bool" where
  "failed_primary t \<longleftrightarrow> nt_primary t = PrimaryFailed \<or> nt_primary t = PrimaryTimedOut"

definition restore_committed_trigger ::
  "FanOutControllerV1 \<Rightarrow> string \<Rightarrow> PolicyTriggerV1 \<Rightarrow> (string \<times> NodeTerminalV1) list \<Rightarrow> (string \<times> PolicyNodeRefV1) list
     \<Rightarrow> FanOutControllerError + FanOutControllerV1" where
  "restore_committed_trigger c attempt t terms refs =
     (let expected_grace = policy_grace (fan_policy c);
          selected_node = map_option fst (find (\<lambda>(_, r). r = trigger_node t) refs);
          valid_selected_terminal =
            (case Option.bind selected_node (map_of terms) of
               None \<Rightarrow> False
             | Some tm \<Rightarrow> failed_primary tm \<and> nt_policy_trigger_id tm = Some (trigger_id t));
          trigger_mentions = length (filter (\<lambda>(_, tm). nt_policy_trigger_id tm = Some (trigger_id t)) terms)
      in if fan_trigger c \<noteq> None \<or> barrier_pending c \<or> fan_policy c = BoundedIndependent
            \<or> trigger_schema_version t \<noteq> EXECUTION_POLICY_SCHEMA_V1
            \<or> trigger_id t \<noteq> control_event_id_for_attempt attempt 0
            \<or> trigger_policy t \<noteq> policy_name (fan_policy c)
            \<or> trigger_grace_ms t \<noteq> expected_grace
            \<or> \<not> valid_selected_terminal
            \<or> trigger_mentions \<noteq> 1
            \<or> list_ex (\<lambda>(_, tm). case nt_policy_trigger_id tm of None \<Rightarrow> False | Some i \<Rightarrow> i \<noteq> trigger_id t) terms
         then Inl InvalidRestoredTrigger
         else Inr (c\<lparr>fan_trigger := Some t, admission_stopped := True,
                     manual_grace_armed := (case fan_policy c of FixedGrace _ \<Rightarrow> True | _ \<Rightarrow> False)\<rparr>))"

fun adjacent_equal :: "'a list \<Rightarrow> bool" where
  "adjacent_equal (x # y # zs) \<longleftrightarrow> x = y \<or> adjacent_equal (y # zs)"
| "adjacent_equal _ \<longleftrightarrow> False"

definition finalize_ready_batch ::
  "FanOutControllerV1 \<Rightarrow> string \<Rightarrow> ReadyNodeTerminalV1 list \<Rightarrow> (string \<times> PolicyNodeRefV1) list \<Rightarrow> bool
     \<Rightarrow> FanOutControllerV1 \<times> (FanOutControllerError + ReadyBatchSelectionV1)" where
  "finalize_ready_batch c attempt batch refs workflow_cancel_observable_before_wait =
     (let terms = sort_key ready_node batch; unselected = Inr \<lparr>sel_terminals = terms, sel_trigger = None\<rparr> in
      if adjacent_equal (map ready_node terms) then (c, Inl DuplicateReadyNode)
      else if workflow_cancel_observable_before_wait then (c\<lparr>admission_stopped := True\<rparr>, unselected)
      else if fan_trigger c \<noteq> None \<or> fan_policy c = BoundedIndependent then (c, unselected)
      else case position (\<lambda>r. failed_primary (ready_terminal r)) terms of
        None \<Rightarrow> (c, unselected)
      | Some selected \<Rightarrow>
          (case map_of refs (ready_node (terms ! selected)) of
             None \<Rightarrow> (c, Inl MissingNodeReference)
           | Some node \<Rightarrow>
               (let i = control_event_id_for_attempt attempt 0;
                    t = \<lparr>trigger_schema_version = EXECUTION_POLICY_SCHEMA_V1, trigger_id = i, trigger_node = node,
                         trigger_policy = policy_name (fan_policy c), trigger_grace_ms = policy_grace (fan_policy c)\<rparr>;
                    r = terms ! selected;
                    marked = r\<lparr>ready_terminal := (ready_terminal r)\<lparr>nt_policy_trigger_id := Some i\<rparr>\<rparr>
                in (c\<lparr>fan_trigger := Some t, barrier_pending := True, admission_stopped := True\<rparr>,
                    Inr \<lparr>sel_terminals = terms[selected := marked], sel_trigger = Some t\<rparr>))))"

definition barrier_authorized :: "PolicyTriggerBarrierResultV1 \<Rightarrow> bool" where
  "barrier_authorized result =
     (case result of
        ServedPrimaryCommitted \<Rightarrow> True
      | OfflineHistoryCommitted \<Rightarrow> True
      | OfflineTelemetryUnavailable reason \<Rightarrow> \<not> (reason = LedgerCollision \<or> reason = UnsupportedConfiguration)
      | PrimaryBarrierFailed \<Rightarrow> False)"

definition acknowledge_barrier ::
  "FanOutControllerV1 \<Rightarrow> PolicyTriggerBarrierResultV1 \<Rightarrow> bool \<Rightarrow> FanOutControllerV1 \<times> PolicyActionV1" where
  "acknowledge_barrier c result workflow_cancel_observable_after_ack =
     (if \<not> barrier_pending c then (c, NoAction)
      else let c = c\<lparr>barrier_pending := False\<rparr> in
        if workflow_cancel_observable_after_ack then (c, GlobalCancelAndDrain)
        else if \<not> barrier_authorized result then (c, GlobalCancelAndDrain)
        else case fan_policy c of
          BoundedIndependent \<Rightarrow> (c, NoAction)
        | FailFast \<Rightarrow> (c, CancelRunningSiblings)
        | FixedGrace g \<Rightarrow> (c\<lparr>manual_grace_armed := True\<rparr>, ArmManualGrace g))"

definition expire_manual_grace :: "FanOutControllerV1 \<Rightarrow> FanOutControllerV1 \<times> PolicyActionV1" where
  "expire_manual_grace c =
     (if \<not> manual_grace_armed c \<or> manual_grace_expired c then (c, NoAction)
      else (c\<lparr>manual_grace_expired := True\<rparr>, CancelRunningSiblings))"

section \<open>Arbitration\<close>

datatype SchedulerArmV1 =
  DrainReadyNodeCompletions | DurableTriggerBarrierAcknowledgements | WorkflowOrExternalCancellation
| FixedGraceExpiry | AbsoluteCutoff | MechanicallyProvedImpossibility | DueNoProgressSnapshots
| WaitForNodeActivityControlOrClock

definition SCHEDULER_ARM_PRIORITY_V1 :: "SchedulerArmV1 list" where
  "SCHEDULER_ARM_PRIORITY_V1 =
     [DrainReadyNodeCompletions, DurableTriggerBarrierAcknowledgements, WorkflowOrExternalCancellation, FixedGraceExpiry,
      AbsoluteCutoff, MechanicallyProvedImpossibility, DueNoProgressSnapshots, WaitForNodeActivityControlOrClock]"

record ReadyNodeCompletionV1 =
  comp_node_id :: string
  ready_at_ms :: u64

record SchedulerArbitrationReadinessV1 =
  ready_node_completions :: "ReadyNodeCompletionV1 list"
  durable_trigger_barrier_acknowledgements :: bool
  workflow_or_external_cancellation :: bool
  fixed_grace_expired :: bool
  absolute_cutoff_reached :: bool
  mechanical_impossibility_proved :: bool
  no_progress_snapshot_due :: bool

record SchedulerTieFactsV1 =
  absolute_cutoff_at_ms :: u64
  inflight_nodes :: "string list"

record SchedulerArbitrationV1 =
  winner :: SchedulerArmV1
  arb_ready :: "ReadyNodeCompletionV1 list"
  post_cutoff_completions :: "ReadyNodeCompletionV1 list"
  nodes_to_cancel_after_winner :: "string list"

fun is_ready :: "SchedulerArmV1 \<Rightarrow> SchedulerArbitrationReadinessV1 \<Rightarrow> bool \<Rightarrow> bool" where
  "is_ready DrainReadyNodeCompletions r has_ready = has_ready"
| "is_ready DurableTriggerBarrierAcknowledgements r has_ready = durable_trigger_barrier_acknowledgements r"
| "is_ready WorkflowOrExternalCancellation r has_ready = workflow_or_external_cancellation r"
| "is_ready FixedGraceExpiry r has_ready = fixed_grace_expired r"
| "is_ready AbsoluteCutoff r has_ready = absolute_cutoff_reached r"
| "is_ready MechanicallyProvedImpossibility r has_ready = mechanical_impossibility_proved r"
| "is_ready DueNoProgressSnapshots r has_ready = no_progress_snapshot_due r"
| "is_ready WaitForNodeActivityControlOrClock r has_ready = True"

text \<open>The last arm of the priority list is always ready, so the search finds one.\<close>

definition select_winner :: "SchedulerArbitrationReadinessV1 \<Rightarrow> SchedulerArmV1" where
  "select_winner r =
     (case find (\<lambda>arm. is_ready arm r (ready_node_completions r \<noteq> [])) SCHEDULER_ARM_PRIORITY_V1 of
        Some arm \<Rightarrow> arm | None \<Rightarrow> WaitForNodeActivityControlOrClock)"

definition arbitrate_scheduler_v1 ::
  "SchedulerArbitrationReadinessV1 \<Rightarrow> SchedulerTieFactsV1 \<Rightarrow> SchedulerArbitrationV1" where
  "arbitrate_scheduler_v1 r facts =
     (let in_time = (\<lambda>x. ready_at_ms x \<le> absolute_cutoff_at_ms facts);
          ready = (if absolute_cutoff_reached r then filter in_time (ready_node_completions r) else ready_node_completions r);
          late = (if absolute_cutoff_reached r then filter (\<lambda>x. \<not> in_time x) (ready_node_completions r) else []);
          r = r\<lparr>ready_node_completions := sort_key comp_node_id ready\<rparr>;
          late = sort_key comp_node_id late;
          win = select_winner r;
          cutoff_requires_cancellation =
            (absolute_cutoff_reached r \<and> (win = DrainReadyNodeCompletions \<or> win = AbsoluteCutoff));
          cancel = (if cutoff_requires_cancellation
                    then filter (\<lambda>n. \<not> list_ex (\<lambda>x. comp_node_id x = n) (ready_node_completions r)) (inflight_nodes facts)
                    else [])
      in \<lparr>winner = win, arb_ready = ready_node_completions r, post_cutoff_completions = late,
          nodes_to_cancel_after_winner = sort cancel\<rparr>)"

section \<open>Settling a cancelled node\<close>

text \<open>
  The guard holds the owner until it is settled or transferred; the audit counts the guards that are
  dropped while they still hold one, wrapping as the atomic counter does.
\<close>

record SoleCleanupOwnerGuardV1 =
  guard_owner :: "RecoveryOwnerV1 option"

definition SoleCleanupOwnerGuardV1_new :: "RecoveryOwnerV1 \<Rightarrow> SoleCleanupOwnerGuardV1" where
  "SoleCleanupOwnerGuardV1_new ow = \<lparr>guard_owner = Some ow\<rparr>"

definition drop_guard :: "u64 \<Rightarrow> SoleCleanupOwnerGuardV1 \<Rightarrow> u64" where
  "drop_guard audit g = (if guard_owner g \<noteq> None then audit + 1 else audit)"

text \<open>Both take the owner out and then drop the emptied guard.\<close>

definition settle_guard :: "u64 \<Rightarrow> SoleCleanupOwnerGuardV1 \<Rightarrow> u64" where
  "settle_guard audit g = drop_guard audit (g\<lparr>guard_owner := None\<rparr>)"

definition transfer_guard :: "u64 \<Rightarrow> SoleCleanupOwnerGuardV1 \<Rightarrow> RecoveryOwnerV1 option \<times> u64" where
  "transfer_guard audit g = (guard_owner g, drop_guard audit (g\<lparr>guard_owner := None\<rparr>))"

definition TypedWorktreePreservationV1_new ::
  "WorktreePreservationResultV1 \<Rightarrow> WorktreePreservationResultV1 option" where
  "TypedWorktreePreservationV1_new result =
     (if preservation_disposition result = PreservationPending then None else Some result)"

record 'p WorkflowNodeCancellationSettlementV1 =
  observation :: NodeCleanupObservationV1
  elapsed_after_cancellation_ms :: u64
  cleanup_deadline_after_cancellation_ms :: u64
  guard :: "SoleCleanupOwnerGuardV1 option"
  typed_preservation :: 'p

definition settlement_new ::
  "NodeCleanupObservationV1 \<Rightarrow> u64 \<Rightarrow> u64 \<Rightarrow> unit WorkflowNodeCancellationSettlementV1" where
  "settlement_new obs elapsed deadline =
     \<lparr>observation = obs, elapsed_after_cancellation_ms = elapsed, cleanup_deadline_after_cancellation_ms = deadline,
      guard = map_option SoleCleanupOwnerGuardV1_new (recovery_owner obs), typed_preservation = ()\<rparr>"

definition after_preservation ::
  "unit WorkflowNodeCancellationSettlementV1 \<Rightarrow> WorktreePreservationResultV1
     \<Rightarrow> WorktreePreservationResultV1 WorkflowNodeCancellationSettlementV1" where
  "after_preservation s p =
     \<lparr>observation = observation s, elapsed_after_cancellation_ms = elapsed_after_cancellation_ms s,
      cleanup_deadline_after_cancellation_ms = cleanup_deadline_after_cancellation_ms s, guard = guard s,
      typed_preservation = p\<rparr>"

text \<open>
  The result is the record with the audit after the guard was used, or the settlement itself, whose
  guard is still armed. An empty guard at a transfer would be the panic of \<open>expect\<close>: \<^const>\<open>None\<close>.
\<close>

definition into_disposition ::
  "u64 \<Rightarrow> WorktreePreservationResultV1 WorkflowNodeCancellationSettlementV1
     \<Rightarrow> (WorktreePreservationResultV1 WorkflowNodeCancellationSettlementV1 + NodeCleanupRecordV2 \<times> u64) option" where
  "into_disposition audit s =
     (let settled = settle_node_cleanup_v2 (observation s) (elapsed_after_cancellation_ms s)
            (cleanup_deadline_after_cancellation_ms s);
          rec = \<lparr>cleanup_schema_version = NODE_CLEANUP_RECORD_SCHEMA_V2, cleanup = settled,
                 preservation = typed_preservation s, collateral = None\<rparr>
      in if is_pending settled then Some (Inl s)
         else if \<not> is_ok (validate_coherence rec) then Some (Inl s)
         else case (settled, guard s) of
           (CleanupPartial d _, Some g) \<Rightarrow>
             (case transfer_guard audit g of
                (Some ow, audit) \<Rightarrow> Some (Inr (rec\<lparr>cleanup := CleanupPartial d ow\<rparr>, audit))
              | (None, _) \<Rightarrow> None)
         | (CleanupUnknown d (Some _), Some g) \<Rightarrow>
             (case transfer_guard audit g of
                (Some ow, audit) \<Rightarrow> Some (Inr (rec\<lparr>cleanup := CleanupUnknown d (Some ow)\<rparr>, audit))
              | (None, _) \<Rightarrow> None)
         | (_, Some g) \<Rightarrow> Some (Inr (rec, settle_guard audit g))
         | (_, None) \<Rightarrow> Some (Inr (rec, audit)))"

section \<open>The trigger does not depend on the order of completion\<close>

lemma adjacent_equal_sorted: "sorted (xs :: 'a::linorder list) \<Longrightarrow> adjacent_equal xs \<longleftrightarrow> \<not> distinct xs"
proof (induction xs rule: adjacent_equal.induct)
  case (1 x y zs)
  then show ?case by (auto dest: order.antisym)
qed simp_all

lemma sort_key_mset_unique:
  assumes "mset xs = mset ys" and "distinct (map f xs)"
  shows "sort_key f xs = sort_key (f :: 'a \<Rightarrow> 'b::linorder) ys"
proof (rule map_sorted_distinct_set_unique [of f])
  have same: "set xs = set ys" using assms(1) by (rule mset_eq_setD)
  show "inj_on f (set (sort_key f xs) \<union> set (sort_key f ys))" using assms(2) same by (simp add: distinct_map)
  have "mset (map f ys) = mset (map f xs)" using assms(1) by (simp add: mset_map)
  then have ys: "distinct (map f ys)" using assms(2) mset_eq_imp_distinct_iff by blast
  have "distinct (map f (sort_key f zs)) \<longleftrightarrow> distinct (map f zs)" for zs :: "'a list"
    by (rule mset_eq_imp_distinct_iff) (simp add: mset_map)
  with ys assms(2) show "distinct (map f (sort_key f xs))" "distinct (map f (sort_key f ys))" by simp_all
  show "set (sort_key f xs) = set (sort_key f ys)" using same by simp
qed simp_all

lemma adjacent_equal_batch: "adjacent_equal (map f (sort_key f xs)) \<longleftrightarrow> \<not> distinct (map (f :: 'a \<Rightarrow> 'b::linorder) xs)"
proof -
  have "distinct (map f (sort_key f xs)) \<longleftrightarrow> distinct (map f xs)"
    by (rule mset_eq_imp_distinct_iff) (simp add: mset_map)
  then show ?thesis by (simp add: adjacent_equal_sorted)
qed

text \<open>
  C34: The fan-out decision depends only on which nodes completed and how, not on the order in which the
  executor drained them: two batches with the same terminals give the same controller, the same error
  or the same selection, terminals in the same order and with the same trigger.
\<close>

theorem finalize_order_independent:
  assumes "mset batch = mset batch'"
  shows "finalize_ready_batch c attempt batch refs cancelled = finalize_ready_batch c attempt batch' refs cancelled"
proof (cases "distinct (map ready_node batch)")
  case True
  then show ?thesis unfolding finalize_ready_batch_def by (simp only: sort_key_mset_unique [OF assms True])
next
  case False
  have "mset (map ready_node batch) = mset (map ready_node batch')" using assms by (simp add: mset_map)
  with False have "\<not> distinct (map ready_node batch')" using mset_eq_imp_distinct_iff by blast
  with False show ?thesis by (simp add: finalize_ready_batch_def adjacent_equal_batch)
qed

definition example_ready :: "string \<Rightarrow> NodePrimaryDispositionV1 \<Rightarrow> ReadyNodeTerminalV1" where
  "example_ready n p = \<lparr>ready_node = n, ready_terminal = (example_terminal [])\<lparr>nt_primary := p\<rparr>\<rparr>"

theorem finalize_order_independent_witness:
  "finalize_ready_batch (FanOutControllerV1_new FailFast) ''attempt-1'' [example_ready ''b'' PrimaryFailed, example_ready ''a'' PrimaryTimedOut] [] False
   = finalize_ready_batch (FanOutControllerV1_new FailFast) ''attempt-1'' [example_ready ''a'' PrimaryTimedOut, example_ready ''b'' PrimaryFailed] [] False"
  by (rule finalize_order_independent) simp

section \<open>Histories of the controller\<close>

datatype fan_event =
  FanBatch string "ReadyNodeTerminalV1 list" bool | FanAck PolicyTriggerBarrierResultV1 bool | FanExpire

datatype fan_output = Selected PolicyTriggerV1 | Unselected | Refused FanOutControllerError | Acted PolicyActionV1

fun fan_step ::
  "(string \<times> PolicyNodeRefV1) list \<Rightarrow> FanOutControllerV1 \<Rightarrow> fan_event \<Rightarrow> FanOutControllerV1 \<times> fan_output" where
  "fan_step refs c (FanBatch attempt batch cancelled) =
     (case finalize_ready_batch c attempt batch refs cancelled of
        (c', Inl e) \<Rightarrow> (c', Refused e)
      | (c', Inr sel) \<Rightarrow> (c', case sel_trigger sel of Some t \<Rightarrow> Selected t | None \<Rightarrow> Unselected))"
| "fan_step refs c (FanAck result cancelled) =
     (let (c', act) = acknowledge_barrier c result cancelled in (c', Acted act))"
| "fan_step refs c FanExpire = (let (c', act) = expire_manual_grace c in (c', Acted act))"

inductive fan_reaches ::
  "(string \<times> PolicyNodeRefV1) list \<Rightarrow> FanOutPolicyV1 \<Rightarrow> (fan_event \<times> fan_output) list \<Rightarrow> FanOutControllerV1 \<Rightarrow> bool"
  for refs policy where
  start: "fan_reaches refs policy [] (FanOutControllerV1_new policy)"
| step: "fan_reaches refs policy tr c \<Longrightarrow> fan_step refs c ev = (c', out) \<Longrightarrow> fan_reaches refs policy (tr @ [(ev, out)]) c'"

code_pred fan_reaches .

definition selections :: "(fan_event \<times> fan_output) list \<Rightarrow> PolicyTriggerV1 list" where
  "selections tr = concat (map (\<lambda>(_, out). case out of Selected t \<Rightarrow> [t] | _ \<Rightarrow> []) tr)"

text \<open>The actions that aim at the sibling nodes, in order.\<close>

definition targeted :: "(fan_event \<times> fan_output) list \<Rightarrow> PolicyActionV1 list" where
  "targeted tr = concat (map (\<lambda>(_, out). case out of
      Acted CancelRunningSiblings \<Rightarrow> [CancelRunningSiblings] | Acted (ArmManualGrace g) \<Rightarrow> [ArmManualGrace g] | _ \<Rightarrow> []) tr)"

fun policy_script :: "FanOutPolicyV1 \<Rightarrow> PolicyActionV1 list" where
  "policy_script BoundedIndependent = []"
| "policy_script FailFast = [CancelRunningSiblings]"
| "policy_script (FixedGrace g) = [ArmManualGrace g, CancelRunningSiblings]"

definition authorized_entry :: "fan_event \<times> fan_output \<Rightarrow> bool" where
  "authorized_entry entry =
     (case entry of
        (FanAck result cancelled, Acted act) \<Rightarrow> targeted [entry] = [] \<or> barrier_authorized result \<and> \<not> cancelled
      | _ \<Rightarrow> True)"

text \<open>How far the script has run, read off the controller.\<close>

definition script_position :: "FanOutPolicyV1 \<Rightarrow> FanOutControllerV1 \<Rightarrow> PolicyActionV1 list \<Rightarrow> bool" where
  "script_position policy c acts =
     (case policy of
        BoundedIndependent \<Rightarrow> acts = [] \<and> \<not> manual_grace_armed c
      | FailFast \<Rightarrow> \<not> manual_grace_armed c \<and> (acts = [] \<or> acts = [CancelRunningSiblings] \<and> \<not> barrier_pending c)
      | FixedGrace g \<Rightarrow>
          if \<not> manual_grace_armed c then acts = [] \<and> \<not> manual_grace_expired c
          else \<not> barrier_pending c \<and>
            acts = (if manual_grace_expired c then [ArmManualGrace g, CancelRunningSiblings] else [ArmManualGrace g]))"

definition fan_inv :: "FanOutPolicyV1 \<Rightarrow> (fan_event \<times> fan_output) list \<Rightarrow> FanOutControllerV1 \<Rightarrow> bool" where
  "fan_inv policy tr c \<longleftrightarrow>
     fan_policy c = policy \<and> selections tr = (case fan_trigger c of None \<Rightarrow> [] | Some t \<Rightarrow> [t])
     \<and> script_position policy c (targeted tr) \<and> list_all authorized_entry tr
     \<and> (fan_trigger c = None \<longrightarrow> \<not> barrier_pending c \<and> targeted tr = [] \<and> \<not> manual_grace_armed c)
     \<and> (fan_trigger c \<noteq> None \<longrightarrow> admission_stopped c \<and> policy \<noteq> BoundedIndependent)"

lemma trace_snoc [simp]:
  "selections (tr @ [entry]) = selections tr @ selections [entry]"
  "targeted (tr @ [entry]) = targeted tr @ targeted [entry]"
  "selections [(ev, out)] = (case out of Selected t \<Rightarrow> [t] | _ \<Rightarrow> [])"
  "targeted [(ev, out)] = (case out of
     Acted CancelRunningSiblings \<Rightarrow> [CancelRunningSiblings] | Acted (ArmManualGrace g) \<Rightarrow> [ArmManualGrace g] | _ \<Rightarrow> [])"
  by (simp_all add: selections_def targeted_def)

lemma fan_inv_batch:
  assumes "fan_inv policy tr c" and "fan_step refs c (FanBatch attempt batch cancelled) = (c', out)"
  shows "fan_inv policy (tr @ [(FanBatch attempt batch cancelled, out)]) c'"
  using assms
  by (auto simp: fan_inv_def finalize_ready_batch_def Let_def authorized_entry_def script_position_def
      split: if_splits option.splits FanOutPolicyV1.splits)

lemma fan_inv_ack:
  assumes "fan_inv policy tr c" and "fan_step refs c (FanAck result cancelled) = (c', out)"
  shows "fan_inv policy (tr @ [(FanAck result cancelled, out)]) c'"
proof (cases "barrier_pending c")
  case False
  with assms show ?thesis
    by (auto simp: fan_inv_def acknowledge_barrier_def Let_def authorized_entry_def)
next
  case True
  with assms show ?thesis
    by (cases "cancelled \<or> \<not> barrier_authorized result"; cases policy)
      (auto simp: fan_inv_def acknowledge_barrier_def Let_def authorized_entry_def script_position_def
        split: if_splits option.splits)
qed

lemma fan_inv_expire:
  assumes "fan_inv policy tr c" and "fan_step refs c FanExpire = (c', out)"
  shows "fan_inv policy (tr @ [(FanExpire, out)]) c'"
  using assms
  by (cases policy)
    (auto simp: fan_inv_def expire_manual_grace_def Let_def authorized_entry_def script_position_def
      split: if_splits option.splits)

lemma fan_reaches_inv: "fan_reaches refs policy tr c \<Longrightarrow> fan_inv policy tr c"
proof (induction rule: fan_reaches.induct)
  case start
  show ?case
    by (cases policy) (simp_all add: fan_inv_def FanOutControllerV1_new_def script_position_def selections_def targeted_def)
next
  case (step tr c ev c' out)
  note next_step = step.hyps(2)
  show ?case
  proof (cases ev)
    case (FanBatch a b x)
    show ?thesis using fan_inv_batch [OF step.IH next_step [unfolded FanBatch]] by (simp only: FanBatch)
  next
    case (FanAck res x)
    show ?thesis using fan_inv_ack [OF step.IH next_step [unfolded FanAck]] by (simp only: FanAck)
  next
    case FanExpire
    show ?thesis using fan_inv_expire [OF step.IH next_step [unfolded FanExpire]] by (simp only: FanExpire)
  qed
qed

text \<open>
  C7: Whatever batches, acknowledgements and grace expiries a fan-out controller sees, it selects at
  most one trigger, and the actions it aims at the sibling nodes follow the script of its policy: none
  for bounded independence, one cancellation for fail-fast, and one grace period followed by one
  cancellation for fixed grace. No such action precedes a trigger, each one that answers an
  acknowledgement has an authorised barrier result and no observed cancellation, and once a trigger is
  selected the admission of new nodes stays stopped.
\<close>

theorem fan_out_acts_once:
  assumes "fan_reaches refs policy tr c"
  shows "length (selections tr) \<le> 1 \<and> (\<exists>rest. policy_script policy = targeted tr @ rest)
       \<and> (targeted tr = [] \<or> selections tr \<noteq> []) \<and> list_all authorized_entry tr
       \<and> (selections tr = [] \<or> admission_stopped c)"
proof -
  note inv = fan_reaches_inv [OF assms]
  have "\<exists>rest. policy_script policy = targeted tr @ rest"
    using inv by (cases policy) (auto simp: fan_inv_def script_position_def split: if_splits)
  with inv show ?thesis by (auto simp: fan_inv_def split: option.splits)
qed

definition example_refs :: "(string \<times> PolicyNodeRefV1) list" where
  "example_refs = [(''a'', \<lparr>sorted_ordinal = 0, id_sha256 = ''a''\<rparr>), (''b'', \<lparr>sorted_ordinal = 1, id_sha256 = ''b''\<rparr>)]"

fun fan_run ::
  "(string \<times> PolicyNodeRefV1) list \<Rightarrow> (fan_event \<times> fan_output) list \<Rightarrow> FanOutControllerV1 \<Rightarrow> fan_event list
     \<Rightarrow> (fan_event \<times> fan_output) list \<times> FanOutControllerV1" where
  "fan_run refs tr c [] = (tr, c)"
| "fan_run refs tr c (ev # evs) = (let (c', out) = fan_step refs c ev in fan_run refs (tr @ [(ev, out)]) c' evs)"

lemma fan_run_reaches:
  "fan_reaches refs policy tr c \<Longrightarrow> fan_reaches refs policy (fst (fan_run refs tr c evs)) (snd (fan_run refs tr c evs))"
proof (induction evs arbitrary: tr c)
  case (Cons ev evs)
  obtain c' out where "fan_step refs c ev = (c', out)" by fastforce
  with Cons.IH [OF fan_reaches.step [OF Cons.prems this]] show ?case by simp
qed simp

definition example_events :: "fan_event list" where
  "example_events = [FanBatch ''attempt-1'' [example_ready ''b'' PrimaryFailed, example_ready ''a'' PrimaryFailed] False,
      FanAck ServedPrimaryCommitted False, FanExpire, FanExpire]"

definition example_history :: "(fan_event \<times> fan_output) list" where
  "example_history = fst (fan_run example_refs [] (FanOutControllerV1_new (FixedGrace 5)) example_events)"

lemma example_history_targeted: "targeted example_history = [ArmManualGrace 5, CancelRunningSiblings]"
  by (simp add: example_history_def example_events_def finalize_ready_batch_def FanOutControllerV1_new_def example_ready_def example_refs_def
      failed_primary_def Let_def acknowledge_barrier_def barrier_authorized_def expire_manual_grace_def targeted_def)

theorem fan_out_acts_once_witness:
  "targeted example_history = [ArmManualGrace 5, CancelRunningSiblings] \<and> selections example_history \<noteq> []"
proof -
  have "fan_reaches example_refs (FixedGrace 5) example_history
      (snd (fan_run example_refs [] (FanOutControllerV1_new (FixedGrace 5)) example_events))"
    unfolding example_history_def by (rule fan_run_reaches [OF fan_reaches.start])
  from fan_out_acts_once [OF this] example_history_targeted show ?thesis by simp
qed

section \<open>Restoring a committed trigger\<close>

lemma position_split:
  "position P xs = Some n \<Longrightarrow> \<exists>us x vs. xs = us @ x # vs \<and> n = length us \<and> P x"
proof -
  assume "position P xs = Some n"
  then have "n < length xs" "P (xs ! n)" using position_Some by blast+
  then have "xs = take n xs @ xs ! n # drop (Suc n) xs" "length (take n xs) = n" by (simp_all add: id_take_nth_drop)
  with \<open>P (xs ! n)\<close> show ?thesis by metis
qed

lemma find_ref:
  assumes "map_of refs k = Some v" and "distinct (map snd refs)"
  shows "map_option fst (find (\<lambda>(_, r). r = v) refs) = Some k"
  using assms
proof (induction refs)
  case (Cons p refs)
  show ?case
  proof (cases "snd p = v")
    case True
    then have "v \<notin> snd ` set refs" using Cons.prems(2) by auto
    then have "map_of refs k \<noteq> Some v" by (auto dest!: map_of_SomeD intro: rev_image_eqI)
    with True Cons.prems(1) show ?thesis by (cases p) (auto split: if_splits)
  next
    case False
    with Cons show ?thesis by (cases p) (auto split: if_splits)
  qed
qed simp

text \<open>The terminals of a batch as the durable store keeps them.\<close>

definition stored :: "ReadyNodeTerminalV1 list \<Rightarrow> (string \<times> NodeTerminalV1) list" where
  "stored ts = map (\<lambda>r. (ready_node r, ready_terminal r)) ts"

lemma finalize_selects:
  assumes "finalize_ready_batch c attempt batch refs False = (c', Inr sel)" and "sel_trigger sel = Some t"
  obtains us r vs where
    "sort_key ready_node batch = us @ r # vs" "distinct (map ready_node batch)" "fan_policy c \<noteq> BoundedIndependent"
    "failed_primary (ready_terminal r)" "map_of refs (ready_node r) = Some (trigger_node t)"
    "t = \<lparr>trigger_schema_version = EXECUTION_POLICY_SCHEMA_V1, trigger_id = control_event_id_for_attempt attempt 0,
         trigger_node = trigger_node t, trigger_policy = policy_name (fan_policy c), trigger_grace_ms = policy_grace (fan_policy c)\<rparr>"
    "c' = c\<lparr>fan_trigger := Some t, barrier_pending := True, admission_stopped := True\<rparr>"
    "sel_terminals sel = us @ r\<lparr>ready_terminal := (ready_terminal r)\<lparr>nt_policy_trigger_id := Some (trigger_id t)\<rparr>\<rparr> # vs"
proof -
  let ?ts = "sort_key ready_node batch"
  from assms obtain n where n: "position (\<lambda>r. failed_primary (ready_terminal r)) ?ts = Some n"
    and d: "\<not> adjacent_equal (map ready_node ?ts)" and p: "fan_policy c \<noteq> BoundedIndependent" "fan_trigger c = None"
    by (auto simp: finalize_ready_batch_def Let_def split: if_splits option.splits)
  from position_split [OF n] obtain us r vs where r: "?ts = us @ r # vs" "n = length us" "failed_primary (ready_terminal r)"
    by blast
  then have nth: "?ts ! n = r" "\<And>x. ?ts[n := x] = us @ x # vs" by simp_all
  from assms n d p obtain node where node: "map_of refs (ready_node r) = Some node"
    unfolding finalize_ready_batch_def Let_def by (auto simp: nth split: option.splits)
  from assms n d p node show ?thesis
    unfolding finalize_ready_batch_def Let_def
    by (intro that [OF r(1) _ p(1) r(3)]) (auto simp: nth adjacent_equal_batch)
qed

text \<open>
  C12: Restarting after a committed trigger gives the controller that an uninterrupted run has: when a
  batch selects a trigger and its terminals are stored, restoring that trigger on a new controller succeeds
  and yields exactly the state after an authorised acknowledgement, for every policy. The references of
  the frozen graph are distinct and no terminal of the batch named a trigger before.
\<close>

theorem restore_equals_acknowledged:
  assumes "finalize_ready_batch (FanOutControllerV1_new policy) attempt batch refs False = (c, Inr sel)"
    and "sel_trigger sel = Some t" and "barrier_authorized result"
    and "distinct (map snd refs)" and "list_all (\<lambda>r. nt_policy_trigger_id (ready_terminal r) = None) batch"
  shows "restore_committed_trigger (FanOutControllerV1_new policy) attempt t (stored (sel_terminals sel)) refs
       = Inr (fst (acknowledge_barrier c result False))"
  using assms(1,2)
proof (rule finalize_selects, goal_cases)
  case (1 us r vs)
  let ?new = "FanOutControllerV1_new policy"
  let ?terms = "stored (sel_terminals sel)"
  have policy: "fan_policy ?new = policy" by (simp add: FanOutControllerV1_new_def)
  have "set (us @ r # vs) = set batch" using 1(1) by (metis set_sort)
  with assms(5) have none: "nt_policy_trigger_id (ready_terminal x) = None" if "x \<in> set us \<union> set vs" for x
    using that by (auto simp: list_all_iff)
  have "distinct (map ready_node (us @ r # vs))"
    using 1(1,2) mset_eq_imp_distinct_iff [of "map ready_node batch" "map ready_node (us @ r # vs)"]
    by (metis mset_map mset_sort)
  then have get: "map_of ?terms (ready_node r) = Some ((ready_terminal r)\<lparr>nt_policy_trigger_id := Some (trigger_id t)\<rparr>)"
    unfolding 1(8) by (auto simp: stored_def map_add_def map_of_eq_None_iff dest!: map_of_SomeD split: option.splits)
  have count: "filter (\<lambda>(_, tm). nt_policy_trigger_id tm = Some (trigger_id t)) ?terms
      = [(ready_node r, (ready_terminal r)\<lparr>nt_policy_trigger_id := Some (trigger_id t)\<rparr>)]"
    unfolding 1(8) using none by (auto simp: stored_def filter_empty_conv)
  have others: "\<not> list_ex (\<lambda>(_, tm). case nt_policy_trigger_id tm of None \<Rightarrow> False | Some i \<Rightarrow> i \<noteq> trigger_id t) ?terms"
    unfolding 1(8) using none by (auto simp: stored_def list_ex_iff split: option.splits)
  have t: "trigger_schema_version t = EXECUTION_POLICY_SCHEMA_V1" "trigger_id t = control_event_id_for_attempt attempt 0"
    "trigger_policy t = policy_name policy" "trigger_grace_ms t = policy_grace policy"
    using arg_cong [OF 1(6), of trigger_schema_version] arg_cong [OF 1(6), of trigger_id]
      arg_cong [OF 1(6), of trigger_policy] arg_cong [OF 1(6), of trigger_grace_ms] by (simp_all add: policy)
  have "restore_committed_trigger ?new attempt t ?terms refs
      = Inr (?new\<lparr>fan_trigger := Some t, admission_stopped := True,
          manual_grace_armed := (case policy of FixedGrace _ \<Rightarrow> True | _ \<Rightarrow> False)\<rparr>)"
    unfolding restore_committed_trigger_def Let_def find_ref [OF 1(5) assms(4)] Option.bind.simps get
    using 1(3,4) count others t policy
    by (simp add: FanOutControllerV1_new_def failed_primary_def)
  moreover have "fst (acknowledge_barrier c result False) = ?new\<lparr>fan_trigger := Some t, admission_stopped := True,
          manual_grace_armed := (case policy of FixedGrace _ \<Rightarrow> True | _ \<Rightarrow> False)\<rparr>"
    using 1(3) assms(3) unfolding 1(7)
    by (cases policy) (auto simp: acknowledge_barrier_def FanOutControllerV1_new_def)
  ultimately show ?case by simp
qed

definition example_batch :: "ReadyNodeTerminalV1 list" where
  "example_batch = [example_ready ''b'' PrimaryFailed, example_ready ''a'' PrimaryFailed]"

lemma example_batch_selects:
  "\<exists>c sel t. finalize_ready_batch (FanOutControllerV1_new FailFast) ''attempt-1'' example_batch example_refs False = (c, Inr sel)
      \<and> sel_trigger sel = Some t"
  by (simp add: example_batch_def finalize_ready_batch_def FanOutControllerV1_new_def example_ready_def example_refs_def
      failed_primary_def Let_def)

theorem restore_equals_acknowledged_witness:
  "\<exists>c sel t. finalize_ready_batch (FanOutControllerV1_new FailFast) ''attempt-1'' example_batch example_refs False = (c, Inr sel)
     \<and> restore_committed_trigger (FanOutControllerV1_new FailFast) ''attempt-1'' t (stored (sel_terminals sel)) example_refs
         = Inr (fst (acknowledge_barrier c ServedPrimaryCommitted False))"
proof -
  obtain c sel t where f: "finalize_ready_batch (FanOutControllerV1_new FailFast) ''attempt-1'' example_batch example_refs False = (c, Inr sel)"
    "sel_trigger sel = Some t" using example_batch_selects by blast
  have "restore_committed_trigger (FanOutControllerV1_new FailFast) ''attempt-1'' t (stored (sel_terminals sel)) example_refs
         = Inr (fst (acknowledge_barrier c ServedPrimaryCommitted False))"
    by (rule restore_equals_acknowledged [OF f])
      (simp_all add: barrier_authorized_def example_refs_def example_batch_def example_ready_def example_terminal_def)
  with f show ?thesis by blast
qed

section \<open>What arbitration decides\<close>

lemma select_winner_ready: "is_ready (select_winner r) r (ready_node_completions r \<noteq> [])"
  by (auto simp: select_winner_def find_None_iff SCHEDULER_ARM_PRIORITY_V1_def split: option.splits)

lemma select_winner_drain: "select_winner r = DrainReadyNodeCompletions \<longleftrightarrow> ready_node_completions r \<noteq> []"
  by (auto simp: select_winner_def SCHEDULER_ARM_PRIORITY_V1_def)

text \<open>
  C33: What a scheduler round does with completions and with nodes in flight, on every branch. The drained and the late completions
  together are the ready ones, each in the order of their nodes. A completion is late exactly when the absolute cutoff has been
  reached and the completion was ready only after it; so before the cutoff every ready completion is drained. Nodes are
  cancelled only when the cutoff has been reached and the round drains or cuts off, and then exactly the nodes in flight
  without a drained completion; a late completion is thus no protection for its node. Draining wins exactly when something is drained; a
  reached cutoff is not outranked by the arms after it; and the winner is always an arm that is ready.
\<close>

theorem arbitration_accounts_for_nodes:
  assumes "a = arbitrate_scheduler_v1 r facts"
  shows "mset (arb_ready a) + mset (post_cutoff_completions a) = mset (ready_node_completions r)
       \<and> sorted (map comp_node_id (arb_ready a)) \<and> sorted (map comp_node_id (post_cutoff_completions a))
       \<and> set (post_cutoff_completions a)
           = {x \<in> set (ready_node_completions r). absolute_cutoff_reached r \<and> absolute_cutoff_at_ms facts < ready_at_ms x}
       \<and> set (arb_ready a)
           = {x \<in> set (ready_node_completions r). \<not> absolute_cutoff_reached r \<or> ready_at_ms x \<le> absolute_cutoff_at_ms facts}
       \<and> set (nodes_to_cancel_after_winner a)
           = (if absolute_cutoff_reached r \<and> winner a \<in> {DrainReadyNodeCompletions, AbsoluteCutoff}
              then set (inflight_nodes facts) - comp_node_id ` set (arb_ready a) else {})
       \<and> (winner a = DrainReadyNodeCompletions \<longleftrightarrow> arb_ready a \<noteq> [])
       \<and> is_ready (winner a) r (arb_ready a \<noteq> [])
       \<and> (absolute_cutoff_reached r \<longrightarrow>
            winner a \<notin> {MechanicallyProvedImpossibility, DueNoProgressSnapshots, WaitForNodeActivityControlOrClock})"
proof -
  let ?in = "\<lambda>x. absolute_cutoff_reached r \<longrightarrow> ready_at_ms x \<le> absolute_cutoff_at_ms facts"
  let ?r = "r\<lparr>ready_node_completions := sort_key comp_node_id (filter ?in (ready_node_completions r))\<rparr>"
  have a: "winner a = select_winner ?r" "arb_ready a = ready_node_completions ?r"
    "post_cutoff_completions a = sort_key comp_node_id (filter (\<lambda>x. \<not> ?in x) (ready_node_completions r))"
    "nodes_to_cancel_after_winner a
       = sort (if absolute_cutoff_reached r \<and> (winner a = DrainReadyNodeCompletions \<or> winner a = AbsoluteCutoff)
         then filter (\<lambda>n. \<not> list_ex (\<lambda>x. comp_node_id x = n) (arb_ready a)) (inflight_nodes facts) else [])"
    using assms by (simp_all add: arbitrate_scheduler_v1_def Let_def)
  have "mset (arb_ready a) + mset (post_cutoff_completions a) = mset (ready_node_completions r)"
    by (simp add: a(2,3) multiset_partition [symmetric] del: not_imp)
  moreover have "sorted (map comp_node_id (arb_ready a))" "sorted (map comp_node_id (post_cutoff_completions a))"
    by (simp_all add: a(2,3))
  moreover have "set (post_cutoff_completions a)
      = {x \<in> set (ready_node_completions r). absolute_cutoff_reached r \<and> absolute_cutoff_at_ms facts < ready_at_ms x}"
    "set (arb_ready a)
      = {x \<in> set (ready_node_completions r). \<not> absolute_cutoff_reached r \<or> ready_at_ms x \<le> absolute_cutoff_at_ms facts}"
    by (auto simp: a(2,3))
  moreover have "set (nodes_to_cancel_after_winner a)
      = (if absolute_cutoff_reached r \<and> winner a \<in> {DrainReadyNodeCompletions, AbsoluteCutoff}
         then set (inflight_nodes facts) - comp_node_id ` set (arb_ready a) else {})"
    by (auto simp: a(4) list_ex_iff)
  moreover have "winner a = DrainReadyNodeCompletions \<longleftrightarrow> arb_ready a \<noteq> []"
    unfolding a(1,2) by (rule select_winner_drain)
  moreover have "is_ready (winner a) r (arb_ready a \<noteq> [])"
    using select_winner_ready [of ?r] unfolding a(1,2) by (cases "select_winner ?r") simp_all
  moreover have "winner a \<notin> {MechanicallyProvedImpossibility, DueNoProgressSnapshots, WaitForNodeActivityControlOrClock}"
    if "absolute_cutoff_reached r"
    using that by (simp add: a(1) select_winner_def SCHEDULER_ARM_PRIORITY_V1_def)
  ultimately show ?thesis by blast
qed

definition example_readiness :: SchedulerArbitrationReadinessV1 where
  "example_readiness = \<lparr>ready_node_completions = [\<lparr>comp_node_id = ''b'', ready_at_ms = 9\<rparr>, \<lparr>comp_node_id = ''a'', ready_at_ms = 5\<rparr>],
     durable_trigger_barrier_acknowledgements = False, workflow_or_external_cancellation = True, fixed_grace_expired = False,
     absolute_cutoff_reached = True, mechanical_impossibility_proved = False, no_progress_snapshot_due = True\<rparr>"

text \<open>One completion is in time and one is late: the first is drained, and the node of the second is cancelled.\<close>

theorem arbitration_accounts_for_nodes_witness:
  "set (arb_ready (arbitrate_scheduler_v1 example_readiness \<lparr>absolute_cutoff_at_ms = 7, inflight_nodes = [''b'', ''a'']\<rparr>))
     = {\<lparr>comp_node_id = ''a'', ready_at_ms = 5\<rparr>}
   \<and> set (nodes_to_cancel_after_winner
       (arbitrate_scheduler_v1 example_readiness \<lparr>absolute_cutoff_at_ms = 7, inflight_nodes = [''b'', ''a'']\<rparr>)) = {''b''}"
proof -
  let ?f = "\<lparr>absolute_cutoff_at_ms = 7, inflight_nodes = [''b'', ''a'']\<rparr>"
  let ?a = "arbitrate_scheduler_v1 example_readiness ?f"
  note w = arbitration_accounts_for_nodes [OF refl, of example_readiness ?f]
  have ready: "set (arb_ready ?a) = {\<lparr>comp_node_id = ''a'', ready_at_ms = 5\<rparr>}" using w by (auto simp: example_readiness_def)
  then have "winner ?a = DrainReadyNodeCompletions" using w by auto
  with w ready have "set (nodes_to_cancel_after_winner ?a) = {''b''}" by (auto simp: example_readiness_def)
  with ready show ?thesis by blast
qed

section \<open>The clean-up owner is used exactly once\<close>

text \<open>Dropping a settlement that was not resolved drops its guard.\<close>

definition drop_settlement :: "u64 \<Rightarrow> 'p WorkflowNodeCancellationSettlementV1 \<Rightarrow> u64" where
  "drop_settlement audit s = (case guard s of None \<Rightarrow> audit | Some g \<Rightarrow> drop_guard audit g)"

text \<open>
  C14: Settling a cancelled node uses its clean-up owner exactly once. The settlement never panics. If it
  resolves, no ownership violation is counted and the record is the settled clean-up with the given
  preservation, coherent and not pending, so the owner it names is the one observed. If it does not
  resolve, the settlement comes back unchanged with its owner, and dropping it then counts one violation
  exactly when there was an owner.
\<close>

theorem settlement_uses_owner_once:
  "\<exists>res. into_disposition audit (after_preservation (settlement_new obs elapsed deadline) p) = Some res
     \<and> (case res of
          Inr (rec, audit') \<Rightarrow> audit' = audit \<and> cleanup rec = settle_node_cleanup_v2 obs elapsed deadline
             \<and> preservation rec = p \<and> \<not> is_pending (cleanup rec) \<and> is_ok (validate_coherence rec)
        | Inl s \<Rightarrow> s = after_preservation (settlement_new obs elapsed deadline) p
             \<and> drop_settlement audit s = (if recovery_owner obs = None then audit else audit + 1))"
proof -
  let ?c = "settle_node_cleanup_v2 obs elapsed deadline"
  let ?s = "after_preservation (settlement_new obs elapsed deadline) p"
  have drop: "drop_settlement audit ?s = (if recovery_owner obs = None then audit else audit + 1)"
    by (cases "recovery_owner obs")
      (simp_all add: drop_settlement_def after_preservation_def settlement_new_def drop_guard_def SoleCleanupOwnerGuardV1_new_def)
  have owner: "recovery_owner obs = Some ow" if "?c = CleanupPartial d ow \<or> ?c = CleanupUnknown d (Some ow)" for d ow
    using that by (cases obs) (auto simp: settle_node_cleanup_v2_def late_observation_def Let_def split: if_splits)
  let ?rec = "\<lparr>cleanup_schema_version = NODE_CLEANUP_RECORD_SCHEMA_V2, cleanup = ?c, preservation = p, collateral = None\<rparr>"
  have s: "observation ?s = obs" "elapsed_after_cancellation_ms ?s = elapsed"
    "cleanup_deadline_after_cancellation_ms ?s = deadline" "typed_preservation ?s = p"
    "guard ?s = map_option SoleCleanupOwnerGuardV1_new (recovery_owner obs)"
    by (simp_all add: after_preservation_def settlement_new_def)
  show ?thesis
  proof (cases "is_pending ?c \<or> \<not> is_ok (validate_coherence ?rec)")
    case True
    then have "into_disposition audit ?s = Some (Inl ?s)" by (auto simp: into_disposition_def Let_def s)
    with drop show ?thesis by simp
  next
    case False
    have "into_disposition audit ?s = Some (Inr (?rec, audit))"
      using False owner
      by (cases ?c; cases "recovery_owner obs")
        (auto simp: into_disposition_def Let_def s transfer_guard_def settle_guard_def drop_guard_def SoleCleanupOwnerGuardV1_new_def
          split: option.splits)
    with False show ?thesis by simp
  qed
qed

end
