(* ===== verification/Session_Cwd.thy ===== *)
theory Session_Cwd
  imports Bridge_Errors
begin

text \<open>
  Working directories of a session (\<open>session_cwd.rs\<close>): the lexical normalisation of an absolute path
  and the component-wise test that one directory lies under another. A path is a byte string, split
  into its components as \<open>std::path\<close> does on Unix: repeated and trailing separators and single dots
  leave no component.
\<close>

section \<open>Paths\<close>

datatype Component = RootDir | ParentDir | Normal string

fun split_slash :: "string \<Rightarrow> string list" where
  "split_slash [] = [[]]"
| "split_slash (c # cs) =
     (if c = CHR ''/'' then [] # split_slash cs
      else case split_slash cs of [] \<Rightarrow> [[c]] | seg # segs \<Rightarrow> (c # seg) # segs)"

definition segment_component :: "string \<Rightarrow> Component option" where
  "segment_component seg =
     (if seg = [] \<or> seg = ''.'' then None else if seg = ''..'' then Some ParentDir else Some (Normal seg))"

definition components :: "string \<Rightarrow> Component list" where
  "components s =
     (if s \<noteq> [] \<and> hd s = CHR ''/'' then [RootDir] else []) @ List.map_filter segment_component (split_slash s)"

definition is_absolute :: "string \<Rightarrow> bool" where
  "is_absolute s \<longleftrightarrow> s \<noteq> [] \<and> hd s = CHR ''/''"

text \<open>A path buffer holds the normal components pushed behind the root.\<close>

fun print_path :: "string list \<Rightarrow> string" where
  "print_path [] = ''/''"
| "print_path [seg] = ''/'' @ seg"
| "print_path (seg # segs) = ''/'' @ seg @ print_path segs"

definition invalid_cwd :: BridgeError where "invalid_cwd = InvalidRequest ''a2a-bridge.cwd''"

text \<open>A parent component takes the last segment away; at the root it is refused.\<close>

fun fold_components :: "string list \<Rightarrow> Component list \<Rightarrow> BridgeError + string list" where
  "fold_components out [] = Inr out"
| "fold_components out (RootDir # cs) = fold_components out cs"
| "fold_components out (ParentDir # cs) =
     (if out = [] then Inl invalid_cwd else fold_components (butlast out) cs)"
| "fold_components out (Normal seg # cs) = fold_components (out @ [seg]) cs"

definition SessionCwd_parse :: "string \<Rightarrow> BridgeError + string" where
  "SessionCwd_parse s =
     (if s = [] \<or> CHR 0x00 \<in> set s then Inl invalid_cwd
      else if \<not> is_absolute s then Inl invalid_cwd
      else rbind (fold_components [] (components s)) (\<lambda>out. Inr (print_path out)))"

definition is_under :: "string \<Rightarrow> string \<Rightarrow> bool" where
  "is_under s root = starts_with (components root) (components s)"

section \<open>Printing and splitting\<close>

definition normal_segment :: "string \<Rightarrow> bool" where
  "normal_segment seg \<longleftrightarrow> seg \<noteq> [] \<and> seg \<noteq> ''.'' \<and> seg \<noteq> ''..'' \<and> CHR ''/'' \<notin> set seg"

lemma split_slash_nonempty [simp]: "split_slash s \<noteq> []"
  by (induction s) (auto split: list.splits)

lemma split_slash_subset: "seg \<in> set (split_slash s) \<Longrightarrow> set seg \<subseteq> set s"
proof (induction s arbitrary: seg)
  case (Cons c cs)
  show ?case
  proof (cases "split_slash cs")
    case (Cons x xs)
    with Cons.prems Cons.IH show ?thesis by (cases "c = CHR ''/''") fastforce+
  qed simp
qed simp

lemma split_slash_no_slash: "seg \<in> set (split_slash s) \<Longrightarrow> CHR ''/'' \<notin> set seg"
proof (induction s arbitrary: seg)
  case (Cons c cs)
  show ?case
  proof (cases "c = CHR ''/''")
    case False
    obtain x xs where x: "split_slash cs = x # xs" by (cases "split_slash cs") simp_all
    with Cons False show ?thesis by (auto simp: x)
  qed (use Cons in auto)
qed simp

lemma split_slash_append: "CHR ''/'' \<notin> set seg \<Longrightarrow> split_slash (seg @ CHR ''/'' # s) = seg # split_slash s"
  by (induction seg) auto

lemma split_slash_single: "CHR ''/'' \<notin> set seg \<Longrightarrow> split_slash seg = [seg]"
  by (induction seg) auto

lemma split_print:
  "list_all normal_segment segs \<Longrightarrow> List.map_filter segment_component (split_slash (print_path segs)) = map Normal segs"
proof (induction segs rule: print_path.induct)
  case 1
  show ?case by (simp add: segment_component_def List.map_filter_simps)
next
  case (2 seg)
  then show ?case
    by (simp add: normal_segment_def segment_component_def List.map_filter_simps split_slash_single)
next
  case (3 seg seg' segs)
  obtain t where t: "print_path (seg' # segs) = CHR ''/'' # t" by (cases segs) simp_all
  with 3 have "split_slash (seg @ print_path (seg' # segs)) = seg # split_slash t"
    by (simp add: normal_segment_def split_slash_append)
  moreover from 3 t have "List.map_filter segment_component (split_slash t) = map Normal (seg' # segs)"
    by (simp add: List.map_filter_simps) (simp add: segment_component_def)
  moreover have "segment_component seg = Some (Normal seg)" "segment_component [] = None"
    using 3(2) by (simp_all add: segment_component_def normal_segment_def)
  ultimately show ?case by (simp add: List.map_filter_simps)
qed

lemma print_path_absolute [simp]: "is_absolute (print_path segs)" "print_path segs \<noteq> []"
  by (cases segs rule: print_path.cases; simp add: is_absolute_def)+

lemma components_print: "list_all normal_segment segs \<Longrightarrow> components (print_path segs) = RootDir # map Normal segs"
  using print_path_absolute(1) [of segs] by (simp add: components_def split_print is_absolute_def)

lemma fold_normals: "fold_components out (map Normal segs) = Inr (out @ segs)"
  by (induction segs arbitrary: out) simp_all

lemma fold_components_all:
  assumes "fold_components out cs = Inr out'" and "list_all P out" and "\<And>seg. Normal seg \<in> set cs \<Longrightarrow> P seg"
  shows "list_all P out'"
  using assms
proof (induction out cs rule: fold_components.induct)
  case (3 out cs)
  then show ?case by (auto simp: list_all_iff dest: in_set_butlastD split: if_splits)
qed (auto simp: list_all_iff)

lemma components_normal: "Normal seg \<in> set (components s) \<Longrightarrow> normal_segment seg"
  using split_slash_no_slash [of seg s]
  by (auto simp: components_def segment_component_def normal_segment_def List.map_filter_def split: if_splits)

lemma SessionCwd_parse_Inr:
  assumes "SessionCwd_parse s = Inr p"
  obtains segs where "p = print_path segs" "list_all normal_segment segs" "fold_components [] (components s) = Inr segs"
proof -
  from assms obtain segs where segs: "fold_components [] (components s) = Inr segs" "p = print_path segs"
    by (auto simp: SessionCwd_parse_def rbind_Inr_iff split: if_splits)
  moreover have "list_all normal_segment segs"
    by (rule fold_components_all [OF segs(1)]) (auto intro: components_normal)
  ultimately show ?thesis using that by blast
qed

lemma components_subset: "Normal seg \<in> set (components s) \<Longrightarrow> set seg \<subseteq> set s"
  using split_slash_subset [of seg s]
  by (auto simp: components_def segment_component_def List.map_filter_def split: if_splits)

lemma set_print_path: "set (print_path segs) \<subseteq> insert (CHR ''/'') (\<Union> (set ` set segs))"
  by (induction segs rule: print_path.induct) auto

lemma print_path_parses:
  assumes "list_all normal_segment segs" and "list_all (\<lambda>seg. CHR 0x00 \<notin> set seg) segs"
  shows "SessionCwd_parse (print_path segs) = Inr (print_path segs)"
proof -
  have "CHR 0x00 \<notin> set (print_path segs)" using set_print_path [of segs] assms(2) by (auto simp: list_all_iff)
  then show ?thesis
    by (simp add: SessionCwd_parse_def components_print [OF assms(1)] fold_normals)
qed

text \<open>
  C40: The parser of a working directory returns a normal form: an absolute path that is the printed list
  of its segments, none of them empty, a dot or a parent, which the parser returns unchanged when it
  parses it again.
\<close>

theorem parsed_cwd_normal:
  assumes "SessionCwd_parse s = Inr p"
  shows "SessionCwd_parse p = Inr p \<and> is_absolute p
       \<and> (\<exists>segs. p = print_path segs \<and> list_all normal_segment segs \<and> components p = RootDir # map Normal segs)"
  using assms
proof (rule SessionCwd_parse_Inr, goal_cases)
  case (1 segs)
  have "CHR 0x00 \<notin> set s" using assms by (auto simp: SessionCwd_parse_def split: if_splits)
  then have "list_all (\<lambda>seg. CHR 0x00 \<notin> set seg) segs"
    using components_subset [of _ s] by (intro fold_components_all [OF 1(3)]) auto
  with print_path_parses [OF 1(2)] components_print [OF 1(2)] 1 show ?case by auto
qed

theorem parsed_cwd_normal_witness:
  "SessionCwd_parse ''/a//./b/../c/'' = Inr ''/a/c'' \<and> SessionCwd_parse ''/a/c'' = Inr ''/a/c''"
proof -
  have "SessionCwd_parse ''/a//./b/../c/'' = Inr ''/a/c''" by code_simp
  with parsed_cwd_normal [OF this] show ?thesis by simp
qed

text \<open>
  The containment test on parsed directories is component-wise: one directory is under another
  exactly when its segments continue the other's, so a sibling whose name merely starts with the name
  of the root is not under it, and every directory is under the file-system root and under itself.
\<close>

theorem is_under_iff_segments:
  assumes "list_all normal_segment a" and "list_all normal_segment b"
  shows "is_under (print_path a) (print_path b) \<longleftrightarrow> (\<exists>rest. a = b @ rest)"
proof -
  have "starts_with (map Normal b) (map Normal a) \<longleftrightarrow> starts_with b a"
    by (induction b a rule: strip_prefix.induct) (simp_all add: starts_with_def)
  moreover have "starts_with b a \<longleftrightarrow> (\<exists>rest. a = b @ rest)"
    unfolding starts_with_def not_None_eq strip_prefix_Some_iff by simp
  ultimately show ?thesis
    using assms by (simp add: is_under_def components_print starts_with_def)
qed

theorem is_under_iff_segments_witness:
  "\<not> is_under ''/work-evil'' ''/work'' \<and> is_under ''/work/repo'' ''/work''"
  using is_under_iff_segments [of "[''work-evil'']" "[''work'']"] is_under_iff_segments [of "[''work'', ''repo'']" "[''work'']"]
  by (simp add: normal_segment_def)

end
