(* ===== verification/Checkout.thy ===== *)
theory Checkout
  imports Byte_Encoding Session_Cwd
begin

text \<open>
  Frozen checkouts (\<open>execution_policy.rs\<close>): the set of a node's dependencies as a count and a digest, and
  the derivation of the directory and the digest of a worktree checkout from the attempt, the node, the
  logical session and the configured root. SHA-256 is the parameter \<open>sha\<close>.
\<close>

section \<open>Dependency sets\<close>

fun adjacent_ordinals :: "PolicyNodeRefV1 list \<Rightarrow> bool" where
  "adjacent_ordinals (x # y # zs) \<longleftrightarrow> sorted_ordinal x = sorted_ordinal y \<or> adjacent_ordinals (y # zs)"
| "adjacent_ordinals _ \<longleftrightarrow> False"

definition node_ref_bytes :: "PolicyNodeRefV1 \<Rightarrow> u8 list" where
  "node_ref_bytes r = be_bytes 4 (unat (sorted_ordinal r)) @ str_bytes (id_sha256 r)"

definition canonical_refs :: "PolicyNodeRefV1 list \<Rightarrow> u8 list" where
  "canonical_refs refs = be_bytes 4 (length refs) @ concat (map node_ref_bytes refs)"

definition from_node_refs ::
  "(u8 list \<Rightarrow> u8 list) \<Rightarrow> PolicyNodeRefV1 list \<Rightarrow> ExecutionPolicyError + DependencySetRefV1" where
  "from_node_refs sha refs =
     (let refs = sort_key (\<lambda>r. (sorted_ordinal r, id_sha256 r)) refs in
      if adjacent_ordinals refs then Inl InvalidStructuredEvidence
      else if 2 ^ 32 \<le> length refs then Inl ArithmeticOverflow
      else Inr \<lparr>dependency_count = of_nat (length refs),
                sorted_node_refs_sha256 = Sha256HexV1_digest sha (canonical_refs refs)\<rparr>)"

section \<open>Checkouts\<close>

definition MAX_WORKTREE_OWNER_BYTES :: nat where "MAX_WORKTREE_OWNER_BYTES = 64"
definition CHECKOUT_EFFECT_SCHEMA_V1 :: u16 where "CHECKOUT_EFFECT_SCHEMA_V1 = 1"

datatype FrozenProviderLogicalSessionV1 = Preflight u16 | Execute u16

fun session_tag :: "FrozenProviderLogicalSessionV1 \<Rightarrow> string \<times> u16" where
  "session_tag (Preflight n) = (''preflight'', n)"
| "session_tag (Execute n) = (''execute'', n)"

fun effective_cwd :: "FrozenCheckoutEffectV1 \<Rightarrow> string" where
  "effective_cwd (Direct src eff) = eff"
| "effective_cwd (Worktree src csrc root ow tgt digest) = tgt"

fun checkout_source_cwd :: "FrozenCheckoutEffectV1 \<Rightarrow> string" where
  "checkout_source_cwd (Direct src eff) = src"
| "checkout_source_cwd (Worktree src csrc root ow tgt digest) = src"

record WorktreeCheckoutInputV1 =
  in_attempt_id :: string
  in_node :: PolicyNodeRefV1
  in_logical_session :: FrozenProviderLogicalSessionV1
  in_source_cwd :: string
  in_canonical_source_cwd :: string
  in_canonical_worktree_root :: string
  in_worktree_owner :: string

definition checkout_preimage :: "WorktreeCheckoutInputV1 \<Rightarrow> u8 list" where
  "checkout_preimage i =
     (let bytes = push_bytes [] (str_bytes ''a2a-bridge/frozen-worktree-target/v1'');
          bytes = bytes @ be_bytes 2 (unat CHECKOUT_EFFECT_SCHEMA_V1);
          bytes = push_bytes bytes (str_bytes (in_attempt_id i));
          bytes = bytes @ be_bytes 4 (unat (sorted_ordinal (in_node i)));
          bytes = push_bytes bytes (str_bytes (id_sha256 (in_node i)));
          (kind, candidate_ordinal) = session_tag (in_logical_session i);
          bytes = push_bytes bytes (str_bytes kind);
          bytes = bytes @ be_bytes 2 (unat candidate_ordinal);
          bytes = push_bytes bytes (str_bytes (in_source_cwd i));
          bytes = push_bytes bytes (str_bytes (in_canonical_source_cwd i));
          bytes = push_bytes bytes (str_bytes (in_canonical_worktree_root i))
      in push_bytes bytes (str_bytes (in_worktree_owner i)))"

text \<open>\<open>Path::join\<close>: an absolute path replaces, another one is put behind a separator.\<close>

definition path_join :: "string \<Rightarrow> string \<Rightarrow> string" where
  "path_join p q =
     (if is_absolute q then q else if p = [] \<or> last p = CHR ''/'' then p @ q else p @ ''/'' @ q)"

definition owner_byte :: "char \<Rightarrow> bool" where
  "owner_byte b \<longleftrightarrow> is_ascii_lowercase b \<or> is_digit b \<or> b = CHR ''-'' \<or> b = CHR ''_''"

definition target_name :: "(u8 list \<Rightarrow> u8 list) \<Rightarrow> WorktreeCheckoutInputV1 \<Rightarrow> string" where
  "target_name sha i =
     in_worktree_owner i @ ''-r2f1a-'' @ take 32 (Sha256HexV1_digest sha (checkout_preimage i))"

definition freeze_worktree_checkout_v1 ::
  "(u8 list \<Rightarrow> u8 list) \<Rightarrow> WorktreeCheckoutInputV1 \<Rightarrow> ExecutionPolicyError + FrozenCheckoutEffectV1" where
  "freeze_worktree_checkout_v1 sha i =
     (if in_worktree_owner i = [] \<or> MAX_WORKTREE_OWNER_BYTES < length (in_worktree_owner i)
          \<or> \<not> list_all owner_byte (in_worktree_owner i)
      then Inl InvalidWorktreeOwner
      else case SessionCwd_parse (path_join (in_canonical_worktree_root i) (target_name sha i)) of
        Inl _ \<Rightarrow> Inl WorktreeTargetOutsideRoot
      | Inr target \<Rightarrow>
          if \<not> is_under target (in_canonical_worktree_root i) then Inl WorktreeTargetOutsideRoot
          else Inr (Worktree (in_source_cwd i) (in_canonical_source_cwd i) (in_canonical_worktree_root i)
                 (in_worktree_owner i) target
                 (Sha256HexV1_digest sha (push_bytes (checkout_preimage i) (str_bytes target)))))"

definition freeze_direct_checkout_v1 :: "string \<Rightarrow> FrozenCheckoutEffectV1" where
  "freeze_direct_checkout_v1 src = Direct src src"

section \<open>The digest identifies the dependency set\<close>

abbreviation ref_key :: "PolicyNodeRefV1 \<Rightarrow> u32 \<times> string" where
  "ref_key r \<equiv> (sorted_ordinal r, id_sha256 r)"

lemma ref_key_inj: "inj ref_key"
  by (rule injI) simp

lemma sort_refs_eq_iff: "sort_key ref_key xs = sort_key ref_key ys \<longleftrightarrow> mset xs = mset ys"
proof
  assume eq: "mset xs = mset ys"
  have sorted: "map ref_key (sort_key ref_key zs) = sort (map ref_key zs)" for zs
    by (rule properties_for_sort [symmetric]) (simp_all only: mset_map mset_sort sorted_sort_key)
  have "sort (map ref_key xs) = sort (map ref_key ys)"
    by (rule properties_for_sort) (simp_all only: eq mset_map mset_sort sorted_sort)
  then have "map ref_key (sort_key ref_key xs) = map ref_key (sort_key ref_key ys)" by (simp only: sorted)
  then show "sort_key ref_key xs = sort_key ref_key ys" unfolding inj_map_eq_map [OF ref_key_inj] .
next
  assume "sort_key ref_key xs = sort_key ref_key ys"
  then have "mset (sort_key ref_key xs) = mset (sort_key ref_key ys)" by (rule arg_cong)
  then show "mset xs = mset ys" by (simp only: mset_sort)
qed

lemma adjacent_ordinals_sorted:
  "sorted (map ref_key xs) \<Longrightarrow> adjacent_ordinals xs \<longleftrightarrow> \<not> distinct (map sorted_ordinal xs)"
proof (induction xs rule: adjacent_ordinals.induct)
  case (1 x y zs)
  then have "sorted_ordinal y \<le> sorted_ordinal z" if "z \<in> set zs" for z
    using that by (fastforce simp: less_eq_prod_def)
  moreover from 1 have "sorted_ordinal x \<le> sorted_ordinal y" by (auto simp: less_eq_prod_def)
  ultimately have "sorted_ordinal x \<noteq> sorted_ordinal y \<Longrightarrow> sorted_ordinal x \<notin> sorted_ordinal ` set zs" by force
  with 1 show ?case by auto
qed simp_all

lemma from_node_refs_cases:
  "from_node_refs sha refs =
     (if \<not> distinct (map sorted_ordinal refs) then Inl InvalidStructuredEvidence
      else if 2 ^ 32 \<le> length refs then Inl ArithmeticOverflow
      else Inr \<lparr>dependency_count = of_nat (length refs),
                sorted_node_refs_sha256 = Sha256HexV1_digest sha (canonical_refs (sort_key ref_key refs))\<rparr>)"
proof -
  have "distinct (map sorted_ordinal (sort_key ref_key refs)) \<longleftrightarrow> distinct (map sorted_ordinal refs)"
    by (rule mset_eq_imp_distinct_iff) (simp add: mset_map)
  then show ?thesis by (simp add: from_node_refs_def Let_def adjacent_ordinals_sorted)
qed

interpretation ref_code: framed_code node_ref_bytes "\<lambda>r. length (id_sha256 r) = 64"
  by unfold_locales (simp add: node_ref_bytes_def str_bytes_inject)

text \<open>
  A dependency set is frozen without regard to the order of its references, and two sets that are accepted get the same
  reference exactly when they have the same members, unless SHA-256 collides on the two encodings. A
  set is refused exactly when two references have the same ordinal, or there are 2 to the 32 of them.
\<close>

theorem dependency_set_identifies:
  assumes "list_all (\<lambda>r. length (id_sha256 r) = 64) (xs @ ys)"
    and "inj_on sha {canonical_refs (sort_key ref_key xs), canonical_refs (sort_key ref_key ys)}"
  shows "(is_ok (from_node_refs sha xs) \<longleftrightarrow> distinct (map sorted_ordinal xs) \<and> length xs < 2 ^ 32)
    \<and> (mset xs = mset ys \<longrightarrow> from_node_refs sha xs = from_node_refs sha ys)
    \<and> (is_ok (from_node_refs sha xs) \<and> from_node_refs sha xs = from_node_refs sha ys \<longrightarrow> mset xs = mset ys)"
proof (intro conjI impI)
  show "is_ok (from_node_refs sha xs) \<longleftrightarrow> distinct (map sorted_ordinal xs) \<and> length xs < 2 ^ 32"
    by (simp add: from_node_refs_cases not_le)
next
  assume "mset xs = mset ys"
  then have "sort_key ref_key xs = sort_key ref_key ys" by (rule sort_refs_eq_iff [THEN iffD2])
  then show "from_node_refs sha xs = from_node_refs sha ys" by (simp only: from_node_refs_def)
next
  assume ok: "is_ok (from_node_refs sha xs) \<and> from_node_refs sha xs = from_node_refs sha ys"
  from ok have bounds: "length xs < 2 ^ 32" "length ys < 2 ^ 32"
    and "sha (canonical_refs (sort_key ref_key xs)) = sha (canonical_refs (sort_key ref_key ys))"
    by (simp_all add: from_node_refs_cases digest_inject not_le split: if_splits)
  then have "canonical_refs (sort_key ref_key xs) = canonical_refs (sort_key ref_key ys)"
    using inj_on_eq_iff [OF assms(2)] by blast
  with bounds have "length xs = length ys"
    and "concat (map node_ref_bytes (sort_key ref_key xs)) = concat (map node_ref_bytes (sort_key ref_key ys))"
    by (simp_all add: canonical_refs_def be_bytes_eq_iff)
  with assms(1) have "sort_key ref_key xs = sort_key ref_key ys"
    using ref_code.sized_split [of "sort_key ref_key xs" "sort_key ref_key ys" "[]" "[]"] by (simp add: list_all_iff)
  then show "mset xs = mset ys" by (simp add: sort_refs_eq_iff)
qed

theorem dependency_set_identifies_witness:
  "from_node_refs (\<lambda>bs. bs) [\<lparr>sorted_ordinal = 1, id_sha256 = replicate 64 (CHR ''a'')\<rparr>, \<lparr>sorted_ordinal = 0, id_sha256 = replicate 64 (CHR ''b'')\<rparr>]
   = from_node_refs (\<lambda>bs. bs) [\<lparr>sorted_ordinal = 0, id_sha256 = replicate 64 (CHR ''b'')\<rparr>, \<lparr>sorted_ordinal = 1, id_sha256 = replicate 64 (CHR ''a'')\<rparr>]"
  using dependency_set_identifies [of
      "[\<lparr>sorted_ordinal = 1, id_sha256 = replicate 64 (CHR ''a'')\<rparr>, \<lparr>sorted_ordinal = 0, id_sha256 = replicate 64 (CHR ''b'')\<rparr>]"
      "[\<lparr>sorted_ordinal = 0, id_sha256 = replicate 64 (CHR ''b'')\<rparr>, \<lparr>sorted_ordinal = 1, id_sha256 = replicate 64 (CHR ''a'')\<rparr>]"
      "\<lambda>bs. bs"]
  by simp

section \<open>The target lies directly under the root\<close>

lemma owner_byte_plain: "owner_byte c \<Longrightarrow> c \<noteq> CHR ''/'' \<and> c \<noteq> CHR 0x00 \<and> c \<noteq> CHR ''.''"
  by (auto simp: owner_byte_def is_ascii_lowercase_def is_digit_def)

lemma lower_hex_plain: "is_lower_hex c \<Longrightarrow> c \<noteq> CHR ''/'' \<and> c \<noteq> CHR 0x00"
  by (auto simp: is_lower_hex_def is_digit_def)

lemma target_name_segment:
  assumes "list_all owner_byte (in_worktree_owner i)" and "in_worktree_owner i \<noteq> []"
  shows "normal_segment (target_name sha i) \<and> CHR 0x00 \<notin> set (target_name sha i)"
proof -
  have plain: "c \<noteq> CHR ''/'' \<and> c \<noteq> CHR 0x00" if "c \<in> set (target_name sha i)" for c
  proof -
    from that consider "c \<in> set (in_worktree_owner i)" | "c \<in> set ''-r2f1a-''"
      | "c \<in> set (hex_bytes (sha (checkout_preimage i)))"
      by (auto simp: target_name_def Sha256HexV1_digest_def dest: in_set_takeD)
    then show ?thesis
      using assms(1) owner_byte_plain lower_hex_plain hex_bytes_lower
      by cases (auto simp: list_all_iff)
  qed
  obtain c cs where "in_worktree_owner i = c # cs" "owner_byte c"
    using assms by (cases "in_worktree_owner i") auto
  then have "target_name sha i \<noteq> []" "hd (target_name sha i) \<noteq> CHR ''.''"
    using owner_byte_plain [of c] by (auto simp: target_name_def)
  then have "normal_segment (target_name sha i)"
    using plain [of "CHR ''/''"] by (auto simp: normal_segment_def)
  with plain [of "CHR 0x00"] show ?thesis by blast
qed

lemma print_path_snoc: "list_all normal_segment segs \<Longrightarrow> normal_segment seg \<Longrightarrow>
   path_join (print_path segs) seg = print_path (segs @ [seg])"
proof (induction segs rule: print_path.induct)
  case 1
  then show ?case by (cases seg) (auto simp: path_join_def is_absolute_def normal_segment_def)
next
  case (2 s)
  then have "last s \<in> set s" "CHR ''/'' \<notin> set s" by (simp_all add: normal_segment_def)
  then have "last s \<noteq> CHR ''/''" by metis
  with 2 show ?case by (cases seg) (auto simp: path_join_def is_absolute_def normal_segment_def)
next
  case (3 s s' segs)
  have "print_path (s' # segs) \<noteq> []" by simp
  moreover from 3 have "\<not> is_absolute seg" by (cases seg) (auto simp: is_absolute_def normal_segment_def)
  ultimately show ?case using 3 by (simp add: path_join_def split: if_splits)
qed

lemma parsed_segments:
  assumes "SessionCwd_parse s = Inr p"
  obtains segs where "p = print_path segs" "list_all normal_segment segs" "list_all (\<lambda>seg. CHR 0x00 \<notin> set seg) segs"
  using assms
proof (rule SessionCwd_parse_Inr, goal_cases)
  case (1 segs)
  have "CHR 0x00 \<notin> set s" using assms by (auto simp: SessionCwd_parse_def split: if_splits)
  then have "list_all (\<lambda>seg. CHR 0x00 \<notin> set seg) segs"
    using components_subset [of _ s] by (intro fold_components_all [OF 1(4)]) auto
  with 1 show ?case by blast
qed

lemma is_under_snoc:
  assumes "list_all normal_segment segs" and "normal_segment seg"
  shows "is_under (print_path (segs @ [seg])) (print_path segs)"
  using assms by (simp add: is_under_def components_print starts_with_def)

definition owner_ok :: "string \<Rightarrow> bool" where
  "owner_ok ow \<longleftrightarrow> ow \<noteq> [] \<and> length ow \<le> 64 \<and> list_all owner_byte ow"

lemma freeze_worktree_bad: "\<not> owner_ok (in_worktree_owner i) \<Longrightarrow> freeze_worktree_checkout_v1 sha i = Inl InvalidWorktreeOwner"
  by (auto simp: freeze_worktree_checkout_v1_def MAX_WORKTREE_OWNER_BYTES_def owner_ok_def)

lemma freeze_worktree_ok:
  assumes "SessionCwd_parse r = Inr (in_canonical_worktree_root i)" and "owner_ok (in_worktree_owner i)"
  obtains segs where "in_canonical_worktree_root i = print_path segs"
    and "SessionCwd_parse (print_path (segs @ [target_name sha i])) = Inr (print_path (segs @ [target_name sha i]))"
    and "is_under (print_path (segs @ [target_name sha i])) (in_canonical_worktree_root i)"
    and "freeze_worktree_checkout_v1 sha i = Inr (Worktree (in_source_cwd i) (in_canonical_source_cwd i)
      (in_canonical_worktree_root i) (in_worktree_owner i) (print_path (segs @ [target_name sha i]))
      (Sha256HexV1_digest sha (push_bytes (checkout_preimage i) (str_bytes (print_path (segs @ [target_name sha i]))))))"
proof -
  have seg: "normal_segment (target_name sha i)" "CHR 0x00 \<notin> set (target_name sha i)"
    using target_name_segment [of i sha] assms(2) by (auto simp: owner_ok_def)
  from assms(1) show ?thesis
  proof (rule parsed_segments, goal_cases)
    case (1 segs)
    let ?t = "print_path (segs @ [target_name sha i])"
    have p: "path_join (in_canonical_worktree_root i) (target_name sha i) = ?t"
      using 1 seg by (simp add: print_path_snoc)
    have "SessionCwd_parse ?t = Inr ?t" using 1 seg by (simp add: print_path_parses)
    moreover have "is_under ?t (in_canonical_worktree_root i)" using 1 seg(1) by (simp add: is_under_snoc)
    ultimately show ?case
      using that [of segs] assms(2) 1(1) p
      by (simp add: freeze_worktree_checkout_v1_def MAX_WORKTREE_OWNER_BYTES_def owner_ok_def)
  qed
qed

text \<open>
  C38: Freezing a worktree checkout fails only for an owner that is empty, longer than 64 bytes or not of
  lower-case letters, digits, dashes and underscores. Otherwise the target is one new segment directly below the
  configured root, a normal path that parses to itself, so the two checks that would refuse a target
  outside the root never fire. The root is a parsed directory.
\<close>

theorem frozen_target_under_root:
  assumes "SessionCwd_parse r = Inr (in_canonical_worktree_root i)"
  shows "case freeze_worktree_checkout_v1 sha i of
     Inl e \<Rightarrow> e = InvalidWorktreeOwner \<and> \<not> owner_ok (in_worktree_owner i)
   | Inr c \<Rightarrow> owner_ok (in_worktree_owner i)
       \<and> checkout_source_cwd c = in_source_cwd i
       \<and> is_under (effective_cwd c) (in_canonical_worktree_root i)
       \<and> SessionCwd_parse (effective_cwd c) = Inr (effective_cwd c)
       \<and> (\<exists>segs. in_canonical_worktree_root i = print_path segs \<and> effective_cwd c = print_path (segs @ [target_name sha i]))"
proof (cases "owner_ok (in_worktree_owner i)")
  case False
  then show ?thesis by (simp add: freeze_worktree_bad)
next
  case True
  from assms True show ?thesis
  proof (rule freeze_worktree_ok [of r i sha], goal_cases)
    case (1 segs)
    with True show ?case by auto
  qed
qed

definition example_checkout :: WorktreeCheckoutInputV1 where
  "example_checkout =
     \<lparr>in_attempt_id = ''attempt-1'', in_node = \<lparr>sorted_ordinal = 2, id_sha256 = ''ab''\<rparr>,
      in_logical_session = Execute 0, in_source_cwd = ''/src'', in_canonical_source_cwd = ''/src'',
      in_canonical_worktree_root = ''/work/trees'', in_worktree_owner = ''team-a''\<rparr>"

lemma example_root: "SessionCwd_parse ''/work/trees'' = Inr (in_canonical_worktree_root example_checkout)"
  by code_simp

theorem frozen_target_under_root_witness:
  "\<exists>c. freeze_worktree_checkout_v1 (\<lambda>_. replicate 32 7) example_checkout = Inr c
     \<and> is_under (effective_cwd c) ''/work/trees''"
proof -
  have "in_worktree_owner example_checkout = ''team-a''" "in_canonical_worktree_root example_checkout = ''/work/trees''"
    by (simp_all add: example_checkout_def)
  with frozen_target_under_root [OF example_root, of "\<lambda>_. replicate 32 7"] show ?thesis
    by (cases "freeze_worktree_checkout_v1 (\<lambda>_. replicate 32 7) example_checkout")
      (auto simp: owner_ok_def owner_byte_def is_ascii_lowercase_def)
qed

section \<open>The digest identifies the checkout\<close>

definition checkout_fits :: "WorktreeCheckoutInputV1 \<Rightarrow> bool" where
  "checkout_fits i \<longleftrightarrow> short (in_attempt_id i) \<and> short (id_sha256 (in_node i)) \<and> short (in_source_cwd i)
     \<and> short (in_canonical_source_cwd i) \<and> short (in_canonical_worktree_root i) \<and> short (in_worktree_owner i)"

lemma session_tag_inject: "session_tag a = session_tag b \<longleftrightarrow> a = b"
  by (cases a; cases b) simp_all

lemma session_tag_short: "short (fst (session_tag a))"
  by (cases a) (simp_all add: short_def)

lemma checkout_preimage_enc:
  "checkout_preimage i =
     enc_str ''a2a-bridge/frozen-worktree-target/v1'' @ be_bytes 2 (unat CHECKOUT_EFFECT_SCHEMA_V1)
     @ enc_str (in_attempt_id i) @ be_bytes 4 (unat (sorted_ordinal (in_node i))) @ enc_str (id_sha256 (in_node i))
     @ enc_str (fst (session_tag (in_logical_session i))) @ be_bytes 2 (unat (snd (session_tag (in_logical_session i))))
     @ enc_str (in_source_cwd i) @ enc_str (in_canonical_source_cwd i) @ enc_str (in_canonical_worktree_root i)
     @ enc_str (in_worktree_owner i)"
  by (simp add: checkout_preimage_def Let_def push_bytes_enc enc_str_def case_prod_unfold)

lemma checkout_preimage_append_iff:
  assumes "checkout_fits i" and "checkout_fits j"
  shows "checkout_preimage i @ s = checkout_preimage j @ t \<longleftrightarrow> i = j \<and> s = t"
proof -
  have "i = j \<longleftrightarrow> in_attempt_id i = in_attempt_id j \<and> sorted_ordinal (in_node i) = sorted_ordinal (in_node j)
      \<and> id_sha256 (in_node i) = id_sha256 (in_node j) \<and> session_tag (in_logical_session i) = session_tag (in_logical_session j)
      \<and> in_source_cwd i = in_source_cwd j \<and> in_canonical_source_cwd i = in_canonical_source_cwd j
      \<and> in_canonical_worktree_root i = in_canonical_worktree_root j \<and> in_worktree_owner i = in_worktree_owner j"
    unfolding session_tag_inject by (cases i; cases j; cases "in_node i"; cases "in_node j") auto
  then show ?thesis
    using assms unfolding checkout_preimage_enc append_assoc same_append_eq checkout_fits_def
    by (auto simp: str_code.enc_append_iff session_tag_short prod_eq_iff)
qed

text \<open>
  The digest of a frozen worktree checkout identifies it: two successful freezes have the same digest
  exactly when their attempt, node, logical session, directories and owner all agree, unless SHA-256
  collides on the two committed texts. No field can be moved into its neighbour.
\<close>

theorem checkout_digest_identifies:
  assumes "freeze_worktree_checkout_v1 sha i = Inr (Worktree src csrc root ow tgt d)"
    and "freeze_worktree_checkout_v1 sha j = Inr (Worktree src' csrc' root' ow' tgt' d')"
    and "checkout_fits i" and "checkout_fits j"
    and "inj_on sha {push_bytes (checkout_preimage i) (str_bytes tgt), push_bytes (checkout_preimage j) (str_bytes tgt')}"
  shows "d = d' \<longleftrightarrow> i = j"
proof -
  have d: "d = Sha256HexV1_digest sha (push_bytes (checkout_preimage i) (str_bytes tgt))"
    "d' = Sha256HexV1_digest sha (push_bytes (checkout_preimage j) (str_bytes tgt'))"
    using assms(1,2) by (auto simp: freeze_worktree_checkout_v1_def split: if_splits sum.splits)
  have "d = d' \<longleftrightarrow> push_bytes (checkout_preimage i) (str_bytes tgt) = push_bytes (checkout_preimage j) (str_bytes tgt')"
    unfolding d digest_inject using inj_on_eq_iff [OF assms(5)] by simp
  also have "\<dots> \<longleftrightarrow> i = j \<and> enc_bytes (str_bytes tgt) = enc_bytes (str_bytes tgt')"
    unfolding push_bytes_enc by (rule checkout_preimage_append_iff [OF assms(3,4)])
  also have "\<dots> \<longleftrightarrow> i = j" using assms(1,2) by auto
  finally show ?thesis .
qed

theorem checkout_digest_identifies_witness:
  "checkout_digest (projr (freeze_worktree_checkout_v1 (\<lambda>bs. bs) example_checkout)) \<noteq>
   checkout_digest (projr (freeze_worktree_checkout_v1 (\<lambda>bs. bs) (example_checkout\<lparr>in_attempt_id := ''attempt-2''\<rparr>)))"
proof -
  let ?i = example_checkout and ?j = "example_checkout\<lparr>in_attempt_id := ''attempt-2''\<rparr>"
  have ow: "owner_ok (in_worktree_owner ?i)" "owner_ok (in_worktree_owner ?j)"
    by (simp_all add: example_checkout_def owner_ok_def owner_byte_def is_ascii_lowercase_def)
  have root: "SessionCwd_parse ''/work/trees'' = Inr (in_canonical_worktree_root ?j)"
    using example_root by simp
  have fits: "checkout_fits ?i" "checkout_fits ?j" by (simp_all add: checkout_fits_def example_checkout_def short_def)
  have "?i \<noteq> ?j" by (simp add: example_checkout_def)
  obtain src csrc rt o' t d where i: "freeze_worktree_checkout_v1 (\<lambda>bs. bs) ?i = Inr (Worktree src csrc rt o' t d)"
    by (rule freeze_worktree_ok [OF example_root ow(1), of "\<lambda>bs. bs"])
  obtain src' csrc' rt' o'' t' d' where j: "freeze_worktree_checkout_v1 (\<lambda>bs. bs) ?j = Inr (Worktree src' csrc' rt' o'' t' d')"
    by (rule freeze_worktree_ok [OF root ow(2), of "\<lambda>bs. bs"])
  from checkout_digest_identifies [OF i j fits] \<open>?i \<noteq> ?j\<close> have "d \<noteq> d'" by (simp add: inj_on_def)
  then show ?thesis unfolding i j by simp
qed

end
