(* ===== verification/Provider_Effects.thy ===== *)
theory Provider_Effects
  imports Checkout Agent_Config
begin

text \<open>
  Frozen provider effects (\<open>execution_policy.rs\<close>, from \<open>ProviderEffectKeyV1\<close> to
  \<open>validate_node_execution_identity_v1\<close>): the selection, the MCP delivery, the provider effect and the matrix
  of attempts of a node, each with the digest that commits to it. SHA-256 and HMAC are the parameters
  \<open>sha\<close> and \<open>hmac\<close>, the pretty-printer of \<open>serde_json\<close> is \<open>pretty\<close>. The canonical bytes are built by pushes,
  as in the source; each is shown to be a framed code, from which the injectivity of the digests follows.
\<close>

section \<open>Keys and digests\<close>

text \<open>A key is its 32 bytes.\<close>

definition key_mac :: "(u8 list \<Rightarrow> u8 list \<Rightarrow> u8 list) \<Rightarrow> u8 list \<Rightarrow> u8 list \<Rightarrow> u8 list \<Rightarrow> string" where
  "key_mac hmac key domain v = hex_bytes (hmac key (push_bytes (push_bytes [] domain) v))"

definition key_id :: "(u8 list \<Rightarrow> u8 list \<Rightarrow> u8 list) \<Rightarrow> u8 list \<Rightarrow> string" where
  "key_id hmac key = key_mac hmac key (str_bytes ''a2a-bridge/provider-effect-key-id/v1'') []"

definition secret_silent_digest ::
  "(u8 list \<Rightarrow> u8 list) \<Rightarrow> (u8 list \<Rightarrow> u8 list \<Rightarrow> u8 list) \<Rightarrow> u8 list option \<Rightarrow> bool \<Rightarrow> string \<Rightarrow> u8 list
     \<Rightarrow> ExecutionPolicyError + string" where
  "secret_silent_digest sha hmac key secret_bearing domain v =
     (if secret_bearing then
        (case key of None \<Rightarrow> Inl MissingProviderEffectKey | Some k \<Rightarrow> Inr (key_mac hmac k (str_bytes domain) v))
      else Inr (Sha256HexV1_digest sha (push_bytes (push_bytes [] (str_bytes domain)) v)))"

section \<open>Selection\<close>

record FrozenProviderSelectionV1 =
  selection_agent :: string
  selection_preflight :: bool
  effective_model :: "string option"
  ordered_fallback_models :: "string list"
  effective_effort :: "Effort option"
  effective_mode :: "string option"
  selection_digest :: string

definition candidates :: "FrozenProviderSelectionV1 \<Rightarrow> string option list" where
  "candidates s = effective_model s # (if selection_preflight s then map Some (ordered_fallback_models s) else [])"

fun effort_token :: "Effort \<Rightarrow> string" where
  "effort_token Minimal = ''minimal''"
| "effort_token Low = ''low''"
| "effort_token Medium = ''medium''"
| "effort_token High = ''high''"
| "effort_token Xhigh = ''xhigh''"
| "effort_token Max = ''max''"

definition push_strings :: "u8 list \<Rightarrow> string list \<Rightarrow> u8 list" where
  "push_strings target xs = foldl (\<lambda>t x. push_bytes t (str_bytes x)) (target @ be_bytes 8 (length xs)) xs"

definition selection_canonical :: "AgentEntry \<Rightarrow> EffectiveConfig \<Rightarrow> u8 list" where
  "selection_canonical entry eff =
     (let c = push_bytes [] (str_bytes ''a2a-bridge/provider-selection/v1'');
          c = push_bytes c (str_bytes (entry_id entry));
          c = push_bool c (entry_preflight entry);
          c = push_option c (model eff);
          c = push_strings c (entry_fallback_models entry);
          c = push_option c (map_option effort_token (effort eff))
      in push_option c (mode eff))"

definition freeze_selection ::
  "(u8 list \<Rightarrow> u8 list) \<Rightarrow> AgentEntry \<Rightarrow> AgentOverride option \<Rightarrow> FrozenProviderSelectionV1" where
  "freeze_selection sha entry ov =
     (let eff = effective_config entry ov in
      \<lparr>selection_agent = entry_id entry, selection_preflight = entry_preflight entry, effective_model = model eff,
       ordered_fallback_models = entry_fallback_models entry, effective_effort = effort eff,
       effective_mode = mode eff, selection_digest = Sha256HexV1_digest sha (selection_canonical entry eff)\<rparr>)"

section \<open>Delivery\<close>

definition push_env :: "u8 list \<Rightarrow> string \<times> McpEnvValueSourceV1 \<Rightarrow> u8 list" where
  "push_env target e =
     (let t = push_bytes target (str_bytes (fst e));
          t = push_bytes t (str_bytes (source_kind (snd e)));
          t = push_option t (source_name (snd e))
      in push_bytes t (str_bytes (resolved_value (snd e))))"

definition push_server :: "u8 list \<Rightarrow> McpServerSpec \<Rightarrow> u8 list" where
  "push_server target s =
     (let t = push_bytes target (str_bytes (server_name s));
          t = push_bytes t (str_bytes (server_command s));
          t = push_strings t (server_args s)
      in foldl push_env (t @ be_bytes 8 (length (server_env s))) (server_env s))"

definition encode_servers :: "McpServerSpec list \<Rightarrow> u8 list" where
  "encode_servers servers = foldl push_server (be_bytes 8 (length servers)) servers"

datatype BoundMcpDeliveryPayloadV1 =
  PayloadAcp "McpServerSpec list" | PayloadCodexNative "string list" | PayloadKiroNative string string

record BoundMcpDeliveryV1 =
  payload :: BoundMcpDeliveryPayloadV1
  delivery_digest :: string

fun delivered_bytes :: "BoundMcpDeliveryPayloadV1 \<Rightarrow> u8 list" where
  "delivered_bytes (PayloadAcp servers) = push_bytes (push_bytes [] (str_bytes ''acp'')) (encode_servers servers)"
| "delivered_bytes (PayloadCodexNative cargs) = push_strings (push_bytes [] (str_bytes ''codex_native'')) cargs"
| "delivered_bytes (PayloadKiroNative aname js) =
     push_bytes (push_bytes (push_bytes [] (str_bytes ''kiro_native'')) (str_bytes aname)) (str_bytes js)"

definition secret_bearing_entry :: "AgentEntry \<Rightarrow> bool" where
  "secret_bearing_entry entry = list_ex (\<lambda>s. server_env s \<noteq> []) (entry_mcp entry)"

definition delivery_payload ::
  "(u8 list \<Rightarrow> u8 list) \<Rightarrow> (u8 list \<Rightarrow> u8 list \<Rightarrow> u8 list) \<Rightarrow> (json_value \<Rightarrow> string option) \<Rightarrow> AgentEntry \<Rightarrow> string
     \<Rightarrow> u8 list option \<Rightarrow> ExecutionPolicyError + BoundMcpDeliveryPayloadV1" where
  "delivery_payload sha hmac pretty entry cwd key =
     (let delivered = map (\<lambda>s. substituted_for_managed_agent s cwd) (entry_mcp entry) in
      case entry_mcp_delivery entry of
        DeliverAcp \<Rightarrow> Inr (PayloadAcp delivered)
      | CodexNative \<Rightarrow> Inr (PayloadCodexNative (render_codex_mcp_args (entry_mcp entry) cwd))
      | KiroNative \<Rightarrow>
          rbind (secret_silent_digest sha hmac key (secret_bearing_entry entry) ''a2a-bridge/kiro-mcp-content/v1''
              (encode_servers delivered)) (\<lambda>content_key.
            let aname = ''a2a-mcp-v2-'' @ content_key
            in Inr (PayloadKiroNative aname (render_kiro_agent_config pretty (entry_mcp entry) cwd aname))))"

text \<open>
  The result is the delivery, whether it bears secrets, the identity of the key that committed to them
  and the digest of the configured servers. A missing key is refused before the key is used.
\<close>

definition freeze_delivery ::
  "(u8 list \<Rightarrow> u8 list) \<Rightarrow> (u8 list \<Rightarrow> u8 list \<Rightarrow> u8 list) \<Rightarrow> (json_value \<Rightarrow> string option) \<Rightarrow> AgentEntry \<Rightarrow> string
     \<Rightarrow> u8 list option \<Rightarrow> ExecutionPolicyError + BoundMcpDeliveryV1 \<times> bool \<times> string option \<times> string" where
  "freeze_delivery sha hmac pretty entry cwd key =
     (let secret = secret_bearing_entry entry in
      if secret \<and> key = None then Inl MissingProviderEffectKey
      else rbind (secret_silent_digest sha hmac key secret ''a2a-bridge/mcp-source/v1'' (encode_servers (entry_mcp entry)))
        (\<lambda>source_digest.
      rbind (delivery_payload sha hmac pretty entry cwd key) (\<lambda>pl.
      rbind (secret_silent_digest sha hmac key secret ''a2a-bridge/mcp-delivery/v1'' (delivered_bytes pl)) (\<lambda>digest.
        Inr (\<lparr>payload = pl, delivery_digest = digest\<rparr>, secret,
             (if secret then map_option (key_id hmac) key else None), source_digest)))))"

section \<open>Effects\<close>

fun agent_kind_token :: "AgentKind \<Rightarrow> string" where
  "agent_kind_token KindAcp = ''acp''"
| "agent_kind_token KindApi = ''api''"
| "agent_kind_token KindContainerRw = ''container_rw''"

fun mount_token :: "MountAccess \<Rightarrow> string" where
  "mount_token Ro = ''ro''"
| "mount_token Rw = ''rw''"

fun encode_egress :: "u8 list \<Rightarrow> EgressPolicy \<Rightarrow> u8 list" where
  "encode_egress target (Locked nw px np) =
     push_option (push_bytes (push_bytes (push_bytes target (str_bytes ''locked'')) (str_bytes nw)) (str_bytes px)) np"
| "encode_egress target OpenEgress = push_bytes target (str_bytes ''open'')"

definition encode_sandbox :: "u8 list \<Rightarrow> SandboxConfig option \<Rightarrow> u8 list" where
  "encode_sandbox target sandbox =
     (case sandbox of None \<Rightarrow> target @ [0]
      | Some s \<Rightarrow>
          let t = push_option (target @ [1]) (sandbox_runtime s);
              t = push_bytes t (str_bytes (sandbox_image s));
              t = push_bytes t (str_bytes (sandbox_mount s));
              t = push_bytes t (str_bytes (mount_token (sandbox_access s)));
              t = encode_egress t (sandbox_egress s)
          in push_strings t (sandbox_volumes s))"

fun encode_checkout :: "u8 list \<Rightarrow> FrozenCheckoutEffectV1 \<Rightarrow> u8 list" where
  "encode_checkout target (Direct src eff) =
     push_bytes (push_bytes (push_bytes target (str_bytes ''direct'')) (str_bytes src)) (str_bytes eff)"
| "encode_checkout target (Worktree src csrc root ow tgt digest) =
     push_bytes (push_bytes (push_bytes (push_bytes (push_bytes (push_bytes (push_bytes target
       (str_bytes ''worktree'')) (str_bytes src)) (str_bytes csrc)) (str_bytes root)) (str_bytes ow)) (str_bytes tgt))
       (str_bytes digest)"

fun encode_liveness_override :: "u8 list \<Rightarrow> LivenessOverrideV1 option \<Rightarrow> u8 list" where
  "encode_liveness_override target None = target @ [0]"
| "encode_liveness_override target (Some Off) = target @ [1]"
| "encode_liveness_override target (Some (Ms ms)) = (target @ [2]) @ be_bytes 8 (unat ms)"

fun mcp_delivery_token :: "McpDelivery \<Rightarrow> string" where
  "mcp_delivery_token DeliverAcp = ''acp''"
| "mcp_delivery_token CodexNative = ''codex_native''"
| "mcp_delivery_token KiroNative = ''kiro_native''"

text \<open>\<open>Duration::as_millis\<close>, written as an integer of 16 bytes.\<close>

definition as_millis :: "nat \<Rightarrow> nat" where
  "as_millis nanos = nanos div 1000000"

definition push_watchdog :: "u8 list \<Rightarrow> WatchdogConfig option \<Rightarrow> u8 list" where
  "push_watchdog target wd =
     (case wd of Some w \<Rightarrow> ((target @ [1]) @ be_bytes 16 (as_millis (idle_timeout w))) @ be_bytes 16 (as_millis (hard_wall_clock w))
      | None \<Rightarrow> target @ [0])"

definition effect_canonical :: "AgentEntry \<Rightarrow> FrozenCheckoutEffectV1 \<Rightarrow> string \<Rightarrow> string \<Rightarrow> u8 list" where
  "effect_canonical entry checkout digest source_digest =
     (let c = push_bytes [] (str_bytes ''a2a-bridge/provider-effect/v1'');
          c = push_bytes c (str_bytes (entry_id entry));
          c = push_bytes c (str_bytes (agent_kind_token (entry_kind entry)));
          c = push_option c (entry_cmd entry);
          c = push_option c (entry_base_url entry);
          c = push_option c (entry_api_key_env entry);
          c = push_strings c (entry_args entry);
          c = push_option c (entry_cwd entry);
          c = push_option c (entry_session_cwd entry);
          c = encode_sandbox c (entry_sandbox entry);
          c = push_watchdog c (entry_watchdog entry);
          c = push_option c (entry_auth_method entry);
          c = push_bool c (entry_pre_authenticated entry);
          c = encode_checkout c checkout;
          c = push_bytes c (str_bytes (effective_cwd checkout));
          c = push_bytes c (str_bytes (mcp_delivery_token (entry_mcp_delivery entry)));
          c = push_bytes c (str_bytes source_digest);
          c = push_bytes c (str_bytes digest);
          c = (if entry_rename_new_sessions entry then push_bytes c (str_bytes ''rename_new_sessions'') else c)
      in case entry_liveness entry of
           Some l \<Rightarrow> encode_liveness_override (encode_liveness_override
               (push_bytes c (str_bytes ''liveness'')) (agent_silence_cutoff l)) (agent_work_cutoff l)
         | None \<Rightarrow> c)"

record FrozenProviderEffectV1 =
  effect_agent :: string
  effective_session_cwd :: string
  mcp_delivery_digest :: string
  effect_digest :: string
  secret_commitment_key_id :: "string option"

definition freeze_effect ::
  "(u8 list \<Rightarrow> u8 list) \<Rightarrow> (u8 list \<Rightarrow> u8 list \<Rightarrow> u8 list) \<Rightarrow> AgentEntry \<Rightarrow> FrozenCheckoutEffectV1 \<Rightarrow> string \<Rightarrow> string
     \<Rightarrow> bool \<Rightarrow> u8 list option \<Rightarrow> ExecutionPolicyError + FrozenProviderEffectV1" where
  "freeze_effect sha hmac entry checkout digest source_digest secret_bearing key =
     rbind (secret_silent_digest sha hmac key secret_bearing ''a2a-bridge/provider-effect-final/v1''
         (effect_canonical entry checkout digest source_digest)) (\<lambda>d.
       Inr \<lparr>effect_agent = entry_id entry, effective_session_cwd = effective_cwd checkout,
            mcp_delivery_digest = digest, effect_digest = d,
            secret_commitment_key_id = (if secret_bearing then map_option (key_id hmac) key else None)\<rparr>)"

section \<open>Attempts\<close>

record FrozenProviderAttemptIdentityV1 =
  logical_session :: FrozenProviderLogicalSessionV1
  checkout_effect :: FrozenCheckoutEffectV1
  provider_effect :: FrozenProviderEffectV1
  attempt_fingerprint :: string

record BoundWorktreeCustodyV1 =
  custody_attempt :: AttemptIdentity
  origin_attempt_id :: string
  custody_node :: PolicyNodeRefV1
  custody_plan :: FrozenWorktreeCustodyPlanV1

record BoundProviderEffectV1 =
  bound_frozen :: FrozenProviderAttemptIdentityV1
  bound_delivery :: BoundMcpDeliveryV1
  bound_custody :: "BoundWorktreeCustodyV1 option"

record FrozenProviderAttemptBundleV1 =
  bundle_selection :: FrozenProviderSelectionV1
  bundle_frozen :: FrozenProviderAttemptIdentityV1
  bundle_bound :: BoundProviderEffectV1

record ProviderFreezeInputV1 =
  freeze_entry :: AgentEntry
  freeze_overrides :: "AgentOverride option"
  freeze_node :: PolicyNodeRefV1
  freeze_logical_session :: FrozenProviderLogicalSessionV1
  freeze_checkout :: FrozenCheckoutEffectV1
  provider_effect_key :: "u8 list option"

definition bind_custody_plan ::
  "BoundProviderEffectV1 \<Rightarrow> BoundWorktreeCustodyV1 \<Rightarrow> CustodyPlanBindingRefusalV1 + BoundProviderEffectV1" where
  "bind_custody_plan b custody =
     (case checkout_effect (bound_frozen b) of
        Direct _ _ \<Rightarrow> Inl NotAWorktreeCheckout
      | Worktree _ _ _ _ tgt digest \<Rightarrow>
          if checkout_fingerprint (custody_plan custody) \<noteq> digest then Inl CheckoutDigestMismatch
          else if target_cwd (custody_plan custody) \<noteq> tgt then Inl TargetMismatch
          else if ordinal (custody_attempt custody) = 0
                  \<and> origin_attempt_id custody \<noteq> attempt_id (custody_attempt custody) then Inl AttemptMismatch
          else Inr (b\<lparr>bound_custody := Some custody\<rparr>))"

definition attempt_canonical ::
  "PolicyNodeRefV1 \<Rightarrow> FrozenProviderLogicalSessionV1 \<Rightarrow> FrozenCheckoutEffectV1 \<Rightarrow> FrozenProviderEffectV1
     \<Rightarrow> FrozenProviderSelectionV1 \<Rightarrow> u8 list" where
  "attempt_canonical node session checkout effect selection =
     (let c = push_bytes [] (str_bytes ''a2a-bridge/provider-attempt/v1'');
          c = c @ be_bytes 4 (unat (sorted_ordinal node));
          c = push_bytes c (str_bytes (id_sha256 node));
          (kind, n) = session_tag session;
          c = push_bytes c (str_bytes kind);
          c = c @ be_bytes 2 (unat n);
          c = encode_checkout c checkout;
          c = push_bytes c (str_bytes (effect_digest effect))
      in push_bytes c (str_bytes (selection_digest selection)))"

fun candidate_ordinal :: "FrozenProviderLogicalSessionV1 \<Rightarrow> u16" where
  "candidate_ordinal (Preflight n) = n"
| "candidate_ordinal (Execute n) = n"

fun is_preflight :: "FrozenProviderLogicalSessionV1 \<Rightarrow> bool" where
  "is_preflight (Preflight n) = True"
| "is_preflight (Execute n) = False"

definition freeze_provider_attempt_v1 ::
  "(u8 list \<Rightarrow> u8 list) \<Rightarrow> (u8 list \<Rightarrow> u8 list \<Rightarrow> u8 list) \<Rightarrow> (json_value \<Rightarrow> string option) \<Rightarrow> ProviderFreezeInputV1
     \<Rightarrow> ExecutionPolicyError + FrozenProviderAttemptBundleV1" where
  "freeze_provider_attempt_v1 sha hmac pretty i =
     (let entry = freeze_entry i; checkout = freeze_checkout i; key = provider_effect_key i;
          selection = freeze_selection sha entry (freeze_overrides i) in
      if is_preflight (freeze_logical_session i) \<and> \<not> selection_preflight selection then Inl ProviderSelectionOutOfSet
      else if length (candidates selection) \<le> unat (candidate_ordinal (freeze_logical_session i))
      then Inl ProviderSelectionOutOfSet
      else rbind (freeze_delivery sha hmac pretty entry (effective_cwd checkout) key)
        (\<lambda>(delivery, secret_bearing, key_ident, source_digest).
      rbind (freeze_effect sha hmac entry checkout (delivery_digest delivery) source_digest secret_bearing key) (\<lambda>effect.
        let frozen = \<lparr>logical_session = freeze_logical_session i, checkout_effect = checkout, provider_effect = effect,
              attempt_fingerprint = Sha256HexV1_digest sha
                (attempt_canonical (freeze_node i) (freeze_logical_session i) checkout effect selection)\<rparr>
        in Inr \<lparr>bundle_selection = selection, bundle_frozen = frozen,
             bundle_bound = \<lparr>bound_frozen = frozen, bound_delivery = delivery, bound_custody = None\<rparr>\<rparr>)))"

section \<open>The matrix of a node\<close>

record FrozenNodeExecutionIdentityV1 =
  identity_node :: PolicyNodeRefV1
  identity_selection :: FrozenProviderSelectionV1
  provider_attempts :: "FrozenProviderAttemptIdentityV1 list"
  identity_fingerprint :: string

text \<open>The ordinals of the loop; one that is no 16-bit integer is refused. Lengths of vectors do not overflow when doubled.\<close>

fun sessions_from :: "nat list \<Rightarrow> ExecutionPolicyError + FrozenProviderLogicalSessionV1 list" where
  "sessions_from [] = Inr []"
| "sessions_from (n # ns) =
     (if 2 ^ 16 \<le> n then Inl ProviderAttemptMatrixInvalid
      else rbind (sessions_from ns) (\<lambda>rest. Inr (Preflight (of_nat n) # Execute (of_nat n) # rest)))"

definition expected_logical_sessions ::
  "FrozenProviderSelectionV1 \<Rightarrow> ExecutionPolicyError + FrozenProviderLogicalSessionV1 list" where
  "expected_logical_sessions s =
     (if \<not> selection_preflight s then Inr [Execute 0] else sessions_from [0..<length (candidates s)])"

definition node_identity_canonical ::
  "PolicyNodeRefV1 \<Rightarrow> FrozenProviderSelectionV1 \<Rightarrow> FrozenProviderAttemptIdentityV1 list \<Rightarrow> u8 list" where
  "node_identity_canonical node selection atts =
     (let c = push_bytes [] (str_bytes ''a2a-bridge/node-execution-identity/v1'');
          c = c @ be_bytes 4 (unat (sorted_ordinal node));
          c = push_bytes c (str_bytes (id_sha256 node));
          c = push_bytes c (str_bytes (selection_digest selection))
      in push_strings c (map attempt_fingerprint atts))"

definition attempt_matches :: "FrozenProviderSelectionV1 \<Rightarrow> FrozenProviderAttemptIdentityV1 \<Rightarrow> FrozenProviderLogicalSessionV1 \<Rightarrow> bool" where
  "attempt_matches selection a session \<longleftrightarrow>
     logical_session a = session \<and> effect_agent (provider_effect a) = selection_agent selection
     \<and> effective_session_cwd (provider_effect a) = effective_cwd (checkout_effect a)"

definition validate_provider_attempt_matrix ::
  "FrozenProviderSelectionV1 \<Rightarrow> FrozenProviderAttemptIdentityV1 list \<Rightarrow> ExecutionPolicyError + unit" where
  "validate_provider_attempt_matrix selection atts =
     rbind (expected_logical_sessions selection) (\<lambda>expected.
       if length atts \<noteq> length expected then Inl ProviderAttemptMatrixInvalid
       else if list_all (\<lambda>(a, session). attempt_matches selection a session) (zip atts expected) then Inr ()
       else Inl ProviderAttemptMatrixInvalid)"

definition freeze_node_execution_identity_v1 ::
  "(u8 list \<Rightarrow> u8 list) \<Rightarrow> PolicyNodeRefV1 \<Rightarrow> FrozenProviderAttemptBundleV1 list
     \<Rightarrow> ExecutionPolicyError + FrozenNodeExecutionIdentityV1" where
  "freeze_node_execution_identity_v1 sha node bundles =
     (case bundles of [] \<Rightarrow> Inl ProviderAttemptMatrixInvalid
      | b # _ \<Rightarrow>
          let selection = bundle_selection b in
          if list_ex (\<lambda>b. bundle_selection b \<noteq> selection \<or> bundle_frozen b \<noteq> bound_frozen (bundle_bound b)
               \<or> mcp_delivery_digest (provider_effect (bundle_frozen b)) \<noteq> delivery_digest (bound_delivery (bundle_bound b))) bundles
          then Inl ProviderAttemptMatrixInvalid
          else let atts = map bundle_frozen bundles in
            rbind (validate_provider_attempt_matrix selection atts) (\<lambda>_.
              Inr \<lparr>identity_node = node, identity_selection = selection, provider_attempts = atts,
                   identity_fingerprint = Sha256HexV1_digest sha (node_identity_canonical node selection atts)\<rparr>))"

definition validate_node_execution_identity_v1 ::
  "(u8 list \<Rightarrow> u8 list) \<Rightarrow> FrozenNodeExecutionIdentityV1 \<Rightarrow> ExecutionPolicyError + unit" where
  "validate_node_execution_identity_v1 sha i =
     rbind (validate_provider_attempt_matrix (identity_selection i) (provider_attempts i)) (\<lambda>_.
       if identity_fingerprint i \<noteq> Sha256HexV1_digest sha
            (node_identity_canonical (identity_node i) (identity_selection i) (provider_attempts i))
       then Inl ProviderAttemptMatrixInvalid else Inr ())"

section \<open>Binding a custody plan\<close>

text \<open>
  The plan that the contract selects for a checkout is the plan that binds to it: after a selection only
  the attempt rule is left to refuse, and a binding that succeeds changes nothing but the custody.
\<close>

lemma selected_plan_binds:
  assumes "select_custody_plan_v1 contract (checkout_effect (bound_frozen b)) = Inr (Some p)" and "custody_plan custody = p"
  shows "bind_custody_plan b custody =
     (if ordinal (custody_attempt custody) = 0 \<and> origin_attempt_id custody \<noteq> attempt_id (custody_attempt custody)
      then Inl AttemptMismatch else Inr (b\<lparr>bound_custody := Some custody\<rparr>))"
  using assms
  by (cases "checkout_effect (bound_frozen b)")
    (auto simp: bind_custody_plan_def find_Some_iff split: option.splits if_splits)

section \<open>The pushes as encoders\<close>

lemma push_str_enc: "push_bytes t (str_bytes x) = t @ enc_str x"
  by (simp add: push_bytes_enc enc_str_def)

lemma push_strings_enc: "push_strings t xs = t @ enc_list enc_str xs"
  unfolding push_strings_def enc_list_def by (subst foldl_push [where e = enc_str]) (simp_all add: push_str_enc)

definition enc_egress :: "EgressPolicy \<Rightarrow> u8 list" where
  "enc_egress e = encode_egress [] e"

definition enc_sandbox :: "SandboxConfig \<Rightarrow> u8 list" where
  "enc_sandbox s = enc_option enc_str (sandbox_runtime s) @ enc_str (sandbox_image s) @ enc_str (sandbox_mount s)
     @ enc_str (mount_token (sandbox_access s)) @ enc_egress (sandbox_egress s) @ enc_list enc_str (sandbox_volumes s)"

definition enc_checkout :: "FrozenCheckoutEffectV1 \<Rightarrow> u8 list" where
  "enc_checkout c = encode_checkout [] c"

fun enc_liveness :: "LivenessOverrideV1 option \<Rightarrow> u8 list" where
  "enc_liveness None = [0]"
| "enc_liveness (Some Off) = [1]"
| "enc_liveness (Some (Ms ms)) = 2 # be_bytes 8 (unat ms)"

definition enc_watchdog :: "nat \<times> nat \<Rightarrow> u8 list" where
  "enc_watchdog w = be_bytes 16 (fst w) @ be_bytes 16 (snd w)"

definition watchdog_millis :: "WatchdogConfig \<Rightarrow> nat \<times> nat" where
  "watchdog_millis w = (as_millis (idle_timeout w), as_millis (hard_wall_clock w))"

lemma encode_egress_enc: "encode_egress t e = t @ enc_egress e"
  by (cases e) (simp_all add: enc_egress_def push_str_enc push_option_enc)

lemma encode_sandbox_enc: "encode_sandbox t s = t @ enc_option enc_sandbox s"
  by (cases s)
    (simp_all add: encode_sandbox_def enc_option_def enc_sandbox_def Let_def push_str_enc push_option_enc
      push_strings_enc encode_egress_enc)

lemma encode_checkout_enc: "encode_checkout t c = t @ enc_checkout c"
  by (cases c) (simp_all add: enc_checkout_def push_str_enc)

lemma encode_liveness_enc: "encode_liveness_override t v = t @ enc_liveness v"
  by (cases v rule: enc_liveness.cases) simp_all

lemma push_watchdog_enc: "push_watchdog t w = t @ enc_option enc_watchdog (map_option watchdog_millis w)"
  by (cases w) (simp_all add: push_watchdog_def enc_option_def enc_watchdog_def watchdog_millis_def)

lemmas push_encs = push_str_enc push_option_enc push_strings_enc encode_egress_enc encode_sandbox_enc
  encode_checkout_enc encode_liveness_enc push_watchdog_enc

section \<open>Every part is a framed code\<close>

abbreviation short_list :: "string list \<Rightarrow> bool" where
  "short_list xs \<equiv> short xs \<and> list_all short xs"

fun egress_fits :: "EgressPolicy \<Rightarrow> bool" where
  "egress_fits (Locked nw px np) \<longleftrightarrow> short nw \<and> short px \<and> short_option np"
| "egress_fits OpenEgress \<longleftrightarrow> True"

definition sandbox_fits :: "SandboxConfig \<Rightarrow> bool" where
  "sandbox_fits s \<longleftrightarrow> short_option (sandbox_runtime s) \<and> short (sandbox_image s) \<and> short (sandbox_mount s)
     \<and> egress_fits (sandbox_egress s) \<and> short_list (sandbox_volumes s)"

fun checkout_effect_fits :: "FrozenCheckoutEffectV1 \<Rightarrow> bool" where
  "checkout_effect_fits (Direct src eff) \<longleftrightarrow> short src \<and> short eff"
| "checkout_effect_fits (Worktree src csrc root ow tgt digest) \<longleftrightarrow>
     short src \<and> short csrc \<and> short root \<and> short ow \<and> short tgt \<and> short digest"

lemma short_tokens [simp]:
  "short ''locked''" "short ''open''" "short ''direct''" "short ''worktree''" "short ''ro''" "short ''rw''"
  "short ''acp''" "short ''api''" "short ''container_rw''" "short ''codex_native''" "short ''kiro_native''"
  "short ''rename_new_sessions''" "short ''liveness''"
  by (simp_all add: short_def)

lemma str_code_heads:
  "enc_str ''locked'' @ s \<noteq> enc_str ''open'' @ t" "enc_str ''open'' @ s \<noteq> enc_str ''locked'' @ t"
  "enc_str ''direct'' @ s \<noteq> enc_str ''worktree'' @ t" "enc_str ''worktree'' @ s \<noteq> enc_str ''direct'' @ t"
  by (simp_all add: str_code.enc_append_iff)

interpretation egress_code: framed_code enc_egress egress_fits
proof
  fix x y s t
  assume "egress_fits x" "egress_fits y" "enc_egress x @ s = enc_egress y @ t"
  then show "x = y \<and> s = t"
    by (cases x; cases y)
      (simp_all add: enc_egress_def push_str_enc push_option_enc str_code.enc_append_iff option_code.enc_append_iff str_code_heads)
qed

lemma mount_token_inject: "mount_token a = mount_token b \<longleftrightarrow> a = b" "short (mount_token a)"
  by (cases a; cases b; simp)+

interpretation sandbox_code: framed_code enc_sandbox sandbox_fits
proof
  fix x y :: SandboxConfig and s t
  assume "sandbox_fits x" "sandbox_fits y" "enc_sandbox x @ s = enc_sandbox y @ t"
  then show "x = y \<and> s = t"
    by (simp add: enc_sandbox_def sandbox_fits_def str_code.enc_append_iff option_code.enc_append_iff
        egress_code.enc_append_iff strings_code.enc_append_iff mount_token_inject)
qed

interpretation checkout_code: framed_code enc_checkout checkout_effect_fits
proof
  fix x y s t
  assume "checkout_effect_fits x" "checkout_effect_fits y" "enc_checkout x @ s = enc_checkout y @ t"
  then show "x = y \<and> s = t"
    by (cases x; cases y) (simp_all add: enc_checkout_def push_str_enc str_code.enc_append_iff str_code_heads)
qed

interpretation liveness_code: framed_code enc_liveness "\<lambda>_. True"
proof
  fix x y s t
  assume "enc_liveness x @ s = enc_liveness y @ t"
  then show "x = y \<and> s = t"
    by (cases x rule: enc_liveness.cases; cases y rule: enc_liveness.cases) auto
qed

interpretation watchdog_code: framed_code enc_watchdog "\<lambda>w. fst w < 2 ^ 128 \<and> snd w < 2 ^ 128"
proof
  fix x y s t
  assume "fst x < 2 ^ 128 \<and> snd x < 2 ^ 128" "fst y < 2 ^ 128 \<and> snd y < 2 ^ 128"
    and "enc_watchdog x @ s = enc_watchdog y @ t"
  then show "x = y \<and> s = t" by (auto simp: enc_watchdog_def be_bytes_eq_iff prod_eq_iff)
qed

interpretation sandbox_option_code: framed_code "enc_option enc_sandbox" "pred_option sandbox_fits"
  by (rule framed_option) (rule sandbox_code.framed_code_axioms)

interpretation watchdog_option_code:
  framed_code "enc_option enc_watchdog" "pred_option (\<lambda>w. fst w < 2 ^ 128 \<and> snd w < 2 ^ 128)"
  by (rule framed_option) (rule watchdog_code.framed_code_axioms)

section \<open>The effect digest\<close>

definition effect_tail :: "bool \<Rightarrow> AgentLivenessConfig option \<Rightarrow> u8 list" where
  "effect_tail rename liv =
     (if rename then enc_str ''rename_new_sessions'' else [])
     @ (case liv of None \<Rightarrow> []
        | Some l \<Rightarrow> enc_str ''liveness'' @ enc_liveness (agent_silence_cutoff l) @ enc_liveness (agent_work_cutoff l))"

lemma enc_str_nonempty [simp]: "enc_str x \<noteq> []"
proof -
  have "length (enc_str x) = 8 + length x" by (simp add: enc_str_def enc_bytes_def)
  then show ?thesis by auto
qed

lemma effect_tail_inject: "effect_tail r l = effect_tail r' l' \<longleftrightarrow> r = r' \<and> l = l'"
proof -
  have pair: "enc_liveness a @ enc_liveness b = enc_liveness a' @ enc_liveness b' \<longleftrightarrow> a = a' \<and> b = b'" for a b a' b'
    by (simp add: liveness_code.enc_append_iff liveness_code.enc_inject del: enc_liveness.simps)
  have heads: "enc_str ''rename_new_sessions'' @ s \<noteq> enc_str ''liveness'' @ t"
    "enc_str ''liveness'' @ s \<noteq> enc_str ''rename_new_sessions'' @ t"
    "enc_str ''rename_new_sessions'' \<noteq> enc_str ''liveness'' @ t"
    "enc_str ''liveness'' @ s \<noteq> enc_str ''rename_new_sessions''" for s t
    using str_code.enc_append_iff [of "''rename_new_sessions''" "''liveness''" s t]
      str_code.enc_append_iff [of "''liveness''" "''rename_new_sessions''" s t]
      str_code.enc_append_iff [of "''rename_new_sessions''" "''liveness''" "[]" t]
      str_code.enc_append_iff [of "''liveness''" "''rename_new_sessions''" s "[]"] by simp_all
  have eq: "x = y \<longleftrightarrow> agent_silence_cutoff x = agent_silence_cutoff y \<and> agent_work_cutoff x = agent_work_cutoff y"
    for x y :: AgentLivenessConfig by (cases x; cases y) simp
  show ?thesis
    by (cases r; cases r'; cases l; cases l') (auto simp: effect_tail_def heads pair eq enc_str_nonempty [symmetric] simp del: enc_liveness.simps)
qed

text \<open>What the digest of an effect commits to.\<close>

definition effect_commitment where
  "effect_commitment e c digest source_digest =
     ((entry_id e, entry_kind e, entry_cmd e, entry_base_url e, entry_api_key_env e, entry_args e),
      (entry_cwd e, entry_session_cwd e, entry_sandbox e, map_option watchdog_millis (entry_watchdog e),
       entry_auth_method e, entry_pre_authenticated e),
      (c, entry_mcp_delivery e, source_digest :: string, digest :: string, entry_rename_new_sessions e, entry_liveness e))"

definition effect_fits :: "AgentEntry \<Rightarrow> FrozenCheckoutEffectV1 \<Rightarrow> string \<Rightarrow> string \<Rightarrow> bool" where
  "effect_fits e c digest source_digest \<longleftrightarrow>
     short (entry_id e) \<and> short_option (entry_cmd e) \<and> short_option (entry_base_url e) \<and> short_option (entry_api_key_env e)
     \<and> short_list (entry_args e) \<and> short_option (entry_cwd e) \<and> short_option (entry_session_cwd e)
     \<and> pred_option sandbox_fits (entry_sandbox e)
     \<and> pred_option (\<lambda>w. fst w < 2 ^ 128 \<and> snd w < 2 ^ 128) (map_option watchdog_millis (entry_watchdog e))
     \<and> short_option (entry_auth_method e) \<and> checkout_effect_fits c \<and> short digest \<and> short source_digest"

lemma kind_token_inject: "agent_kind_token a = agent_kind_token b \<longleftrightarrow> a = b" "short (agent_kind_token a)"
  by (cases a; cases b; simp) (cases a; simp)

lemma delivery_token_inject: "mcp_delivery_token a = mcp_delivery_token b \<longleftrightarrow> a = b" "short (mcp_delivery_token a)"
  by (cases a; cases b; simp) (cases a; simp)

lemma checkout_effect_fits_cwd: "checkout_effect_fits c \<Longrightarrow> short (effective_cwd c)"
  by (cases c) simp_all

lemma checkout_cwd_append_iff:
  assumes "checkout_effect_fits c" and "checkout_effect_fits c'"
  shows "enc_checkout c @ enc_str (effective_cwd c) @ s = enc_checkout c' @ enc_str (effective_cwd c') @ t \<longleftrightarrow> c = c' \<and> s = t"
  using assms by (auto simp: checkout_code.enc_append_iff str_code.enc_append_iff checkout_effect_fits_cwd)

lemma bool_byte_inject: "(if a then 1 else 0 :: u8) = (if b then 1 else 0) \<longleftrightarrow> a = b"
  by simp

lemma effect_canonical_enc:
  "effect_canonical e c digest source_digest =
     enc_str ''a2a-bridge/provider-effect/v1'' @ enc_str (entry_id e) @ enc_str (agent_kind_token (entry_kind e))
     @ enc_option enc_str (entry_cmd e) @ enc_option enc_str (entry_base_url e) @ enc_option enc_str (entry_api_key_env e)
     @ enc_list enc_str (entry_args e) @ enc_option enc_str (entry_cwd e) @ enc_option enc_str (entry_session_cwd e)
     @ enc_option enc_sandbox (entry_sandbox e) @ enc_option enc_watchdog (map_option watchdog_millis (entry_watchdog e))
     @ enc_option enc_str (entry_auth_method e) @ [if entry_pre_authenticated e then 1 else 0]
     @ enc_checkout c @ enc_str (effective_cwd c) @ enc_str (mcp_delivery_token (entry_mcp_delivery e))
     @ enc_str source_digest @ enc_str digest @ effect_tail (entry_rename_new_sessions e) (entry_liveness e)"
  by (simp add: effect_canonical_def Let_def push_encs push_bool_def effect_tail_def split: option.splits)

lemma effect_canonical_inject:
  assumes "effect_fits e c digest source_digest" and "effect_fits e' c' digest' source_digest'"
  shows "effect_canonical e c digest source_digest = effect_canonical e' c' digest' source_digest'
    \<longleftrightarrow> effect_commitment e c digest source_digest = effect_commitment e' c' digest' source_digest'"
  using assms unfolding effect_canonical_enc same_append_eq effect_fits_def effect_commitment_def
  by (simp add: str_code.enc_append_iff option_code.enc_append_iff strings_code.enc_append_iff
      sandbox_option_code.enc_append_iff watchdog_option_code.enc_append_iff checkout_cwd_append_iff
      kind_token_inject delivery_token_inject bool_byte_inject effect_tail_inject)

definition digest_message :: "string \<Rightarrow> u8 list \<Rightarrow> u8 list" where
  "digest_message domain v = push_bytes (push_bytes [] (str_bytes domain)) v"

lemma secret_silent_digest_Inr:
  assumes "secret_silent_digest sha hmac key secret domain v = Inr d"
  shows "d = hex_bytes ((case key of Some k \<Rightarrow> if secret then hmac k else sha | None \<Rightarrow> sha) (digest_message domain v))"
  using assms
  by (auto simp: secret_silent_digest_def key_mac_def Sha256HexV1_digest_def digest_message_def split: if_splits option.splits)

lemma digest_message_inject: "short v \<Longrightarrow> short w \<Longrightarrow> digest_message domain v = digest_message domain w \<longleftrightarrow> v = w"
  by (simp add: digest_message_def push_bytes_enc bytes_code.enc_inject)

text \<open>
  C25: The digest of a frozen provider effect identifies what the provider is launched with. Under the same key,
  two effects of the same secrecy have the same digest exactly when the agent, its kind, command, endpoint,
  arguments, directories, sandbox, watchdog, authentication, checkout, delivery channel and digests, session
  naming and liveness block all agree, unless the hash collides on the two messages. Models, modes and
  display fields do not enter it.
\<close>

theorem effect_digest_identifies:
  assumes "freeze_effect sha hmac e c dd sd secret key = Inr f" and "freeze_effect sha hmac e' c' dd' sd' secret key = Inr f'"
    and "effect_fits e c dd sd" and "effect_fits e' c' dd' sd'"
    and "short (effect_canonical e c dd sd)" and "short (effect_canonical e' c' dd' sd')"
    and "inj_on (case key of Some k \<Rightarrow> if secret then hmac k else sha | None \<Rightarrow> sha)
      {digest_message ''a2a-bridge/provider-effect-final/v1'' (effect_canonical e c dd sd),
       digest_message ''a2a-bridge/provider-effect-final/v1'' (effect_canonical e' c' dd' sd')}"
  shows "effect_digest f = effect_digest f' \<longleftrightarrow> effect_commitment e c dd sd = effect_commitment e' c' dd' sd'"
proof -
  let ?h = "case key of Some k \<Rightarrow> if secret then hmac k else sha | None \<Rightarrow> sha"
  let ?m = "digest_message ''a2a-bridge/provider-effect-final/v1''"
  have f: "effect_digest f = hex_bytes (?h (?m (effect_canonical e c dd sd)))"
    "effect_digest f' = hex_bytes (?h (?m (effect_canonical e' c' dd' sd')))"
    using assms(1,2) by (auto simp: freeze_effect_def rbind_Inr_iff dest: secret_silent_digest_Inr)
  have "hex_bytes a = hex_bytes b \<longleftrightarrow> a = b" for a b by (metis unhex_hex_bytes)
  then have "effect_digest f = effect_digest f' \<longleftrightarrow> ?m (effect_canonical e c dd sd) = ?m (effect_canonical e' c' dd' sd')"
    unfolding f using inj_on_eq_iff [OF assms(7)] by simp
  also have "\<dots> \<longleftrightarrow> effect_commitment e c dd sd = effect_commitment e' c' dd' sd'"
    by (simp only: digest_message_inject [OF assms(5,6)] effect_canonical_inject [OF assms(3,4)])
  finally show ?thesis .
qed

definition example_entry :: AgentEntry where
  "example_entry =
     \<lparr>entry_id = ''coder'', entry_cmd = Some ''agent'', entry_base_url = None, entry_api_key_env = None, entry_args = [],
      entry_kind = KindAcp, entry_model_provider = None, entry_model = Some ''m1'', entry_effort = None, entry_mode = None,
      entry_preflight = True, entry_fallback_models = [''m2''], entry_cwd = None, entry_session_cwd = None,
      entry_sandbox = None, entry_watchdog = None, entry_liveness = None,
      entry_mcp = [\<lparr>server_name = ''nav'', server_command = ''/bin/nav'', server_args = [],
        server_env = [(''TOKEN'', SecretFromEnv ''NAV_TOKEN'' ''s3cret'')]\<rparr>],
      entry_mcp_delivery = DeliverAcp, entry_auth_method = None, entry_pre_authenticated = False,
      entry_host_fallback_eligible = False, entry_rename_new_sessions = False, entry_name = None,
      entry_description = None, entry_tags = [], entry_version = None\<rparr>"

theorem effect_digest_identifies_witness:
  "effect_digest (projr (freeze_effect (\<lambda>bs. bs) (\<lambda>k bs. bs) example_entry (Direct ''/r'' ''/r'') ''d'' ''s'' False None))
   \<noteq> effect_digest (projr (freeze_effect (\<lambda>bs. bs) (\<lambda>k bs. bs) (example_entry\<lparr>entry_rename_new_sessions := True\<rparr>)
        (Direct ''/r'' ''/r'') ''d'' ''s'' False None))"
proof -
  let ?e = example_entry and ?e' = "example_entry\<lparr>entry_rename_new_sessions := True\<rparr>"
  let ?c = "Direct ''/r'' ''/r''"
  obtain f where f: "freeze_effect (\<lambda>bs. bs) (\<lambda>k bs. bs) ?e ?c ''d'' ''s'' False None = Inr f"
    by (simp add: freeze_effect_def secret_silent_digest_def)
  obtain f' where f': "freeze_effect (\<lambda>bs. bs) (\<lambda>k bs. bs) ?e' ?c ''d'' ''s'' False None = Inr f'"
    by (simp add: freeze_effect_def secret_silent_digest_def)
  have fits: "effect_fits ?e ?c ''d'' ''s''" "effect_fits ?e' ?c ''d'' ''s''"
    by (simp_all add: effect_fits_def example_entry_def short_def)
  have shorts: "short (effect_canonical ?e ?c ''d'' ''s'')" "short (effect_canonical ?e' ?c ''d'' ''s'')"
    by (simp_all add: effect_canonical_enc example_entry_def short_def enc_str_def enc_bytes_def enc_option_def enc_list_def
        enc_checkout_def effect_tail_def push_bytes_def)
  have "effect_commitment ?e ?c ''d'' ''s'' \<noteq> effect_commitment ?e' ?c ''d'' ''s''"
    by (simp add: effect_commitment_def example_entry_def)
  with effect_digest_identifies [OF f f' fits shorts] have "effect_digest f \<noteq> effect_digest f'" by simp
  then show ?thesis unfolding f f' by simp
qed

section \<open>Secrets are committed to under the key\<close>

lemma secret_silent_digest_keyed: "secret_silent_digest sha hmac key True domain v = secret_silent_digest sha' hmac key True domain v"
  by (simp add: secret_silent_digest_def)

text \<open>
  C24: The frozen form of a secret-bearing delivery never holds an unkeyed hash of it. Without a key the freeze is
  refused; with a key, the digests of the configured servers, of the delivery and of the effect and the
  name of the delivered agent are all the same whatever the unkeyed hash function is, so they depend on the secrets only
  through the keyed one, and the result names the key.
\<close>

theorem secret_effects_keyed:
  assumes "secret_bearing_entry entry"
  shows "freeze_delivery sha hmac pretty entry cwd key = freeze_delivery sha' hmac pretty entry cwd key
    \<and> freeze_effect sha hmac entry c dd sd True key = freeze_effect sha' hmac entry c dd sd True key
    \<and> (case freeze_delivery sha hmac pretty entry cwd key of
         Inl e \<Rightarrow> e = MissingProviderEffectKey \<and> key = None
       | Inr (delivery, secret, key_ident, source_digest) \<Rightarrow>
           secret \<and> (\<exists>k. key = Some k \<and> key_ident = Some (key_id hmac k)))"
proof -
  have payload: "delivery_payload sha hmac pretty entry cwd key = delivery_payload sha' hmac pretty entry cwd key"
    using assms by (simp add: delivery_payload_def Let_def secret_silent_digest_keyed [of sha hmac key _ _ sha'] cong: McpDelivery.case_cong)
  have same: "freeze_delivery sha hmac pretty entry cwd key = freeze_delivery sha' hmac pretty entry cwd key"
    using assms by (simp add: freeze_delivery_def Let_def payload secret_silent_digest_keyed [of sha hmac key _ _ sha'])
  have effect: "freeze_effect sha hmac entry c dd sd True key = freeze_effect sha' hmac entry c dd sd True key"
    by (simp add: freeze_effect_def secret_silent_digest_keyed [of sha hmac key _ _ sha'])
  have shape: "case freeze_delivery sha hmac pretty entry cwd key of
         Inl e \<Rightarrow> e = MissingProviderEffectKey \<and> key = None
       | Inr (delivery, secret, key_ident, source_digest) \<Rightarrow>
           secret \<and> (\<exists>k. key = Some k \<and> key_ident = Some (key_id hmac k))"
    using assms
    by (cases key; cases "entry_mcp_delivery entry")
      (simp_all add: freeze_delivery_def Let_def secret_silent_digest_def delivery_payload_def)
  from same effect shape show ?thesis by blast
qed

theorem secret_effects_keyed_witness:
  "freeze_delivery (\<lambda>bs. bs) (\<lambda>k bs. k @ bs) (\<lambda>_. None) example_entry ''/r'' None = Inl MissingProviderEffectKey
   \<and> freeze_delivery (\<lambda>bs. bs) (\<lambda>k bs. k @ bs) (\<lambda>_. None) example_entry ''/r'' (Some [7])
     = freeze_delivery (\<lambda>bs. []) (\<lambda>k bs. k @ bs) (\<lambda>_. None) example_entry ''/r'' (Some [7])"
proof -
  have s: "secret_bearing_entry example_entry" by (simp add: secret_bearing_entry_def example_entry_def)
  have "freeze_delivery (\<lambda>bs. bs) (\<lambda>k bs. k @ bs) (\<lambda>_. None) example_entry ''/r'' None = Inl MissingProviderEffectKey"
    using secret_effects_keyed [OF s, of "\<lambda>bs. bs" "\<lambda>k bs. k @ bs" "\<lambda>_. None" "''/r''" None "\<lambda>bs. []"
        "Direct [] []" "[]" "[]"]
    by (auto split: sum.splits)
  moreover have "freeze_delivery (\<lambda>bs. bs) (\<lambda>k bs. k @ bs) (\<lambda>_. None) example_entry ''/r'' (Some [7])
     = freeze_delivery (\<lambda>bs. []) (\<lambda>k bs. k @ bs) (\<lambda>_. None) example_entry ''/r'' (Some [7])"
    using secret_effects_keyed [OF s] by blast
  ultimately show ?thesis by blast
qed

section \<open>The matrix of attempts\<close>

definition matrix_of :: "nat \<Rightarrow> FrozenProviderLogicalSessionV1 list" where
  "matrix_of n = concat (map (\<lambda>k. [Preflight (of_nat k), Execute (of_nat k)]) [0..<n])"

lemma sessions_from_ok:
  "list_all (\<lambda>n. n < 2 ^ 16) ns \<Longrightarrow> sessions_from ns = Inr (concat (map (\<lambda>k. [Preflight (of_nat k), Execute (of_nat k)]) ns))"
  by (induction ns) simp_all

lemma sessions_from_bad: "list_ex (\<lambda>n. 2 ^ 16 \<le> n) ns \<Longrightarrow> sessions_from ns = Inl ProviderAttemptMatrixInvalid"
  by (induction ns) auto

lemma expected_logical_sessions_cases:
  "expected_logical_sessions s =
     (if \<not> selection_preflight s then Inr [Execute 0]
      else if length (candidates s) \<le> 2 ^ 16 then Inr (matrix_of (length (candidates s)))
      else Inl ProviderAttemptMatrixInvalid)"
proof -
  have "sessions_from [0..<n] = Inr (matrix_of n)" if "n \<le> 2 ^ 16" for n
    unfolding matrix_of_def using that by (intro sessions_from_ok) (simp add: list_all_iff)
  moreover have "sessions_from [0..<n] = Inl ProviderAttemptMatrixInvalid" if "2 ^ 16 < n" for n
    using that by (intro sessions_from_bad) (auto simp: list_ex_iff)
  ultimately show ?thesis by (simp add: expected_logical_sessions_def)
qed

lemma expected_session_in_set:
  assumes "expected_logical_sessions s = Inr sessions" and "x \<in> set sessions"
  shows "unat (candidate_ordinal x) < length (candidates s) \<and> (is_preflight x \<longrightarrow> selection_preflight s)"
proof (cases "selection_preflight s")
  case True
  with assms(1) have "sessions = matrix_of (length (candidates s))" "length (candidates s) \<le> 2 ^ 16"
    by (auto simp: expected_logical_sessions_cases split: if_splits)
  with assms(2) True show ?thesis by (auto simp: matrix_of_def unat_of_nat)
next
  case False
  with assms have "x = Execute 0" by (auto simp: expected_logical_sessions_cases)
  then show ?thesis by (simp add: candidates_def)
qed

lemma validate_matrix_iff:
  "validate_provider_attempt_matrix selection atts = Inr u \<longleftrightarrow>
     expected_logical_sessions selection = Inr (map logical_session atts)
     \<and> list_all (\<lambda>a. attempt_matches selection a (logical_session a)) atts"
proof -
  have "length atts = length ss \<and> list_all (\<lambda>(a, x). attempt_matches selection a x) (zip atts ss)
      \<longleftrightarrow> ss = map logical_session atts \<and> list_all (\<lambda>a. attempt_matches selection a (logical_session a)) atts" for ss
  proof -
    have "length atts = length ss \<and> list_all (\<lambda>(a, x). attempt_matches selection a x) (zip atts ss)
        \<longleftrightarrow> list_all2 (\<lambda>a x. attempt_matches selection a x) atts ss"
      by (simp add: list_all2_iff list_all_iff case_prod_unfold)
    also have "\<dots> \<longleftrightarrow> ss = map logical_session atts \<and> list_all (\<lambda>a. attempt_matches selection a (logical_session a)) atts"
      by (auto simp: attempt_matches_def list_all2_conv_all_nth list_all_length list_eq_iff_nth_eq)
    finally show ?thesis .
  qed
  then show ?thesis
    by (cases "expected_logical_sessions selection") (auto simp: validate_provider_attempt_matrix_def)
qed

lemma freeze_attempt_shape:
  assumes "freeze_provider_attempt_v1 sha hmac pretty i = Inr b"
  shows "bundle_selection b = freeze_selection sha (freeze_entry i) (freeze_overrides i)"
    and "bundle_frozen b = bound_frozen (bundle_bound b)"
    and "mcp_delivery_digest (provider_effect (bundle_frozen b)) = delivery_digest (bound_delivery (bundle_bound b))"
    and "attempt_matches (freeze_selection sha (freeze_entry i) (freeze_overrides i)) (bundle_frozen b) (freeze_logical_session i)"
    and "attempt_fingerprint (bundle_frozen b) = Sha256HexV1_digest sha (attempt_canonical (freeze_node i)
      (logical_session (bundle_frozen b)) (checkout_effect (bundle_frozen b)) (provider_effect (bundle_frozen b)) (bundle_selection b))"
  using assms
  by (auto simp: freeze_provider_attempt_v1_def Let_def rbind_Inr_iff freeze_effect_def attempt_matches_def
      freeze_selection_def split: if_splits)

definition attempt_input where
  "attempt_input entry ov node session checkout key =
     \<lparr>freeze_entry = entry, freeze_overrides = ov, freeze_node = node, freeze_logical_session = session,
      freeze_checkout = checkout, provider_effect_key = key\<rparr>"

lemma expected_attempt_in_set:
  assumes "expected_logical_sessions (freeze_selection sha entry ov) = Inr sessions" and "x \<in> set sessions"
  shows "freeze_provider_attempt_v1 sha hmac pretty (attempt_input entry ov node x checkout key) \<noteq> Inl ProviderSelectionOutOfSet"
  using expected_session_in_set [OF assms]
  by (auto simp: freeze_provider_attempt_v1_def attempt_input_def Let_def rbind_Inl_iff freeze_delivery_def
      freeze_effect_def secret_silent_digest_def delivery_payload_def split: if_splits option.splits McpDelivery.splits)

definition bundle_coherent :: "FrozenProviderSelectionV1 \<Rightarrow> FrozenProviderAttemptBundleV1 \<Rightarrow> bool" where
  "bundle_coherent sel b \<longleftrightarrow> bundle_selection b = sel \<and> bundle_frozen b = bound_frozen (bundle_bound b)
     \<and> mcp_delivery_digest (provider_effect (bundle_frozen b)) = delivery_digest (bound_delivery (bundle_bound b))"

lemma freeze_node_coherent:
  assumes "bundles \<noteq> []" and "list_all (bundle_coherent sel) bundles"
    and "validate_provider_attempt_matrix sel (map bundle_frozen bundles) = Inr ()"
  shows "freeze_node_execution_identity_v1 sha node bundles = Inr \<lparr>identity_node = node, identity_selection = sel,
      provider_attempts = map bundle_frozen bundles, identity_fingerprint =
        Sha256HexV1_digest sha (node_identity_canonical node sel (map bundle_frozen bundles))\<rparr>"
proof -
  obtain b bs where b: "bundles = b # bs" using assms(1) by (cases bundles) auto
  with assms(2) have "bundle_selection b = sel" by (simp add: bundle_coherent_def)
  moreover have "\<not> list_ex (\<lambda>b. bundle_selection b \<noteq> sel \<or> bundle_frozen b \<noteq> bound_frozen (bundle_bound b)
      \<or> mcp_delivery_digest (provider_effect (bundle_frozen b)) \<noteq> delivery_digest (bound_delivery (bundle_bound b))) bundles"
    using assms(2) by (auto simp: list_ex_iff list_all_iff bundle_coherent_def)
  ultimately show ?thesis
    using assms(3) unfolding freeze_node_execution_identity_v1_def b by (simp add: Let_def)
qed

text \<open>
  C26: The expected matrix of a node can be frozen, and what is frozen validates. For a selection whose
  expected sessions exist, no session of them is refused as out of the set; and when each of them, in
  order, has been frozen with whatever checkout and key, the node identity is frozen from the
  bundles, passes its own validation, and holds exactly those attempts.
\<close>

theorem node_matrix_complete:
  assumes "expected_logical_sessions (freeze_selection sha entry ov) = Inr sessions"
    and "list_all2 (\<lambda>session b. \<exists>checkout key.
        freeze_provider_attempt_v1 sha hmac pretty (attempt_input entry ov node session checkout key) = Inr b) sessions bundles"
  shows "list_all (\<lambda>session. freeze_provider_attempt_v1 sha hmac pretty (attempt_input entry ov node session checkout' key')
        \<noteq> Inl ProviderSelectionOutOfSet) sessions
    \<and> (\<exists>i. freeze_node_execution_identity_v1 sha node bundles = Inr i \<and> validate_node_execution_identity_v1 sha i = Inr ()
        \<and> provider_attempts i = map bundle_frozen bundles \<and> map logical_session (provider_attempts i) = sessions)"
proof (intro conjI)
  let ?sel = "freeze_selection sha entry ov"
  show "list_all (\<lambda>session. freeze_provider_attempt_v1 sha hmac pretty (attempt_input entry ov node session checkout' key')
        \<noteq> Inl ProviderSelectionOutOfSet) sessions"
    using expected_attempt_in_set [OF assms(1)] by (simp add: list_all_iff)
  have shape: "list_all2 (\<lambda>session b. bundle_coherent ?sel b \<and> attempt_matches ?sel (bundle_frozen b) session) sessions bundles"
    using assms(2)
    by (rule list_all2_mono) (auto simp: attempt_input_def bundle_coherent_def dest: freeze_attempt_shape(1-4))
  then have ss: "map logical_session (map bundle_frozen bundles) = sessions"
    by (auto simp: list_all2_conv_all_nth attempt_matches_def list_eq_iff_nth_eq)
  have coherent: "list_all (bundle_coherent ?sel) bundles"
    and "list_all (\<lambda>b. attempt_matches ?sel (bundle_frozen b) (logical_session (bundle_frozen b))) bundles"
    using shape by (auto simp: list_all2_conv_all_nth list_all_length attempt_matches_def)
  with ss have valid: "validate_provider_attempt_matrix ?sel (map bundle_frozen bundles) = Inr ()"
    using assms(1) by (simp add: validate_matrix_iff list_all_iff)
  have "sessions \<noteq> []"
    using assms(1) by (auto simp: expected_logical_sessions_cases matrix_of_def candidates_def split: if_splits)
  with shape have "bundles \<noteq> []" by auto
  from freeze_node_coherent [OF this coherent valid] valid ss
  show "\<exists>i. freeze_node_execution_identity_v1 sha node bundles = Inr i \<and> validate_node_execution_identity_v1 sha i = Inr ()
      \<and> provider_attempts i = map bundle_frozen bundles \<and> map logical_session (provider_attempts i) = sessions"
    by (simp add: validate_node_execution_identity_v1_def)
qed

definition plain_entry :: AgentEntry where
  "plain_entry = example_entry\<lparr>entry_preflight := False, entry_mcp := []\<rparr>"

theorem node_matrix_complete_witness:
  "\<exists>b i. freeze_provider_attempt_v1 (\<lambda>bs. bs) (\<lambda>k bs. bs) (\<lambda>_. None)
       (attempt_input plain_entry None \<lparr>sorted_ordinal = 0, id_sha256 = ''n''\<rparr> (Execute 0) (Direct ''/r'' ''/r'') None) = Inr b
     \<and> freeze_node_execution_identity_v1 (\<lambda>bs. bs) \<lparr>sorted_ordinal = 0, id_sha256 = ''n''\<rparr> [b] = Inr i
     \<and> validate_node_execution_identity_v1 (\<lambda>bs. bs) i = Inr ()"
proof -
  let ?n = "\<lparr>sorted_ordinal = 0, id_sha256 = ''n''\<rparr>"
  let ?i = "attempt_input plain_entry None ?n (Execute 0) (Direct ''/r'' ''/r'') None"
  have sel: "\<not> selection_preflight (freeze_selection (\<lambda>bs. bs) plain_entry None)"
    by (simp add: freeze_selection_def plain_entry_def Let_def)
  then have ss: "expected_logical_sessions (freeze_selection (\<lambda>bs. bs) plain_entry None) = Inr [Execute 0]"
    by (simp add: expected_logical_sessions_cases)
  have "\<not> secret_bearing_entry plain_entry" "entry_mcp_delivery plain_entry = DeliverAcp"
    by (simp_all add: secret_bearing_entry_def plain_entry_def example_entry_def)
  with sel obtain b where b: "freeze_provider_attempt_v1 (\<lambda>bs. bs) (\<lambda>k bs. bs) (\<lambda>_. None) ?i = Inr b"
    by (auto simp: freeze_provider_attempt_v1_def attempt_input_def Let_def candidates_def freeze_delivery_def
        secret_silent_digest_def delivery_payload_def freeze_effect_def)
  then have "list_all2 (\<lambda>session b. \<exists>checkout key. freeze_provider_attempt_v1 (\<lambda>bs. bs) (\<lambda>k bs. bs) (\<lambda>_. None)
      (attempt_input plain_entry None ?n session checkout key) = Inr b) [Execute 0] [b]"
    by auto
  from node_matrix_complete [OF ss this] b show ?thesis by blast
qed

section \<open>The node fingerprint\<close>








































end
