(* ===== verification/Accounting.thy ===== *)
theory Accounting
  imports Identities "HOL-Library.Option_ord"
begin

text \<open>
  The versioned usage ledger: usage snapshots (\<open>orch.rs\<close>), the attempt record with the merge of an
  observation into it, and the summary of a set of attempts into buckets (\<open>accounting.rs\<close>).
  An \<open>f64\<close> is its bit pattern; the addition of two of them is the argument \<open>fadd\<close>. The counters
  of a bucket count rows that are in memory, so they are natural numbers; sums of
  reported tokens are 64-bit and checked. The JSON text in which the store keeps a row stands for the row.
\<close>

section \<open>Usage snapshots\<close>

type_synonym f64 = u64

definition f64_exponent :: "f64 \<Rightarrow> u64" where
  "f64_exponent a = take_bit 11 (drop_bit 52 a)"

definition f64_is_finite :: "f64 \<Rightarrow> bool" where
  "f64_is_finite a \<longleftrightarrow> f64_exponent a \<noteq> 2047"

text \<open>\<open>a < 0.0\<close>: the sign is set, and the number is neither \<open>-0.0\<close> nor a NaN.\<close>

definition f64_negative :: "f64 \<Rightarrow> bool" where
  "f64_negative a \<longleftrightarrow> bit a 63 \<and> take_bit 63 a \<noteq> 0 \<and> \<not> (f64_exponent a = 2047 \<and> take_bit 52 a \<noteq> 0)"

record UsageCost =
  amount :: f64
  currency :: string

record TerminalUsage =
  total_tokens :: u64
  input_tokens :: u64
  output_tokens :: u64
  thought_tokens :: "u64 option"
  cached_read_tokens :: "u64 option"
  cached_write_tokens :: "u64 option"

record UsageSnapshot =
  snap_used :: "u64 option"
  snap_size :: "u64 option"
  snap_cost :: "UsageCost option"
  snap_terminal :: "TerminalUsage option"
  snap_at_ms :: int

definition UsageSnapshot_default :: UsageSnapshot where
  "UsageSnapshot_default =
     \<lparr>snap_used = None, snap_size = None, snap_cost = None, snap_terminal = None, snap_at_ms = 0\<rparr>"

text \<open>\<open>Option::or\<close>\<close>

fun option_or :: "'a option \<Rightarrow> 'a option \<Rightarrow> 'a option" where
  "option_or None y = y"
| "option_or (Some x) y = Some x"

definition merge_missing_from :: "UsageSnapshot \<Rightarrow> UsageSnapshot \<Rightarrow> UsageSnapshot" where
  "merge_missing_from self previous =
     (let self = (if snap_used self = None then self\<lparr>snap_used := snap_used previous\<rparr> else self);
          self = (if snap_size self = None then self\<lparr>snap_size := snap_size previous\<rparr> else self);
          self = (if snap_cost self = None then self\<lparr>snap_cost := snap_cost previous\<rparr> else self)
      in if snap_terminal self = None then self\<lparr>snap_terminal := snap_terminal previous\<rparr> else self)"

section \<open>Attempt records\<close>

datatype BillingIdentityV1 = BillingIdentityV1 (billing_mode: string) (account_group: string)

record UsageAttributionV1 =
  attr_execution :: "string option"
  attr_run_attempt :: "string option"
  attr_node :: "string option"
  attr_agent :: string
  attr_effective_model :: "string option"
  attr_effective_effort :: "string option"
  attr_effective_mode :: "string option"
  attr_turn :: "string option"
  attr_workflow :: "string option"
  attr_attempt_kind :: string
  attr_billing :: "BillingIdentityV1 option"

record UsageAttemptV1 =
  usage_id :: string
  attribution :: UsageAttributionV1
  usage_started_ms :: int
  utc_day :: int
  dispatched :: bool
  finalized :: bool
  usage :: UsageSnapshot
  cost_invalid :: bool

definition cost_unusable :: "UsageCost \<Rightarrow> bool" where
  "cost_unusable c \<longleftrightarrow>
     \<not> f64_is_finite (amount c) \<or> f64_negative (amount c) \<or> trim (chars (currency c)) = []"

definition observe_usage :: "UsageAttemptV1 \<Rightarrow> UsageSnapshot \<Rightarrow> UsageAttemptV1" where
  "observe_usage self u =
     (let (self, u) =
        (case snap_cost u of
           Some cost \<Rightarrow>
             if cost_unusable cost then (self\<lparr>cost_invalid := True\<rparr>, u\<lparr>snap_cost := None\<rparr>) else (self, u)
         | None \<Rightarrow> (self, u));
          u = merge_missing_from u (usage self);
          u = (case (snap_terminal u, snap_terminal (usage self)) of
                 (Some n, Some previous) \<Rightarrow>
                   u\<lparr>snap_terminal := Some (n\<lparr>
                        thought_tokens := option_or (thought_tokens n) (thought_tokens previous),
                        cached_read_tokens := option_or (cached_read_tokens n) (cached_read_tokens previous),
                        cached_write_tokens := option_or (cached_write_tokens n) (cached_write_tokens previous)\<rparr>)\<rparr>
               | _ \<Rightarrow> u)
      in self\<lparr>usage := u\<rparr>)"

text \<open>\<open>AccountingV1::start\<close> up to the call of the store: the fresh row of a concrete turn.\<close>

definition DAY_MS :: int where
  "DAY_MS = 86400000"

definition start_row ::
  "(string \<Rightarrow> string option \<Rightarrow> BillingIdentityV1 option) option \<Rightarrow> int \<Rightarrow> AttemptIdentity \<Rightarrow> string
   \<Rightarrow> UsageAttributionV1 \<Rightarrow> BridgeError + UsageAttemptV1" where
  "start_row provider now own concrete_turn a =
     (if concrete_turn = attempt_id own then Inl StoreFailure
      else let a = a\<lparr>attr_execution := Some (execution_id own), attr_run_attempt := Some (attempt_id own)\<rparr>;
               a = a\<lparr>attr_billing := (case provider of None \<Rightarrow> None
                        | Some identity \<Rightarrow> identity (attr_agent a) (attr_effective_model a))\<rparr>
           in Inr \<lparr>usage_id = concrete_turn, attribution = a, usage_started_ms = now, utc_day = now div DAY_MS,
                   dispatched = False, finalized = False, usage = UsageSnapshot_default, cost_invalid = False\<rparr>)"

section \<open>Summaries\<close>

record UsageQueryV1 =
  q_execution :: "string option"
  q_run_attempt :: "string option"
  q_node :: "string option"
  q_agent :: "string option"
  q_effective_model :: "string option"
  q_workflow :: "string option"
  utc_day_from :: "int option"
  utc_day_through :: "int option"
  group_by_agent :: bool
  group_by_model :: bool
  group_by_workflow :: bool
  group_by_utc_day :: bool

datatype UsageGroupV1 =
  UsageGroupV1 (group_agent: "string option") (group_effective_model: "string option")
    (group_workflow: "string option") (group_utc_day: "int option") (group_billing: "BillingIdentityV1 option")

record UsageComponentV1 =
  reported_sum :: u64
  missing_count :: nat
  partial :: bool

record UsageBucketV1 =
  bucket_keys :: UsageGroupV1
  attempted :: nat
  bucket_dispatched :: nat
  pending :: nat
  unmapped :: nat
  sum_total :: UsageComponentV1
  sum_input :: UsageComponentV1
  sum_output :: UsageComponentV1
  sum_thought :: UsageComponentV1
  sum_cached_read :: UsageComponentV1
  sum_cached_write :: UsageComponentV1
  cost_by_currency :: "(string \<times> f64) list"
  cost_known :: nat
  cost_missing :: nat
  cost_invalid_count :: nat
  cost_partial :: bool

record UsageSummaryV1 =
  summary_version :: u32
  coverage_start_ms :: int
  historical_incomplete :: bool
  buckets :: "UsageBucketV1 list"

text \<open>The derived order of the two key types: their fields from first to last.\<close>

instantiation BillingIdentityV1 :: linorder
begin

definition less_eq_BillingIdentityV1 :: "BillingIdentityV1 \<Rightarrow> BillingIdentityV1 \<Rightarrow> bool" where
  "a \<le> b \<longleftrightarrow> (billing_mode a, account_group a) \<le> (billing_mode b, account_group b)"

definition less_BillingIdentityV1 :: "BillingIdentityV1 \<Rightarrow> BillingIdentityV1 \<Rightarrow> bool" where
  "a < b \<longleftrightarrow> (billing_mode a, account_group a) < (billing_mode b, account_group b)"

instance
  by standard
    (auto simp: less_eq_BillingIdentityV1_def less_BillingIdentityV1_def BillingIdentityV1.expand)

end

definition group_fields where
  "group_fields g = (group_agent g, group_effective_model g, group_workflow g, group_utc_day g, group_billing g)"

lemma group_fields_eq_iff [simp]: "group_fields a = group_fields b \<longleftrightarrow> a = b"
  by (cases a; cases b) (simp add: group_fields_def)

instantiation UsageGroupV1 :: linorder
begin

definition less_eq_UsageGroupV1 :: "UsageGroupV1 \<Rightarrow> UsageGroupV1 \<Rightarrow> bool" where
  "a \<le> b \<longleftrightarrow> group_fields a \<le> group_fields b"

definition less_UsageGroupV1 :: "UsageGroupV1 \<Rightarrow> UsageGroupV1 \<Rightarrow> bool" where
  "a < b \<longleftrightarrow> group_fields a < group_fields b"

instance
proof
  fix a b c :: UsageGroupV1
  show "a < b \<longleftrightarrow> a \<le> b \<and> \<not> b \<le> a" unfolding less_eq_UsageGroupV1_def less_UsageGroupV1_def by (rule less_le_not_le)
  show "a \<le> a" unfolding less_eq_UsageGroupV1_def by (rule order_refl)
  show "a \<le> b \<Longrightarrow> b \<le> c \<Longrightarrow> a \<le> c" unfolding less_eq_UsageGroupV1_def by (rule order_trans)
  show "a \<le> b \<Longrightarrow> b \<le> a \<Longrightarrow> a = b"
    unfolding less_eq_UsageGroupV1_def using antisym [of "group_fields a" "group_fields b"] by simp
  show "a \<le> b \<or> b \<le> a" unfolding less_eq_UsageGroupV1_def by (rule linear)
qed

end

text \<open>\<open>BTreeMap::insert\<close>: the entries are kept in the order of their keys.\<close>

fun btree_insert :: "'k::linorder \<Rightarrow> 'v \<Rightarrow> ('k \<times> 'v) list \<Rightarrow> ('k \<times> 'v) list" where
  "btree_insert k v [] = [(k, v)]"
| "btree_insert k v ((j, w) # al) =
     (if k < j then (k, v) # (j, w) # al
      else if k = j then (k, v) # al
      else (j, w) # btree_insert k v al)"

definition UsageComponentV1_default :: UsageComponentV1 where
  "UsageComponentV1_default = \<lparr>reported_sum = 0, missing_count = 0, partial = False\<rparr>"

definition empty_bucket :: "UsageGroupV1 \<Rightarrow> UsageBucketV1" where
  "empty_bucket keys =
     \<lparr>bucket_keys = keys, attempted = 0, bucket_dispatched = 0, pending = 0, unmapped = 0,
      sum_total = UsageComponentV1_default, sum_input = UsageComponentV1_default,
      sum_output = UsageComponentV1_default, sum_thought = UsageComponentV1_default,
      sum_cached_read = UsageComponentV1_default, sum_cached_write = UsageComponentV1_default,
      cost_by_currency = [], cost_known = 0, cost_missing = 0, cost_invalid_count = 0, cost_partial = False\<rparr>"

text \<open>The filter that continues with the next row, and the key of a row that passes it.\<close>

definition filtered_out :: "'a option \<Rightarrow> 'a option \<Rightarrow> bool" where
  "filtered_out filt actual \<longleftrightarrow> filt \<noteq> None \<and> filt \<noteq> actual"

definition row_selected :: "UsageQueryV1 \<Rightarrow> UsageAttemptV1 \<Rightarrow> bool" where
  "row_selected q row \<longleftrightarrow>
     (let a = attribution row in
      \<not> (list_ex (\<lambda>(filt, actual). filtered_out filt actual)
           [(q_execution q, attr_execution a), (q_run_attempt q, attr_run_attempt a), (q_node q, attr_node a),
            (q_effective_model q, attr_effective_model a), (q_workflow q, attr_workflow a)]
         \<or> (case q_agent q of None \<Rightarrow> False | Some v \<Rightarrow> v \<noteq> attr_agent a)
         \<or> (case utc_day_from q of None \<Rightarrow> False | Some d \<Rightarrow> utc_day row < d)
         \<or> (case utc_day_through q of None \<Rightarrow> False | Some d \<Rightarrow> d < utc_day row)))"

definition row_keys :: "UsageQueryV1 \<Rightarrow> UsageAttemptV1 \<Rightarrow> UsageGroupV1" where
  "row_keys q row =
     (let a = attribution row in
      UsageGroupV1
        (if group_by_agent q then Some (attr_agent a) else None)
        (if group_by_model q then attr_effective_model a else None)
        (if group_by_workflow q then attr_workflow a else None)
        (if group_by_utc_day q then Some (utc_day row) else None)
        (attr_billing a))"

definition count_component ::
  "bool \<Rightarrow> u64 option \<Rightarrow> UsageComponentV1 \<Rightarrow> BridgeError + UsageComponentV1" where
  "count_component fin reported c =
     rbind (case reported of
         Some v \<Rightarrow> (case checked_add (reported_sum c) v of
                      None \<Rightarrow> Inl StoreFailure
                    | Some s \<Rightarrow> Inr (c\<lparr>reported_sum := s\<rparr>))
       | None \<Rightarrow> Inr (if fin then c\<lparr>missing_count := missing_count c + 1\<rparr> else c))
     (\<lambda>c. Inr (c\<lparr>partial := partial c \<or> \<not> fin \<or> reported = None\<rparr>))"

definition count_cost ::
  "(f64 \<Rightarrow> f64 \<Rightarrow> f64) \<Rightarrow> UsageAttemptV1 \<Rightarrow> UsageBucketV1 \<Rightarrow> BridgeError + UsageBucketV1" where
  "count_cost fadd row b =
     (let b = (if cost_invalid row then b\<lparr>cost_invalid_count := cost_invalid_count b + 1\<rparr> else b) in
      if finalized row then
        if cost_invalid row then Inr (b\<lparr>cost_partial := True\<rparr>)
        else case snap_cost (usage row) of
            Some cost \<Rightarrow>
              let total = fadd (case map_of (cost_by_currency b) (currency cost) of None \<Rightarrow> 0 | Some t \<Rightarrow> t) (amount cost)
              in if \<not> f64_is_finite total then Inl StoreFailure
                 else Inr (b\<lparr>cost_by_currency := btree_insert (currency cost) total (cost_by_currency b),
                             cost_known := cost_known b + 1\<rparr>)
          | None \<Rightarrow> Inr (b\<lparr>cost_missing := cost_missing b + 1, cost_partial := True\<rparr>)
      else Inr (b\<lparr>cost_partial := True\<rparr>))"

text \<open>What a row reports for each of the six components.\<close>

abbreviation row_terminal :: "UsageAttemptV1 \<Rightarrow> TerminalUsage option" where
  "row_terminal row \<equiv> snap_terminal (usage row)"

definition row_total :: "UsageAttemptV1 \<Rightarrow> u64 option" where
  "row_total row = map_option total_tokens (row_terminal row)"

definition row_input :: "UsageAttemptV1 \<Rightarrow> u64 option" where
  "row_input row = map_option input_tokens (row_terminal row)"

definition row_output :: "UsageAttemptV1 \<Rightarrow> u64 option" where
  "row_output row = map_option output_tokens (row_terminal row)"

definition row_thought :: "UsageAttemptV1 \<Rightarrow> u64 option" where
  "row_thought row = Option.bind (row_terminal row) thought_tokens"

definition row_cached_read :: "UsageAttemptV1 \<Rightarrow> u64 option" where
  "row_cached_read row = Option.bind (row_terminal row) cached_read_tokens"

definition row_cached_write :: "UsageAttemptV1 \<Rightarrow> u64 option" where
  "row_cached_write row = Option.bind (row_terminal row) cached_write_tokens"

definition count_row ::
  "(f64 \<Rightarrow> f64 \<Rightarrow> f64) \<Rightarrow> UsageAttemptV1 \<Rightarrow> UsageBucketV1 \<Rightarrow> BridgeError + UsageBucketV1" where
  "count_row fadd row b =
     (let fin = finalized row;
          b = b\<lparr>attempted := attempted b + 1,
                bucket_dispatched := bucket_dispatched b + of_bool (dispatched row),
                unmapped := unmapped b + of_bool (attr_billing (attribution row) = None),
                pending := pending b + of_bool (\<not> fin)\<rparr>
      in rbind (count_component fin (row_total row) (sum_total b)) (\<lambda>total.
         rbind (count_component fin (row_input row) (sum_input b)) (\<lambda>inp.
         rbind (count_component fin (row_output row) (sum_output b)) (\<lambda>out.
         rbind (count_component fin (row_thought row) (sum_thought b)) (\<lambda>thought.
         rbind (count_component fin (row_cached_read row) (sum_cached_read b)) (\<lambda>cread.
         rbind (count_component fin (row_cached_write row) (sum_cached_write b)) (\<lambda>cwrite.
         count_cost fadd row (b\<lparr>sum_total := total, sum_input := inp, sum_output := out, sum_thought := thought,
                                 sum_cached_read := cread, sum_cached_write := cwrite\<rparr>))))))))"

fun summarize_rows ::
  "(f64 \<Rightarrow> f64 \<Rightarrow> f64) \<Rightarrow> UsageQueryV1 \<Rightarrow> UsageAttemptV1 list \<Rightarrow> (UsageGroupV1 \<times> UsageBucketV1) list
   \<Rightarrow> BridgeError + (UsageGroupV1 \<times> UsageBucketV1) list" where
  "summarize_rows fadd q [] bs = Inr bs"
| "summarize_rows fadd q (row # rows) bs =
     (if \<not> row_selected q row then summarize_rows fadd q rows bs
      else let keys = row_keys q row in
        rbind (count_row fadd row (case map_of bs keys of Some b \<Rightarrow> b | None \<Rightarrow> empty_bucket keys)) (\<lambda>b.
        summarize_rows fadd q rows (btree_insert keys b bs)))"

definition summarize_v1 ::
  "(f64 \<Rightarrow> f64 \<Rightarrow> f64) \<Rightarrow> int \<Rightarrow> UsageAttemptV1 list \<Rightarrow> UsageQueryV1 \<Rightarrow> BridgeError + UsageSummaryV1" where
  "summarize_v1 fadd coverage_start rows q =
     rbind (summarize_rows fadd q (sort_key usage_id rows) []) (\<lambda>bs.
     Inr \<lparr>summary_version = 1, coverage_start_ms = coverage_start, historical_incomplete = True,
          buckets = map snd bs\<rparr>)"

section \<open>The observation of usage\<close>

lemma observe_usage_simps:
  "usage_id (observe_usage r u) = usage_id r" "attribution (observe_usage r u) = attribution r"
  "usage_started_ms (observe_usage r u) = usage_started_ms r" "utc_day (observe_usage r u) = utc_day r"
  "dispatched (observe_usage r u) = dispatched r" "finalized (observe_usage r u) = finalized r"
  by (simp_all add: observe_usage_def Let_def split: option.split)

lemma snap_terminal_merge:
  "snap_terminal (merge_missing_from u v) = option_or (snap_terminal u) (snap_terminal v)"
  by (cases "snap_terminal u") (auto simp: merge_missing_from_def Let_def)

lemma snap_cost_merge: "snap_cost (merge_missing_from u v) = option_or (snap_cost u) (snap_cost v)"
  by (cases "snap_cost u") (auto simp: merge_missing_from_def Let_def)

lemma observe_total:
  "row_total (observe_usage r u) = option_or (map_option total_tokens (snap_terminal u)) (row_total r)"
  by (cases "snap_terminal u"; cases "row_terminal r")
    (simp_all add: observe_usage_def row_total_def Let_def snap_terminal_merge split: option.split)

text \<open>A cost that was kept is usable, so every amount that a summary adds up is finite and not negative.\<close>

definition cost_kept_usable :: "UsageAttemptV1 \<Rightarrow> bool" where
  "cost_kept_usable r \<longleftrightarrow> (case snap_cost (usage r) of None \<Rightarrow> True | Some c \<Rightarrow> \<not> cost_unusable c)"

lemma observe_cost:
  "snap_cost (usage (observe_usage r u)) =
     option_or (case snap_cost u of None \<Rightarrow> None | Some c \<Rightarrow> if cost_unusable c then None else Some c)
       (snap_cost (usage r))"
  by (cases "snap_cost u") (auto simp: observe_usage_def Let_def snap_cost_merge split: option.split)

lemma observe_keeps_cost_usable: "cost_kept_usable r \<Longrightarrow> cost_kept_usable (observe_usage r u)"
  by (cases "snap_cost u") (auto simp: cost_kept_usable_def observe_cost)

section \<open>Summaries account for every row exactly once\<close>

lemma map_of_btree_insert: "map_of (btree_insert k v al) = (map_of al)(k \<mapsto> v)"
  by (induction k v al rule: btree_insert.induct) auto

lemma keys_btree_insert: "fst ` set (btree_insert k v al) = insert k (fst ` set al)"
  by (induction k v al rule: btree_insert.induct) auto

lemma sorted_btree_insert:
  "sorted_wrt (<) (map fst al) \<Longrightarrow> sorted_wrt (<) (map fst (btree_insert k v al))"
proof (induction k v al rule: btree_insert.induct)
  case (2 k v j w al)
  have "fst ` set (btree_insert k v al) = insert k (fst ` set al)" by (rule keys_btree_insert)
  with 2 show ?case by (auto simp: order.strict_trans simp flip: set_map)
qed simp

text \<open>What a component and a bucket must hold for the rows that belong to it.\<close>

definition count_rows :: "(UsageAttemptV1 \<Rightarrow> bool) \<Rightarrow> UsageAttemptV1 multiset \<Rightarrow> nat" where
  "count_rows P rows = size (filter_mset P rows)"

definition some_row :: "(UsageAttemptV1 \<Rightarrow> bool) \<Rightarrow> UsageAttemptV1 multiset \<Rightarrow> bool" where
  "some_row P rows \<longleftrightarrow> (\<exists>r. r \<in># rows \<and> P r)"

lemma rows_simps [simp]:
  "count_rows P {#} = 0" "count_rows P (add_mset r rows) = count_rows P rows + of_bool (P r)"
  "\<not> some_row P {#}" "some_row P (add_mset r rows) \<longleftrightarrow> P r \<or> some_row P rows"
  by (auto simp: count_rows_def some_row_def)

definition component_exact :: "(UsageAttemptV1 \<Rightarrow> u64 option) \<Rightarrow> UsageAttemptV1 multiset \<Rightarrow> UsageComponentV1 \<Rightarrow> bool" where
  "component_exact f rows c \<longleftrightarrow>
     unat (reported_sum c) = (\<Sum>r\<in>#rows. case f r of None \<Rightarrow> 0 | Some v \<Rightarrow> unat v)
     \<and> missing_count c = count_rows (\<lambda>r. finalized r \<and> f r = None) rows
     \<and> (partial c \<longleftrightarrow> some_row (\<lambda>r. \<not> finalized r \<or> f r = None) rows)"

definition bucket_exact :: "UsageAttemptV1 multiset \<Rightarrow> UsageBucketV1 \<Rightarrow> bool" where
  "bucket_exact rows b \<longleftrightarrow>
     attempted b = size rows
     \<and> bucket_dispatched b = count_rows dispatched rows
     \<and> pending b = count_rows (\<lambda>r. \<not> finalized r) rows
     \<and> unmapped b = count_rows (\<lambda>r. attr_billing (attribution r) = None) rows
     \<and> component_exact row_total rows (sum_total b) \<and> component_exact row_input rows (sum_input b)
     \<and> component_exact row_output rows (sum_output b) \<and> component_exact row_thought rows (sum_thought b)
     \<and> component_exact row_cached_read rows (sum_cached_read b)
     \<and> component_exact row_cached_write rows (sum_cached_write b)
     \<and> cost_known b = count_rows (\<lambda>r. finalized r \<and> \<not> cost_invalid r \<and> snap_cost (usage r) \<noteq> None) rows
     \<and> cost_missing b = count_rows (\<lambda>r. finalized r \<and> \<not> cost_invalid r \<and> snap_cost (usage r) = None) rows
     \<and> cost_invalid_count b = count_rows cost_invalid rows
     \<and> (cost_partial b \<longleftrightarrow> some_row (\<lambda>r. \<not> finalized r \<or> cost_invalid r \<or> snap_cost (usage r) = None) rows)"

lemma component_exact_empty: "component_exact f {#} UsageComponentV1_default"
  by (simp add: component_exact_def UsageComponentV1_default_def)

lemma bucket_exact_empty: "bucket_exact {#} (empty_bucket k)"
  by (simp add: bucket_exact_def empty_bucket_def component_exact_empty)

lemma count_component_exact:
  assumes "count_component (finalized r) (f r) c = Inr c'" and "component_exact f rows c"
  shows "component_exact f (add_mset r rows) c'"
proof (cases "f r")
  case None
  with assms show ?thesis by (auto simp: count_component_def component_exact_def)
next
  case (Some v)
  with assms(1) obtain s where "checked_add (reported_sum c) v = Some s"
    and c': "c' = c\<lparr>reported_sum := s, partial := partial c \<or> \<not> finalized r\<rparr>"
    by (auto simp: count_component_def rbind_Inr_iff split: option.splits)
  then have "unat s = unat (reported_sum c) + unat v" by (blast dest: checked_add_SomeD)
  with Some c' assms(2) show ?thesis by (auto simp: component_exact_def)
qed

lemma count_cost_keeps:
  assumes "count_cost fadd r b = Inr b'"
  shows "attempted b' = attempted b \<and> bucket_dispatched b' = bucket_dispatched b \<and> pending b' = pending b
    \<and> unmapped b' = unmapped b \<and> bucket_keys b' = bucket_keys b
    \<and> sum_total b' = sum_total b \<and> sum_input b' = sum_input b
    \<and> sum_output b' = sum_output b \<and> sum_thought b' = sum_thought b
    \<and> sum_cached_read b' = sum_cached_read b \<and> sum_cached_write b' = sum_cached_write b"
  using assms by (auto simp: count_cost_def Let_def split: if_splits option.splits)

lemma count_cost_counts:
  assumes "count_cost fadd r b = Inr b'"
  shows "cost_known b' = cost_known b + of_bool (finalized r \<and> \<not> cost_invalid r \<and> snap_cost (usage r) \<noteq> None)
    \<and> cost_missing b' = cost_missing b + of_bool (finalized r \<and> \<not> cost_invalid r \<and> snap_cost (usage r) = None)
    \<and> cost_invalid_count b' = cost_invalid_count b + of_bool (cost_invalid r)
    \<and> (cost_partial b' \<longleftrightarrow> cost_partial b \<or> \<not> finalized r \<or> cost_invalid r \<or> snap_cost (usage r) = None)"
  using assms by (auto simp: count_cost_def Let_def split: if_splits option.splits)

lemma count_row_cases:
  assumes "count_row fadd r b = Inr b'"
  obtains total inp out thought cread cwrite c where
    "count_component (finalized r) (row_total r) (sum_total b) = Inr total"
    "count_component (finalized r) (row_input r) (sum_input b) = Inr inp"
    "count_component (finalized r) (row_output r) (sum_output b) = Inr out"
    "count_component (finalized r) (row_thought r) (sum_thought b) = Inr thought"
    "count_component (finalized r) (row_cached_read r) (sum_cached_read b) = Inr cread"
    "count_component (finalized r) (row_cached_write r) (sum_cached_write b) = Inr cwrite"
    "count_cost fadd r c = Inr b'"
    "c = b\<lparr>attempted := attempted b + 1, bucket_dispatched := bucket_dispatched b + of_bool (dispatched r),
            unmapped := unmapped b + of_bool (attr_billing (attribution r) = None),
            pending := pending b + of_bool (\<not> finalized r),
            sum_total := total, sum_input := inp, sum_output := out, sum_thought := thought,
            sum_cached_read := cread, sum_cached_write := cwrite\<rparr>"
  using assms by (auto simp: count_row_def Let_def rbind_Inr_iff)

lemma count_row_exact:
  assumes "count_row fadd r b = Inr b'" and "bucket_exact rows b"
  shows "bucket_exact (add_mset r rows) b' \<and> bucket_keys b' = bucket_keys b"
  using assms(1)
proof (rule count_row_cases, goal_cases)
  case (1 total inp out thought cread cwrite c)
  note cost = count_cost_keeps [OF 1(7)] count_cost_counts [OF 1(7)]
  have "component_exact row_total (add_mset r rows) total" "component_exact row_input (add_mset r rows) inp"
    "component_exact row_output (add_mset r rows) out" "component_exact row_thought (add_mset r rows) thought"
    "component_exact row_cached_read (add_mset r rows) cread"
    "component_exact row_cached_write (add_mset r rows) cwrite"
    using assms(2) by (auto intro: count_component_exact [where f = row_total, OF 1(1)] count_component_exact [where f = row_input, OF 1(2)]
        count_component_exact [where f = row_output, OF 1(3)] count_component_exact [where f = row_thought, OF 1(4)] count_component_exact [where f = row_cached_read, OF 1(5)]
        count_component_exact [where f = row_cached_write, OF 1(6)] simp: bucket_exact_def)
  with assms(2) cost show ?case
    by (simp add: 1(8) bucket_exact_def disj_commute)
qed

text \<open>The rows of a group, and the state of the buckets after a part of the rows.\<close>

definition rows_of :: "UsageQueryV1 \<Rightarrow> UsageGroupV1 \<Rightarrow> UsageAttemptV1 multiset \<Rightarrow> UsageAttemptV1 multiset" where
  "rows_of q k rows = {#r \<in># rows. row_selected q r \<and> row_keys q r = k#}"

definition buckets_exact ::
  "UsageQueryV1 \<Rightarrow> UsageAttemptV1 multiset \<Rightarrow> (UsageGroupV1 \<times> UsageBucketV1) list \<Rightarrow> bool" where
  "buckets_exact q rows bs \<longleftrightarrow>
     sorted_wrt (<) (map fst bs)
     \<and> fst ` set bs = row_keys q ` {r. r \<in># rows \<and> row_selected q r}
     \<and> (\<forall>k b. map_of bs k = Some b \<longrightarrow> bucket_keys b = k \<and> bucket_exact (rows_of q k rows) b)"

lemma bucket_for_exact:
  assumes "buckets_exact q seen bs" and b_def: "b = (case map_of bs k of Some b \<Rightarrow> b | None \<Rightarrow> empty_bucket k)"
  shows "bucket_exact (rows_of q k seen) b \<and> bucket_keys b = k"
proof (cases "map_of bs k")
  case None
  then have "k \<notin> row_keys q ` {r. r \<in># seen \<and> row_selected q r}"
    using assms(1) by (simp add: buckets_exact_def map_of_None_iff)
  then have "rows_of q k seen = {#}" by (auto simp: rows_of_def)
  with None show ?thesis by (simp add: b_def bucket_exact_empty) (simp add: empty_bucket_def)
next
  case (Some b')
  with assms show ?thesis by (simp add: buckets_exact_def)
qed

lemma buckets_exact_insert:
  assumes "buckets_exact q seen bs" and "row_selected q r" and "k = row_keys q r"
    and "count_row fadd r (case map_of bs k of Some b \<Rightarrow> b | None \<Rightarrow> empty_bucket k) = Inr b'"
  shows "buckets_exact q (add_mset r seen) (btree_insert k b' bs)"
proof -
  have "bucket_exact (add_mset r (rows_of q k seen)) b' \<and> bucket_keys b' = k"
    using count_row_exact [OF assms(4)] bucket_for_exact [OF assms(1) refl, of k] by metis
  with assms(1-3) show ?thesis
    by (auto simp: buckets_exact_def sorted_btree_insert keys_btree_insert map_of_btree_insert rows_of_def)
qed

lemma summarize_rows_exact:
  assumes "summarize_rows fadd q rows bs = Inr bs'" and "buckets_exact q seen bs"
  shows "buckets_exact q (seen + mset rows) bs'"
  using assms
proof (induction fadd q rows bs arbitrary: seen rule: summarize_rows.induct)
  case (1 fadd q bs)
  then show ?case by simp
next
  case (2 fadd q r rows bs)
  show ?case
  proof (cases "row_selected q r")
    case False
    with 2(4) have "buckets_exact q (add_mset r seen) bs"
      by (auto simp: buckets_exact_def rows_of_def)
    with False 2(3) have "buckets_exact q (add_mset r seen + mset rows) bs'" by (intro 2(1)) simp_all
    then show ?thesis by simp
  next
    case True
    let ?b = "case map_of bs (row_keys q r) of Some b \<Rightarrow> b | None \<Rightarrow> empty_bucket (row_keys q r)"
    from 2(3) True obtain b' where b': "count_row fadd r ?b = Inr b'"
      and rest: "summarize_rows fadd q rows (btree_insert (row_keys q r) b' bs) = Inr bs'"
      by (auto simp: Let_def rbind_Inr_iff)
    from 2(2) [OF _ refl rest buckets_exact_insert [OF 2(4) True refl b']] True show ?thesis by simp
  qed
qed

text \<open>
  C35: A usage summary accounts for every selected attempt exactly once. Its buckets are in the order of
  their keys, there is one for each key of a selected row and no other, and each holds exactly the
  rows of its key: the counts of attempted, dispatched, pending and unmapped rows, for each of the six
  token components the sum that was reported (with no overflow), the number of finalised rows that did not report and
  whether the figure is partial, and the cost counts.
\<close>

theorem summary_accounts_exactly:
  assumes "summarize_v1 fadd coverage_start rows q = Inr s"
  shows "sorted_wrt (<) (map bucket_keys (buckets s))
       \<and> bucket_keys ` set (buckets s) = row_keys q ` {r \<in> set rows. row_selected q r}
       \<and> (\<forall>b\<in>set (buckets s). bucket_exact (rows_of q (bucket_keys b) (mset rows)) b)"
proof -
  from assms obtain bs where bs: "summarize_rows fadd q (sort_key usage_id rows) [] = Inr bs"
    and s: "buckets s = map snd bs"
    by (auto simp: summarize_v1_def rbind_Inr_iff)
  have "buckets_exact q {#} []" by (simp add: buckets_exact_def)
  from summarize_rows_exact [OF bs this] have ok: "buckets_exact q (mset rows) bs" by simp
  then have "distinct (map fst bs)"
    by (auto simp: buckets_exact_def strict_sorted_iff)
  then have some: "map_of bs k = Some b" if "(k, b) \<in> set bs" for k b using that by simp
  with ok have exact: "bucket_keys b = k \<and> bucket_exact (rows_of q k (mset rows)) b" if "(k, b) \<in> set bs" for k b
    using that by (simp add: buckets_exact_def)
  then have keys: "map bucket_keys (buckets s) = map fst bs" by (auto simp: s)
  then have "bucket_keys ` set (buckets s) = fst ` set bs" by (metis list.set_map)
  moreover have "\<forall>b\<in>set (buckets s). bucket_exact (rows_of q (bucket_keys b) (mset rows)) b"
    using exact by (auto simp: s)
  ultimately show ?thesis using ok keys by (simp add: buckets_exact_def)
qed

text \<open>Two turns of one agent, the second still running: one bucket with a partial total.\<close>

definition example_attribution :: UsageAttributionV1 where
  "example_attribution =
     \<lparr>attr_execution = Some ''exec-1'', attr_run_attempt = None, attr_node = None, attr_agent = ''codex'',
      attr_effective_model = None, attr_effective_effort = None, attr_effective_mode = None, attr_turn = None,
      attr_workflow = None, attr_attempt_kind = ''direct'', attr_billing = None\<rparr>"

definition example_usage_row :: "string \<Rightarrow> bool \<Rightarrow> UsageAttemptV1" where
  "example_usage_row ident done =
     \<lparr>usage_id = ident, attribution = example_attribution, usage_started_ms = 0, utc_day = 0, dispatched = True,
      finalized = done,
      usage = UsageSnapshot_default\<lparr>snap_terminal := (if done then Some \<lparr>total_tokens = 7, input_tokens = 4,
        output_tokens = 3, thought_tokens = None, cached_read_tokens = None, cached_write_tokens = None\<rparr> else None)\<rparr>,
      cost_invalid = False\<rparr>"

definition example_query :: UsageQueryV1 where
  "example_query =
     \<lparr>q_execution = None, q_run_attempt = None, q_node = None, q_agent = Some ''codex'', q_effective_model = None,
      q_workflow = None, utc_day_from = None, utc_day_through = None, group_by_agent = True, group_by_model = False,
      group_by_workflow = False, group_by_utc_day = False\<rparr>"

theorem summary_accounts_exactly_witness:
  "\<exists>s. summarize_v1 (+) 0 [example_usage_row ''b'' False, example_usage_row ''a'' True] example_query = Inr s
     \<and> bucket_keys ` set (buckets s) = {UsageGroupV1 (Some ''codex'') None None None None}"
proof -
  obtain s where s: "summarize_v1 (+) 0 [example_usage_row ''b'' False, example_usage_row ''a'' True] example_query = Inr s"
    by (simp add: summarize_v1_def example_usage_row_def example_query_def example_attribution_def row_selected_def
        row_keys_def filtered_out_def count_row_def count_component_def count_cost_def row_total_def row_input_def
        row_output_def row_thought_def row_cached_read_def row_cached_write_def UsageSnapshot_default_def
        UsageComponentV1_default_def empty_bucket_def checked_add_def Let_def)
  have "row_selected example_query (example_usage_row i d)"
    and "row_keys example_query (example_usage_row i d) = UsageGroupV1 (Some ''codex'') None None None None" for i d
    by (simp_all add: example_usage_row_def example_query_def example_attribution_def row_selected_def row_keys_def
        filtered_out_def Let_def)
  then have "row_keys example_query ` {r \<in> set [example_usage_row ''b'' False, example_usage_row ''a'' True]. row_selected example_query r}
      = {UsageGroupV1 (Some ''codex'') None None None None}"
    by (auto intro!: rev_image_eqI)
  with summary_accounts_exactly [OF s] s show ?thesis by metis
qed

end
