(* ===== verification/Governance.thy ===== *)
theory Governance
  imports Accounting Node_Evidence
begin

text \<open>
  The budget contracts of \<open>governance.rs\<close> in \<open>bridge-core\<close>: the operator's policy in its canonical form with
  its digest, the allowance of a candidate, and the liability of an admitted turn with its reconciliation
  against reported usage. The JSON encoding that is digested and SHA-256 are arguments.
\<close>

section \<open>Policies\<close>

record BudgetLimitsV1 =
  limit_turns :: "u64 option"
  limit_terminal_tokens :: "u64 option"

datatype BudgetSelectorV1 = EachRequest | EachWorkflowRun | UtcDayAgent string

record BudgetRuleV1 =
  budget_rule_id :: string
  selector :: BudgetSelectorV1
  limits :: BudgetLimitsV1

record BudgetCandidateV1 =
  candidate_agent :: string
  candidate_model :: "string option"

record TurnAllowanceV1 =
  allowance_target :: BudgetCandidateV1
  allowance_tokens :: u64

record BudgetPolicyV1 =
  rules :: "BudgetRuleV1 list"
  allowances :: "TurnAllowanceV1 list"
  policy_digest :: "u8 list"

definition stable_name :: "string \<Rightarrow> bool" where
  "stable_name s \<longleftrightarrow> s \<noteq> [] \<and> trim (chars s) = chars s"

text \<open>The loop over the rules, with the identifiers and selectors seen so far.\<close>

fun check_budget_rules :: "BudgetRuleV1 list \<Rightarrow> string list \<Rightarrow> BudgetSelectorV1 list \<Rightarrow> string + unit" where
  "check_budget_rules [] ids selectors = Inr ()"
| "check_budget_rules (rule # rs) ids selectors =
     (if \<not> stable_name (budget_rule_id rule) \<or> budget_rule_id rule \<in> set ids \<or> selector rule \<in> set selectors
         \<or> (limit_turns (limits rule) = None \<and> limit_terminal_tokens (limits rule) = None)
      then Inl ''governance requires unique stable rule IDs, selectors and nonempty limits''
      else if (case selector rule of UtcDayAgent agent \<Rightarrow> \<not> stable_name agent | _ \<Rightarrow> False)
      then Inl ''invalid governance agent''
      else check_budget_rules rs (budget_rule_id rule # ids) (selector rule # selectors))"

fun check_allowances :: "TurnAllowanceV1 list \<Rightarrow> BudgetCandidateV1 list \<Rightarrow> string + unit" where
  "check_allowances [] targets = Inr ()"
| "check_allowances (a # as) targets =
     (let t = allowance_target a in
      if \<not> stable_name (candidate_agent t)
         \<or> (case candidate_model t of None \<Rightarrow> False | Some m \<Rightarrow> \<not> stable_name m)
         \<or> t \<in> set targets
      then Inl ''governance requires valid unique allowance targets''
      else check_allowances as (t # targets))"

definition allowance_key :: "TurnAllowanceV1 \<Rightarrow> string \<times> string option" where
  "allowance_key a = (candidate_agent (allowance_target a), candidate_model (allowance_target a))"

definition BudgetPolicyV1_new ::
  "(nat \<times> BudgetRuleV1 list \<times> TurnAllowanceV1 list \<Rightarrow> u8 list option) \<Rightarrow> (u8 list \<Rightarrow> u8 list)
   \<Rightarrow> BudgetRuleV1 list \<Rightarrow> TurnAllowanceV1 list \<Rightarrow> string + BudgetPolicyV1" where
  "BudgetPolicyV1_new json sha rs as =
     (if rs = [] then Inl ''governance requires nonempty rules''
      else rbind (check_budget_rules rs [] []) (\<lambda>_.
           rbind (check_allowances as []) (\<lambda>_.
           let rs = sort_key budget_rule_id rs; as = sort_key allowance_key as in
           case json (1, rs, as) of
             None \<Rightarrow> Inl ''policy encoding failed''
           | Some bytes \<Rightarrow>
               if length (sha bytes) \<noteq> 32 then Inl ''policy digest failed''
               else Inr \<lparr>rules = rs, allowances = as, policy_digest = sha bytes\<rparr>)))"

definition refusal :: "BudgetRefusalReasonV1 \<Rightarrow> BudgetRefusalV1" where
  "refusal reason = BudgetRefusalV1 reason None None None"

definition token_rule_applies :: "BudgetCandidateV1 \<Rightarrow> bool \<Rightarrow> BudgetRuleV1 \<Rightarrow> bool" where
  "token_rule_applies candidate workflow r \<longleftrightarrow>
     limit_terminal_tokens (limits r) \<noteq> None
     \<and> (case selector r of
          EachRequest \<Rightarrow> True
        | EachWorkflowRun \<Rightarrow> workflow
        | UtcDayAgent agent \<Rightarrow> agent = candidate_agent candidate)"

definition allowance_for ::
  "BudgetPolicyV1 \<Rightarrow> BudgetCandidateV1 \<Rightarrow> bool \<Rightarrow> BudgetRefusalV1 + u64 option" where
  "allowance_for policy candidate workflow =
     (if \<not> list_ex (token_rule_applies candidate workflow) (rules policy) then Inr None
      else case find (\<lambda>a. allowance_target a = candidate) (allowances policy) of
             None \<Rightarrow> Inl (refusal MissingAllowance)
           | Some a \<Rightarrow> Inr (Some (allowance_tokens a)))"

section \<open>Reservations and liability\<close>

record BudgetContextV1 =
  request :: BudgetRequestIdV1
  workflow_run :: "string option"

record BudgetReservationV1 =
  res_attempt :: string
  res_context :: BudgetContextV1
  res_candidate :: BudgetCandidateV1
  res_policy_digest :: "u8 list"
  admitted_ms :: int
  admission_day :: int
  res_scopes :: "BudgetScopeKeyV1 list"
  res_turns :: u64
  res_terminal_tokens :: u64

datatype BudgetUnknownReasonV1 = MissingTerminalTokens | InvalidTerminalTokens

datatype BudgetLiabilityV1 = Known u64 | PendingLiability u64 | UnknownLiability u64 BudgetUnknownReasonV1

fun retained :: "BudgetLiabilityV1 \<Rightarrow> u64" where
  "retained (Known n) = n"
| "retained (PendingLiability n) = n"
| "retained (UnknownLiability n _) = n"

definition liability_reconcile ::
  "BudgetLiabilityV1 \<Rightarrow> UsageSnapshot \<Rightarrow> bool \<Rightarrow> bool \<Rightarrow> BudgetLiabilityV1" where
  "liability_reconcile self u fin invalid_terminal =
     (let total = map_option total_tokens (snap_terminal u);
          kept = max (retained self) (case total of None \<Rightarrow> 0 | Some n \<Rightarrow> n)
      in if \<not> fin then PendingLiability kept
         else case (total, invalid_terminal) of
             (Some n, False) \<Rightarrow> Known n
           | _ \<Rightarrow> UnknownLiability kept
                    (if invalid_terminal then InvalidTerminalTokens else MissingTerminalTokens))"

datatype BudgetAdmissionOutcomeV1 = Ungoverned | Admitted BudgetReservationV1 | Refused BudgetRefusalV1

definition is_budget_stop_terminal_v1 :: "NodeTerminalV1 \<Rightarrow> bool" where
  "is_budget_stop_terminal_v1 t \<longleftrightarrow>
     nt_primary t = PrimaryFailed \<and> \<not> nt_prompt_may_have_been_accepted t
     \<and> (case nt_cause t of
          None \<Rightarrow> False
        | Some cause \<Rightarrow>
            cause_failure_class cause = ClassConfig \<and> cause_code cause = lit ''bridge.budget_refused''
            \<and> \<not> cause_truncated cause \<and> \<not> evidence_overflow cause \<and> dependency_set cause = None)"

section \<open>The canonical policy\<close>

lemma check_budget_rules_iff:
  "check_budget_rules rs ids sels = Inr u \<longleftrightarrow>
     distinct (map budget_rule_id rs) \<and> distinct (map selector rs)
     \<and> (\<forall>r\<in>set rs. stable_name (budget_rule_id r) \<and> budget_rule_id r \<notin> set ids \<and> selector r \<notin> set sels
          \<and> (limit_turns (limits r) \<noteq> None \<or> limit_terminal_tokens (limits r) \<noteq> None)
          \<and> (\<forall>a. selector r = UtcDayAgent a \<longrightarrow> stable_name a))"
proof (induction rs arbitrary: ids sels)
  case (Cons r rs)
  then show ?case by (cases "selector r") (auto simp: image_iff)
qed simp

lemma check_allowances_iff:
  "check_allowances as targets = Inr u \<longleftrightarrow>
     distinct (map allowance_target as)
     \<and> (\<forall>a\<in>set as. stable_name (candidate_agent (allowance_target a)) \<and> allowance_target a \<notin> set targets
          \<and> (\<forall>m. candidate_model (allowance_target a) = Some m \<longrightarrow> stable_name m))"
proof (induction as arbitrary: targets)
  case (Cons a as)
  then show ?case by (cases "candidate_model (allowance_target a)") (auto simp: Let_def image_iff)
qed simp

lemma allowance_key_inj: "distinct (map allowance_target as) \<Longrightarrow> inj_on allowance_key (set as)"
proof (rule inj_onI)
  fix a b
  assume "distinct (map allowance_target as)" and ab: "a \<in> set as" "b \<in> set as" and "allowance_key a = allowance_key b"
  then have "allowance_target a = allowance_target b"
    by (cases "allowance_target a"; cases "allowance_target b") (simp add: allowance_key_def)
  with \<open>distinct _\<close> ab show "a = b" by (auto simp: distinct_map dest: inj_onD)
qed

lemma distinct_map_mset_cong: "mset xs = mset ys \<Longrightarrow> distinct (map f xs) \<longleftrightarrow> distinct (map f ys)"
  by (metis mset_eq_imp_distinct_iff mset_map)

lemma check_budget_rules_cong:
  "mset rs = mset rs' \<Longrightarrow> check_budget_rules rs [] [] = Inr () \<longleftrightarrow> check_budget_rules rs' [] [] = Inr ()"
  unfolding check_budget_rules_iff
  using distinct_map_mset_cong [of rs rs' budget_rule_id] distinct_map_mset_cong [of rs rs' selector]
    mset_eq_setD [of rs rs'] by simp

lemma check_allowances_cong:
  "mset as = mset as' \<Longrightarrow> check_allowances as [] = Inr () \<longleftrightarrow> check_allowances as' [] = Inr ()"
  unfolding check_allowances_iff
  using distinct_map_mset_cong [of as as' allowance_target] mset_eq_setD [of as as'] by simp

lemma sort_key_mset_cong:
  assumes "inj_on f (set xs)" and "mset xs = mset ys"
  shows "sort_key f xs = sort_key f ys"
  by (rule sort_key_inj_key_eq) (use assms in simp_all)

lemma policy_new_Inr:
  "BudgetPolicyV1_new json sha rs as = Inr p \<longleftrightarrow>
     rs \<noteq> [] \<and> check_budget_rules rs [] [] = Inr () \<and> check_allowances as [] = Inr ()
     \<and> (\<exists>bytes. json (1, sort_key budget_rule_id rs, sort_key allowance_key as) = Some bytes
          \<and> length (sha bytes) = 32
          \<and> p = \<lparr>rules = sort_key budget_rule_id rs, allowances = sort_key allowance_key as, policy_digest = sha bytes\<rparr>)"
  by (auto simp: BudgetPolicyV1_new_def rbind_Inr_iff Let_def split: option.splits if_splits)

lemma policy_rules_distinct:
  "BudgetPolicyV1_new json sha rs as = Inr p \<Longrightarrow> distinct (map budget_rule_id (rules p))"
  by (auto simp: policy_new_Inr check_budget_rules_iff distinct_map)

text \<open>What the operator's listing must satisfy, said of the rules and allowances and not of the loops over them.\<close>

definition acceptable :: "BudgetRuleV1 list \<Rightarrow> TurnAllowanceV1 list \<Rightarrow> bool" where
  "acceptable rs as \<longleftrightarrow>
     rs \<noteq> [] \<and> distinct (map budget_rule_id rs) \<and> distinct (map selector rs) \<and> distinct (map allowance_target as)
     \<and> list_all (\<lambda>r. stable_name (budget_rule_id r) \<and> limits r \<noteq> \<lparr>limit_turns = None, limit_terminal_tokens = None\<rparr>
          \<and> (case selector r of UtcDayAgent a \<Rightarrow> stable_name a | _ \<Rightarrow> True)) rs
     \<and> list_all (\<lambda>a. stable_name (candidate_agent (allowance_target a))
          \<and> pred_option stable_name (candidate_model (allowance_target a))) as"

lemma acceptable_checks:
  "acceptable rs as \<longleftrightarrow> rs \<noteq> [] \<and> check_budget_rules rs [] [] = Inr () \<and> check_allowances as [] = Inr ()"
proof -
  have limits: "l \<noteq> \<lparr>limit_turns = None, limit_terminal_tokens = None\<rparr> \<longleftrightarrow> limit_turns l \<noteq> None \<or> limit_terminal_tokens l \<noteq> None"
    for l :: BudgetLimitsV1 by (cases l) simp
  have selectors: "(case s of UtcDayAgent a \<Rightarrow> stable_name a | _ \<Rightarrow> True) \<longleftrightarrow> (\<forall>a. s = UtcDayAgent a \<longrightarrow> stable_name a)" for s
    by (cases s) simp_all
  have models: "pred_option stable_name v \<longleftrightarrow> (\<forall>m. v = Some m \<longrightarrow> stable_name m)" for v by (cases v) simp_all
  show ?thesis
    by (auto simp: acceptable_def check_budget_rules_iff check_allowances_iff list_all_iff limits selectors models)
qed

lemma acceptable_cong: "mset rs = mset rs' \<Longrightarrow> mset as = mset as' \<Longrightarrow> acceptable rs as \<longleftrightarrow> acceptable rs' as'"
  using check_budget_rules_cong [of rs rs'] check_allowances_cong [of as as'] by (auto simp: acceptable_checks)

lemma sort_key_iff:
  assumes "inj_on f (set xs)"
  shows "ys = sort_key f xs \<longleftrightarrow> mset ys = mset xs \<and> sorted (map f ys)"
proof
  assume ys: "mset ys = mset xs \<and> sorted (map f ys)"
  then have "sort_key f ys = sort_key f xs" using assms by (intro sort_key_mset_cong) (metis mset_eq_setD, simp)
  with ys show "ys = sort_key f xs" by (simp add: sort_key_id_if_sorted)
qed simp

lemma acceptable_sorted:
  assumes "acceptable rs as"
  shows "rs' = sort_key budget_rule_id rs \<longleftrightarrow> mset rs' = mset rs \<and> sorted (map budget_rule_id rs')"
    and "as' = sort_key allowance_key as \<longleftrightarrow> mset as' = mset as \<and> sorted (map allowance_key as')"
  using assms by (auto simp only: acceptable_def distinct_map intro!: sort_key_iff allowance_key_inj)

lemma policy_new_iff:
  "BudgetPolicyV1_new json sha rs as = Inr p \<longleftrightarrow>
     acceptable rs as
     \<and> mset (rules p) = mset rs \<and> sorted (map budget_rule_id (rules p))
     \<and> mset (allowances p) = mset as \<and> sorted (map allowance_key (allowances p))
     \<and> (\<exists>bytes. json (1, rules p, allowances p) = Some bytes \<and> policy_digest p = sha bytes \<and> length (sha bytes) = 32)"
proof (cases "acceptable rs as")
  case True
  note sorted = acceptable_sorted(1) [OF True, of "rules p"] acceptable_sorted(2) [OF True, of "allowances p"]
  show ?thesis using True sorted by (cases p) (auto simp: acceptable_checks policy_new_Inr)
qed (auto simp: policy_new_Inr acceptable_checks)

text \<open>
  C36: The policy of a listing of rules and allowances, and when there is one. A listing is accepted exactly when it has a rule,
  rule identifiers, selectors and allowance targets are each unique, every name is non-empty and trimmed, every rule
  sets a limit, and the encoding and a digest of 32 bytes can be had; its policy has the listed rules by
  identifier and the listed allowances by agent and model, with the digest of the encoding of just those two. Two listings
  give the same policy exactly when one is a reordering of the other, in rules and in allowances.
\<close>

theorem policy_canonical:
  "(BudgetPolicyV1_new json sha rs as = Inr p \<longleftrightarrow>
      acceptable rs as
      \<and> mset (rules p) = mset rs \<and> sorted (map budget_rule_id (rules p))
      \<and> mset (allowances p) = mset as \<and> sorted (map allowance_key (allowances p))
      \<and> (\<exists>bytes. json (1, rules p, allowances p) = Some bytes \<and> policy_digest p = sha bytes \<and> length (sha bytes) = 32))
   \<and> (BudgetPolicyV1_new json sha rs as = Inr p \<longrightarrow>
        (BudgetPolicyV1_new json sha rs' as' = Inr p \<longleftrightarrow> mset rs' = mset rs \<and> mset as' = mset as))"
  using acceptable_cong [of rs rs' as as'] by (auto simp: policy_new_iff)

text \<open>Two rules listed in either order, with an encoding of the rule identifiers that a padding digests.\<close>

definition example_rules :: "BudgetRuleV1 list" where
  "example_rules =
     [\<lparr>budget_rule_id = ''b'', selector = EachRequest, limits = \<lparr>limit_turns = Some 2, limit_terminal_tokens = None\<rparr>\<rparr>,
      \<lparr>budget_rule_id = ''a'', selector = UtcDayAgent ''codex'', limits = \<lparr>limit_turns = Some 3, limit_terminal_tokens = None\<rparr>\<rparr>]"

definition rule_ids :: "nat \<times> BudgetRuleV1 list \<times> TurnAllowanceV1 list \<Rightarrow> u8 list option" where
  "rule_ids m = Some (concat (map (str_bytes \<circ> budget_rule_id) (fst (snd m))))"

definition padded :: "u8 list \<Rightarrow> u8 list" where
  "padded bs = take 32 (bs @ replicate 32 0)"

definition example_policy :: BudgetPolicyV1 where
  "example_policy = \<lparr>rules = rev example_rules, allowances = [], policy_digest = padded (str_bytes ''ab'')\<rparr>"

lemma example_policy_new: "BudgetPolicyV1_new rule_ids padded example_rules [] = Inr example_policy"
  by (simp add: BudgetPolicyV1_new_def example_rules_def example_policy_def rule_ids_def padded_def str_bytes_def stable_name_def trim_def trim_end_def
      is_whitespace_def Let_def)

theorem policy_canonical_witness:
  "BudgetPolicyV1_new rule_ids padded (rev example_rules) [] = Inr example_policy
   \<and> BudgetPolicyV1_new rule_ids padded [hd example_rules] [] \<noteq> Inr example_policy"
proof -
  note same = policy_canonical [THEN conjunct2, THEN mp, OF example_policy_new]
  show ?thesis
    using same [of "rev example_rules" "[]"] same [of "[hd example_rules]" "[]"] by (simp add: example_rules_def)
qed

section \<open>Liability\<close>

lemma liability_reconcile_simps [simp]:
  "liability_reconcile l u False i = PendingLiability (max (retained l) (case snap_terminal u of None \<Rightarrow> 0 | Some t \<Rightarrow> total_tokens t))"
  "liability_reconcile l u True True = UnknownLiability (max (retained l) (case snap_terminal u of None \<Rightarrow> 0 | Some t \<Rightarrow> total_tokens t)) InvalidTerminalTokens"
  "snap_terminal u = Some t \<Longrightarrow> liability_reconcile l u True False = Known (total_tokens t)"
  "snap_terminal u = None \<Longrightarrow> liability_reconcile l u True False = UnknownLiability (retained l) MissingTerminalTokens"
  by (simp_all add: liability_reconcile_def max_def split: option.splits)

lemma liability_reconcile_idem:
  "liability_reconcile (liability_reconcile l u fin False) u fin False = liability_reconcile l u fin False"
  by (cases fin; cases "snap_terminal u") simp_all

text \<open>
  The liability of a turn is given up only for evidence. Reconciling against reported usage never retains less than
  before, nor less than the reported total, unless the turn is finalised with a valid terminal total; then that total is the charge.
  While the turn runs the liability stays pending, and a finalised turn without a valid total stays unknown.
\<close>

theorem liability_released_only_by_final_total:
  "(case snap_terminal u of
      Some t \<Rightarrow> (fin \<and> \<not> invalid \<longrightarrow> liability_reconcile l u fin invalid = Known (total_tokens t))
        \<and> (\<not> (fin \<and> \<not> invalid) \<longrightarrow> total_tokens t \<le> retained (liability_reconcile l u fin invalid))
    | None \<Rightarrow> \<forall>n. liability_reconcile l u fin invalid \<noteq> Known n)
   \<and> (retained (liability_reconcile l u fin invalid) < retained l \<longrightarrow>
        fin \<and> \<not> invalid \<and> (\<exists>t. snap_terminal u = Some t \<and> liability_reconcile l u fin invalid = Known (total_tokens t)))
   \<and> ((\<exists>n. liability_reconcile l u fin invalid = PendingLiability n) \<longleftrightarrow> \<not> fin)"
  by (cases fin; cases invalid; cases "snap_terminal u") auto

theorem liability_released_only_by_final_total_witness:
  "liability_reconcile (PendingLiability 50) (UsageSnapshot_default\<lparr>snap_terminal := Some \<lparr>total_tokens = 7,
     input_tokens = 4, output_tokens = 3, thought_tokens = None, cached_read_tokens = None,
     cached_write_tokens = None\<rparr>\<rparr>) True False = Known 7"
  using liability_released_only_by_final_total [where u = "UsageSnapshot_default\<lparr>snap_terminal := Some \<lparr>total_tokens = 7,
     input_tokens = 4, output_tokens = 3, thought_tokens = None, cached_read_tokens = None,
     cached_write_tokens = None\<rparr>\<rparr>" and fin = True and invalid = False and l = "PendingLiability 50"] by simp

end
