(* ===== verification/Budget_Admission.thy ===== *)
theory Budget_Admission
  imports Governance
begin

text \<open>
  The atomic admission of a turn and the reconciliation of its usage by the store (\<open>governance.rs\<close> and the usage
  operations of \<open>sqlite.rs\<close> in \<open>bridge-store\<close>). The database is a record of its tables: the rows in the order of
  insertion, each under its primary key. A transaction that ends in an error is rolled back, so an operation returns
  the error alone. Failures of the database engine, and of the JSON codec on rows that the store itself wrote, are not
  modelled.
\<close>

section \<open>The usage tables\<close>

record Reserved =
  reservation :: BudgetReservationV1
  liability :: BudgetLiabilityV1

text \<open>
  The two governance tables are created together by the first admission: \<open>governance_policy_v1\<close>
  with its single row and \<open>governance_reservations_v1\<close>.
\<close>

record GovernanceTables =
  bound_digest :: "u8 list"
  reservations :: "(string \<times> Reserved) list"

record UsageStore =
  usage_rows :: "(string \<times> UsageAttemptV1) list"
  coverage_started_ms :: int
  governance :: "GovernanceTables option"

definition usage_schema_v1 :: "int \<Rightarrow> UsageStore" where
  "usage_schema_v1 started = \<lparr>usage_rows = [], coverage_started_ms = started, governance = None\<rparr>"

definition refuse :: "BudgetRefusalReasonV1 \<Rightarrow> BridgeError" where
  "refuse reason = BudgetRefused (refusal reason)"

definition owners :: "BudgetContextV1 \<Rightarrow> BudgetCandidateV1 \<Rightarrow> int \<Rightarrow> BudgetScopeOwnerV1 list" where
  "owners context candidate day =
     [ScopeRequest (request context), ScopeUtcDayAgent (candidate_agent candidate) day]
     @ (case workflow_run context of None \<Rightarrow> [] | Some run \<Rightarrow> [ScopeWorkflowRun run])"

fun selects :: "BudgetSelectorV1 \<Rightarrow> BudgetScopeOwnerV1 \<Rightarrow> bool" where
  "selects EachRequest (ScopeRequest _) = True"
| "selects EachWorkflowRun (ScopeWorkflowRun _) = True"
| "selects (UtcDayAgent a) (ScopeUtcDayAgent agent _) \<longleftrightarrow> a = agent"
| "selects _ _ = False"

definition owner_for :: "BudgetRuleV1 \<Rightarrow> BudgetScopeOwnerV1 list \<Rightarrow> BudgetScopeOwnerV1 option" where
  "owner_for rule os = find (selects (selector rule)) os"

fun owner_matches :: "BudgetScopeOwnerV1 \<Rightarrow> UsageAttemptV1 \<Rightarrow> Reserved option \<Rightarrow> bool" where
  "owner_matches (ScopeRequest (Execution ident)) row saved \<longleftrightarrow> attr_execution (attribution row) = Some ident"
| "owner_matches (ScopeWorkflowRun ident) row saved \<longleftrightarrow> attr_execution (attribution row) = Some ident"
| "owner_matches (ScopeUtcDayAgent agent day) row saved \<longleftrightarrow>
     attr_agent (attribution row) = agent
     \<and> ((saved = None \<and> dispatched row \<and> \<not> finalized row)
        \<or> (case saved of None \<Rightarrow> utc_day row | Some r \<Rightarrow> admission_day (reservation r)) = day)"
| "owner_matches _ row saved \<longleftrightarrow> False"

fun liability_settled :: "BudgetLiabilityV1 \<Rightarrow> bool" where
  "liability_settled (PendingLiability _) \<longleftrightarrow> False"
| "liability_settled _ \<longleftrightarrow> True"

text \<open>The reconciliation of a row with its reservation; the flag is the notice of an overrun.\<close>

definition reconcile :: "UsageStore \<Rightarrow> UsageAttemptV1 \<Rightarrow> bool \<times> UsageStore" where
  "reconcile st row =
     (case governance st of
        None \<Rightarrow> (False, st)
      | Some g \<Rightarrow>
          (case map_of (reservations g) (usage_id row) of
             None \<Rightarrow> (False, st)
           | Some saved \<Rightarrow>
               let notice = finalized row \<and> \<not> liability_settled (liability saved)
                     \<and> (case snap_terminal (usage row) of None \<Rightarrow> False
                        | Some t \<Rightarrow> res_terminal_tokens (reservation saved) < total_tokens t)
                     \<and> 0 < res_terminal_tokens (reservation saved);
                   next_liability = liability_reconcile (liability saved) (usage row) (finalized row) False
               in if next_liability = liability saved then (False, st)
                  else (notice,
                    st\<lparr>governance := Some (g\<lparr>reservations :=
                       AList.update (usage_id row) (saved\<lparr>liability := next_liability\<rparr>) (reservations g)\<rparr>)\<rparr>)))"

section \<open>Admission\<close>

text \<open>The turns and tokens that the rows of an owner already use, and whether one of them is unmeasured.\<close>

fun tally ::
  "(string \<Rightarrow> Reserved option) \<Rightarrow> int \<Rightarrow> BudgetRuleV1 \<Rightarrow> BudgetScopeOwnerV1 \<Rightarrow> UsageAttemptV1 list
   \<Rightarrow> u64 \<Rightarrow> u64 \<Rightarrow> bool \<Rightarrow> BridgeError + u64 \<times> u64 \<times> bool" where
  "tally reserved coverage rule own [] used_turns tokens unknown = Inr (used_turns, tokens, unknown)"
| "tally reserved coverage rule own (previous # rows) used_turns tokens unknown =
     (let saved = reserved (usage_id previous) in
      if \<not> owner_matches own previous saved then tally reserved coverage rule own rows used_turns tokens unknown
      else if \<not> dispatched previous then tally reserved coverage rule own rows used_turns tokens unknown
      else if saved = None \<and> usage_started_ms previous < coverage
           \<or> limit_terminal_tokens (limits rule) \<noteq> None \<and> \<not> finalized previous
              \<and> (case saved of None \<Rightarrow> False | Some r \<Rightarrow> res_terminal_tokens (reservation r) = 0)
      then Inl (refuse IncompleteCoverage)
      else case checked_add used_turns 1 of None \<Rightarrow> Inl (refuse Overflow)
      | Some used_turns \<Rightarrow>
        rbind (case saved of
                 Some r \<Rightarrow> Inr (liability_reconcile (liability r) (usage previous) (finalized previous) False)
               | None \<Rightarrow>
                   if \<not> finalized previous then Inl (refuse IncompleteCoverage)
                   else Inr (liability_reconcile (PendingLiability 0) (usage previous) True False)) (\<lambda>l.
        let unknown = (unknown \<or> (case l of UnknownLiability _ _ \<Rightarrow> True | _ \<Rightarrow> False)) in
        if limit_terminal_tokens (limits rule) \<noteq> None then
          (case checked_add tokens (retained l) of
             None \<Rightarrow> Inl (refuse Overflow)
           | Some tokens \<Rightarrow> tally reserved coverage rule own rows used_turns tokens unknown)
        else tally reserved coverage rule own rows used_turns tokens unknown))"

fun check_metrics ::
  "BudgetScopeKeyV1 \<Rightarrow> bool \<Rightarrow> (BudgetMetricV1 \<times> u64 option \<times> u64 \<times> u64) list \<Rightarrow> BridgeError + unit" where
  "check_metrics scope unknown [] = Inr ()"
| "check_metrics scope unknown ((metric, limit, spent, additional) # ms) =
     (case limit of
        None \<Rightarrow> check_metrics scope unknown ms
      | Some l \<Rightarrow>
          rbind (if metric = TerminalTokens \<and> unknown then Inr (Some UnknownMeasurement)
                 else case checked_add spent additional of
                     None \<Rightarrow> Inl (refuse Overflow)
                   | Some t \<Rightarrow> Inr (if l < t then Some LimitExceeded else None)) (\<lambda>reason.
          case reason of
            Some r \<Rightarrow> Inl (BudgetRefused (BudgetRefusalV1 r (Some scope) (Some metric) None))
          | None \<Rightarrow> check_metrics scope unknown ms))"

definition i64_checked_mul :: "int \<Rightarrow> int \<Rightarrow> int option" where
  "i64_checked_mul a b = (let p = a * b in if - (2 ^ 63) \<le> p \<and> p < 2 ^ 63 then Some p else None)"

text \<open>The loop over the rules: the scopes of the rules that have an owner here, if every limit holds.\<close>

fun check_scopes ::
  "(string \<Rightarrow> Reserved option) \<Rightarrow> int \<Rightarrow> UsageAttemptV1 list \<Rightarrow> BudgetScopeOwnerV1 list \<Rightarrow> u64
   \<Rightarrow> BudgetRuleV1 list \<Rightarrow> BridgeError + BudgetScopeKeyV1 list" where
  "check_scopes reserved coverage rows os allowance [] = Inr []"
| "check_scopes reserved coverage rows os allowance (rule # rs) =
     (case owner_for rule os of
        None \<Rightarrow> check_scopes reserved coverage rows os allowance rs
      | Some own \<Rightarrow>
          let scope = \<lparr>rule_id = budget_rule_id rule, owner = own\<rparr> in
          if (case own of
                ScopeUtcDayAgent _ day \<Rightarrow>
                  (case i64_checked_mul day DAY_MS of None \<Rightarrow> True | Some start \<Rightarrow> start < coverage)
              | _ \<Rightarrow> False)
          then Inl (refuse IncompleteCoverage)
          else rbind (tally reserved coverage rule own rows 0 0 False) (\<lambda>(used_turns, tokens, unknown).
               rbind (check_metrics scope unknown
                        [(Turns, limit_turns (limits rule), used_turns, 1),
                         (TerminalTokens, limit_terminal_tokens (limits rule), tokens, allowance)]) (\<lambda>_.
               rbind (check_scopes reserved coverage rows os allowance rs) (\<lambda>scopes. Inr (scope # scopes)))))"

text \<open>The map of the reservations by attempt, and the owners that committed reservations are bound to.\<close>

definition reserved_by_attempt :: "UsageStore \<Rightarrow> string \<Rightarrow> Reserved option" where
  "reserved_by_attempt st =
     map_of (rev (map (\<lambda>(_, r). (res_attempt (reservation r), r))
                   (case governance st of None \<Rightarrow> [] | Some g \<Rightarrow> reservations g)))"

definition bindings :: "UsageStore \<Rightarrow> BudgetScopeOwnerV1 list" where
  "bindings st =
     concat (map (\<lambda>(_, r). map owner (res_scopes (reservation r)))
       (case governance st of None \<Rightarrow> [] | Some g \<Rightarrow> reservations g))"

definition unbound_run :: "BudgetContextV1 \<Rightarrow> BudgetScopeOwnerV1 \<Rightarrow> bool" where
  "unbound_run context binding =
     (case binding of
        ScopeWorkflowRun run \<Rightarrow> request context = Execution run \<and> workflow_run context \<noteq> Some run
      | _ \<Rightarrow> False)"

text \<open>The guard of a bound store without a policy, and the quiescence a change of policy needs.\<close>

definition check_unmanaged ::
  "UsageStore \<Rightarrow> string \<Rightarrow> BudgetContextV1 \<Rightarrow> BudgetCandidateV1 \<Rightarrow> BridgeError + unit" where
  "check_unmanaged st attempt context candidate =
     (case map_of (usage_rows st) attempt of
        None \<Rightarrow> Inl StoreFailure
      | Some row \<Rightarrow>
          if \<not> owner_matches (ScopeRequest (request context)) row None
             \<or> attr_agent (attribution row) \<noteq> candidate_agent candidate
             \<or> attr_effective_model (attribution row) \<noteq> candidate_model candidate
          then Inl (refuse IdentityMismatch) else Inr ())"

definition check_rebinding :: "UsageStore \<Rightarrow> GovernanceTables \<Rightarrow> BudgetPolicyV1 option \<Rightarrow> BridgeError + unit" where
  "check_rebinding st g policy =
     (if map_option policy_digest policy = Some (bound_digest g) then Inr ()
      else if list_ex (\<lambda>(_, r). dispatched r \<and> \<not> finalized r) (usage_rows st)
              \<or> list_ex (\<lambda>(_, r). case liability r of PendingLiability _ \<Rightarrow> True | _ \<Rightarrow> False) (reservations g)
      then Inl (refuse PolicyMismatch)
      else Inr ())"

text \<open>The rows that the history query reads.\<close>

definition row_read ::
  "UsageStore \<Rightarrow> string \<Rightarrow> string option \<Rightarrow> int \<Rightarrow> string \<Rightarrow> string \<times> UsageAttemptV1 \<Rightarrow> bool" where
  "row_read st execution day_agent day attempt = (\<lambda>(ident, r).
        ident = attempt
        \<or> attr_execution (attribution r) = Some execution
        \<or> (day_agent = Some (attr_agent (attribution r))
           \<and> (utc_day r = day \<or> dispatched r \<and> \<not> finalized r))
        \<or> (case governance st of
             None \<Rightarrow> False
           | Some g \<Rightarrow> list_ex (\<lambda>(i, s). i = ident \<and> day_agent = Some (candidate_agent (res_candidate (reservation s)))
                                   \<and> admission_day (reservation s) = day) (reservations g)))"

definition selected_rows ::
  "UsageStore \<Rightarrow> string \<Rightarrow> string option \<Rightarrow> int \<Rightarrow> string \<Rightarrow> UsageAttemptV1 list" where
  "selected_rows st execution day_agent day attempt =
     map snd (filter (row_read st execution day_agent day attempt) (usage_rows st))"

fun owner_scope :: "BudgetScopeOwnerV1 \<Rightarrow> bool" where
  "owner_scope (ScopeUtcDayAgent _ _) = False"
| "owner_scope _ = True"

text \<open>The commit: the tables, the policy binding, the reconciled rows, the reservation and the dispatch.\<close>

definition publish ::
  "UsageStore \<Rightarrow> u8 list \<Rightarrow> UsageAttemptV1 list \<Rightarrow> BudgetReservationV1 \<Rightarrow> UsageAttemptV1 \<Rightarrow> BridgeError + UsageStore" where
  "publish st digest reconciled res row =
     (let st1 = st\<lparr>governance := Some (case governance st of
                     None \<Rightarrow> \<lparr>bound_digest = digest, reservations = []\<rparr>
                   | Some g \<Rightarrow> g\<lparr>bound_digest := digest\<rparr>)\<rparr>;
          st2 = foldl (\<lambda>s r. snd (reconcile s r)) st1 reconciled
      in case governance st2 of
           None \<Rightarrow> Inl StoreFailure
         | Some g \<Rightarrow>
             if res_attempt res \<in> fst ` set (reservations g) then Inl StoreFailure
             else Inr (st2\<lparr>governance := Some (g\<lparr>reservations := reservations g @
                          [(res_attempt res,
                            \<lparr>reservation = res, liability = PendingLiability (res_terminal_tokens res)\<rparr>)]\<rparr>),
                        usage_rows := AList.update (res_attempt res) (row\<lparr>dispatched := True\<rparr>) (usage_rows st2)\<rparr>))"

text \<open>The decision on a row that is the attempt's own and was never dispatched.\<close>

definition grant ::
  "UsageStore \<Rightarrow> BudgetPolicyV1 \<Rightarrow> string \<Rightarrow> BudgetContextV1 \<Rightarrow> BudgetCandidateV1 \<Rightarrow> int
   \<Rightarrow> (UsageAttemptV1 \<Rightarrow> int \<Rightarrow> BridgeError + bool) \<Rightarrow> UsageAttemptV1 list \<Rightarrow> UsageAttemptV1
   \<Rightarrow> BridgeError + BudgetReservationV1 \<times> UsageStore" where
  "grant st policy attempt context candidate now owner_covered rows row =
     (let day = now div DAY_MS; os = owners context candidate day; reserved = reserved_by_attempt st;
          coverage = coverage_started_ms st in
      rbind (case allowance_for policy candidate (workflow_run context \<noteq> None) of
               Inl r \<Rightarrow> Inl (BudgetRefused r)
             | Inr a \<Rightarrow> Inr (case a of None \<Rightarrow> 0 | Some n \<Rightarrow> n)) (\<lambda>allowance.
      rbind (if list_ex (\<lambda>r. case owner_for r os of None \<Rightarrow> False | Some o' \<Rightarrow> owner_scope o') (rules policy)
                \<and> \<not> list_ex (\<lambda>b. b \<in> set os \<and> owner_scope b) (bindings st)
             then owner_covered row coverage else Inr True) (\<lambda>covered.
      if \<not> covered then Inl (refuse IncompleteCoverage)
      else
      rbind (check_scopes reserved coverage rows os allowance (rules policy)) (\<lambda>scopes.
      let res = \<lparr>res_attempt = attempt, res_context = context, res_candidate = candidate,
                 res_policy_digest = policy_digest policy, admitted_ms = now, admission_day = day,
                 res_scopes = scopes, res_turns = 1, res_terminal_tokens = allowance\<rparr>
      in
      rbind (publish st (policy_digest policy)
               (filter (\<lambda>r. list_ex (\<lambda>s. owner_matches (owner s) r (reserved (usage_id r))) scopes) rows) res row) (\<lambda>st'.
      Inr (res, st'))))))"

text \<open>The part of the admission that needs a policy, from the route to the decision on the row.\<close>

definition day_agent_of :: "BudgetPolicyV1 \<Rightarrow> BudgetCandidateV1 \<Rightarrow> string option" where
  "day_agent_of policy candidate =
     (if list_ex (\<lambda>r. selector r = UtcDayAgent (candidate_agent candidate)) (rules policy)
      then Some (candidate_agent candidate) else None)"

definition admit_governed ::
  "UsageStore \<Rightarrow> BudgetPolicyV1 \<Rightarrow> string \<Rightarrow> BudgetContextV1 \<Rightarrow> BudgetCandidateV1 \<Rightarrow> int
   \<Rightarrow> (UsageAttemptV1 \<Rightarrow> int \<Rightarrow> BridgeError + bool) \<Rightarrow> BridgeError + BudgetReservationV1 \<times> UsageStore" where
  "admit_governed st policy attempt context candidate now owner_covered =
     (case request context of
        Batch _ \<Rightarrow> Inl (refuse UnsupportedRoute)
      | Execution execution \<Rightarrow>
          if workflow_run context \<noteq> None \<and> workflow_run context \<noteq> Some execution then Inl (refuse UnsupportedRoute)
          else let rows = selected_rows st execution (day_agent_of policy candidate) (now div DAY_MS) attempt in
          case find (\<lambda>r. usage_id r = attempt) rows of
            None \<Rightarrow> Inl (refuse IdentityMismatch)
          | Some row \<Rightarrow>
              if attr_execution (attribution row) \<noteq> Some execution
                 \<or> attr_agent (attribution row) \<noteq> candidate_agent candidate
                 \<or> attr_effective_model (attribution row) \<noteq> candidate_model candidate
              then Inl (refuse IdentityMismatch)
              else if dispatched row \<or> finalized row \<or> reserved_by_attempt st attempt \<noteq> None
              then Inl (refuse DuplicateAttempt)
              else grant st policy attempt context candidate now owner_covered rows row)"

definition admit ::
  "UsageStore \<Rightarrow> BudgetPolicyV1 option \<Rightarrow> string \<Rightarrow> BudgetContextV1 \<Rightarrow> BudgetCandidateV1 \<Rightarrow> int
   \<Rightarrow> (UsageAttemptV1 \<Rightarrow> int \<Rightarrow> BridgeError + bool) \<Rightarrow> BridgeError + BudgetAdmissionOutcomeV1 \<times> UsageStore" where
  "admit st policy attempt context candidate now owner_covered =
     (if list_ex (unbound_run context) (bindings st) then Inl (refuse IdentityMismatch)
      else
      rbind (if governance st \<noteq> None \<and> policy = None then check_unmanaged st attempt context candidate else Inr ()) (\<lambda>_.
      rbind (case governance st of None \<Rightarrow> Inr () | Some g \<Rightarrow> check_rebinding st g policy) (\<lambda>_.
      case policy of
        None \<Rightarrow> Inr (Ungoverned, st)
      | Some policy \<Rightarrow>
          rbind (admit_governed st policy attempt context candidate now owner_covered) (\<lambda>(res, st').
          Inr (Admitted res, st')))))"

section \<open>The operations of the store\<close>

text \<open>The primary ledger's rows that prove the coverage of a new owner.\<close>

record AttemptSummaryRow =
  ledger_attempt_id :: string
  ledger_execution_id :: string
  ledger_parent_attempt_id :: "string option"
  ledger_ordinal :: int
  ledger_started_ms :: int
  ledger_status :: string
  ledger_prompt_acceptance :: string

definition owner_covered :: "AttemptSummaryRow list \<Rightarrow> UsageAttemptV1 \<Rightarrow> int \<Rightarrow> BridgeError + bool" where
  "owner_covered ledger row coverage =
     Inr (list_ex (\<lambda>l.
        Some (ledger_execution_id l) = attr_execution (attribution row) \<and> ledger_ordinal l = 0
        \<and> ledger_parent_attempt_id l = None
        \<and> (coverage \<le> ledger_started_ms l
           \<or> Some (ledger_attempt_id l) = attr_run_attempt (attribution row) \<and> ledger_status l = ''active''
              \<and> ledger_prompt_acceptance l = ''not_dispatched''
              \<and> length (filter (\<lambda>m. Some (ledger_execution_id m) = attr_execution (attribution row)) ledger) = 1))
       ledger)"

definition admit_usage_attempt_v1 ::
  "AttemptSummaryRow list \<Rightarrow> int \<Rightarrow> UsageStore \<Rightarrow> BudgetPolicyV1 option \<Rightarrow> string \<Rightarrow> BudgetContextV1
   \<Rightarrow> BudgetCandidateV1 \<Rightarrow> BudgetAdmissionOutcomeV1 \<times> UsageStore" where
  "admit_usage_attempt_v1 ledger now st policy attempt context candidate =
     (case admit st policy attempt context candidate now (owner_covered ledger) of
        Inr (outcome, st') \<Rightarrow> (outcome, st')
      | Inl (BudgetRefused r) \<Rightarrow> (Refused r, st)
      | Inl _ \<Rightarrow> (Refused (refusal AccountingUnavailable), st))"

definition start_usage_attempt_v1 :: "UsageStore \<Rightarrow> UsageAttemptV1 \<Rightarrow> BridgeError + UsageStore" where
  "start_usage_attempt_v1 st row =
     rbind (AttemptId_parse (usage_id row)) (\<lambda>_.
     if dispatched row \<or> finalized row \<or> cost_invalid row \<or> usage row \<noteq> UsageSnapshot_default
        \<or> utc_day row \<noteq> usage_started_ms row div DAY_MS
        \<or> (case attr_execution (attribution row) of None \<Rightarrow> True | Some s \<Rightarrow> \<not> is_ok (ExecutionId_parse s))
        \<or> (case attr_run_attempt (attribution row) of None \<Rightarrow> True | Some s \<Rightarrow> \<not> is_ok (AttemptId_parse s))
     then Inl StoreFailure
     else if usage_id row \<in> fst ` set (usage_rows st) then Inl StoreFailure
     else Inr (st\<lparr>usage_rows := usage_rows st @ [(usage_id row, row)]\<rparr>))"

definition update_usage_attempt_v1 ::
  "UsageStore \<Rightarrow> string \<Rightarrow> bool \<Rightarrow> UsageSnapshot option \<Rightarrow> bool \<Rightarrow> BridgeError + bool \<times> UsageStore" where
  "update_usage_attempt_v1 st ident now_dispatched u fin =
     (case map_of (usage_rows st) ident of
        None \<Rightarrow> Inl StoreFailure
      | Some row \<Rightarrow>
          if finalized row then Inr (False, st)
          else let row = row\<lparr>dispatched := dispatched row \<or> now_dispatched\<rparr>;
                   row = (case u of None \<Rightarrow> row | Some s \<Rightarrow> observe_usage row s);
                   row = row\<lparr>finalized := fin\<rparr>;
                   (overrun, st) = reconcile st row
               in Inr (overrun, st\<lparr>usage_rows := AList.update ident row (usage_rows st)\<rparr>))"

definition usage_summary_v1 ::
  "(f64 \<Rightarrow> f64 \<Rightarrow> f64) \<Rightarrow> UsageStore \<Rightarrow> UsageQueryV1 \<Rightarrow> BridgeError + UsageSummaryV1" where
  "usage_summary_v1 fadd st q =
     summarize_v1 fadd (coverage_started_ms st) (map snd (sort_key fst (usage_rows st))) q"

section \<open>What an owner is charged\<close>

text \<open>
  The rows an owner is charged for: the dispatched rows that match it. \<open>turns_used\<close> counts them and
  \<open>tokens_used\<close> adds up the liabilities they retain.
\<close>

definition charged :: "UsageStore \<Rightarrow> BudgetScopeOwnerV1 \<Rightarrow> UsageAttemptV1 \<Rightarrow> bool" where
  "charged st own r \<longleftrightarrow> dispatched r \<and> owner_matches own r (reserved_by_attempt st (usage_id r))"

definition current_liability :: "Reserved option \<Rightarrow> UsageAttemptV1 \<Rightarrow> BudgetLiabilityV1" where
  "current_liability saved r =
     (case saved of
        Some s \<Rightarrow> liability_reconcile (liability s) (usage r) (finalized r) False
      | None \<Rightarrow> liability_reconcile (PendingLiability 0) (usage r) True False)"

definition turns_used :: "UsageStore \<Rightarrow> BudgetScopeOwnerV1 \<Rightarrow> nat" where
  "turns_used st own = (\<Sum>(_, r)\<leftarrow>usage_rows st. if charged st own r then 1 else 0)"

definition tokens_used :: "UsageStore \<Rightarrow> BudgetScopeOwnerV1 \<Rightarrow> nat" where
  "tokens_used st own =
     (\<Sum>(_, r)\<leftarrow>usage_rows st.
        if charged st own r then unat (retained (current_liability (reserved_by_attempt st (usage_id r)) r)) else 0)"

lemma tally_step:
  assumes "tally res cov rule own (r # rows) t0 k0 u0 = Inr x"
    and "dispatched r \<and> owner_matches own r (res (usage_id r))"
  obtains t1 k1 u1 where "tally res cov rule own rows t1 k1 u1 = Inr x" and "checked_add t0 1 = Some t1"
    and "limit_terminal_tokens (limits rule) \<noteq> None \<Longrightarrow>
           checked_add k0 (retained (current_liability (res (usage_id r)) r)) = Some k1"
    and "u1 \<longleftrightarrow> u0 \<or> (\<exists>n w. current_liability (res (usage_id r)) r = UnknownLiability n w)"
proof -
  let ?l = "current_liability (res (usage_id r)) r"
  from assms obtain t1 where t1: "checked_add t0 1 = Some t1"
    and rest: "(let u1 = (u0 \<or> (case ?l of UnknownLiability _ _ \<Rightarrow> True | _ \<Rightarrow> False)) in
        if limit_terminal_tokens (limits rule) \<noteq> None then
          (case checked_add k0 (retained ?l) of None \<Rightarrow> Inl (refuse Overflow)
           | Some k1 \<Rightarrow> tally res cov rule own rows t1 k1 u1)
        else tally res cov rule own rows t1 k0 u1) = Inr x"
    by (auto simp: Let_def rbind_Inr_iff current_liability_def split: option.splits if_splits)
  show thesis
  proof (cases "limit_terminal_tokens (limits rule)")
    case None
    with rest t1 that [of t1 k0] show thesis by (cases ?l) (auto simp: Let_def)
  next
    case (Some l)
    with rest obtain k1 where "checked_add k0 (retained ?l) = Some k1"
      by (auto simp: Let_def split: option.splits)
    with Some rest t1 that [of t1 k1] show thesis by (cases ?l) (auto simp: Let_def)
  qed
qed

lemma tally_exact:
  assumes "tally res cov rule own rows t0 k0 u0 = Inr (t, k, u)"
  shows "unat t = unat t0 + (\<Sum>r\<leftarrow>rows. if dispatched r \<and> owner_matches own r (res (usage_id r)) then 1 else 0)
    \<and> (limit_terminal_tokens (limits rule) \<noteq> None \<longrightarrow>
        unat k = unat k0 + (\<Sum>r\<leftarrow>rows. if dispatched r \<and> owner_matches own r (res (usage_id r))
                              then unat (retained (current_liability (res (usage_id r)) r)) else 0))"
  using assms
proof (induction rows arbitrary: t0 k0 u0)
  case (Cons r rows)
  show ?case
  proof (cases "dispatched r \<and> owner_matches own r (res (usage_id r))")
    case False
    with Cons.prems have "tally res cov rule own rows t0 k0 u0 = Inr (t, k, u)"
      by (auto simp: Let_def split: if_splits)
    from Cons.IH [OF this] False show ?thesis by auto
  next
    case True
    show ?thesis
    proof (rule tally_step [OF Cons.prems True], goal_cases)
      case (1 t1 k1 u1)
      have "unat t1 = unat t0 + 1" using checked_add_SomeD [OF 1(2)] by simp
      with 1 Cons.IH [OF 1(1)] True show ?case by (auto dest!: checked_add_SomeD)
    qed
  qed
qed simp

lemma check_metrics_two:
  assumes "check_metrics scope unknown [(Turns, lt, t, 1), (TerminalTokens, lk, k, a)] = Inr ()"
  shows "(\<forall>l. lt = Some l \<longrightarrow> unat t + 1 \<le> unat l) \<and> (\<forall>l. lk = Some l \<longrightarrow> \<not> unknown \<and> unat k + unat a \<le> unat l)"
  using assms
  by (auto simp: rbind_Inr_iff word_le_nat_alt not_less split: option.splits if_splits dest!: checked_add_SomeD)

text \<open>A successful check of the scopes: every rule with an owner is a scope, and its limits leave room for the turn.\<close>

definition room_for ::
  "(string \<Rightarrow> Reserved option) \<Rightarrow> UsageAttemptV1 list \<Rightarrow> u64 \<Rightarrow> BudgetRuleV1 \<Rightarrow> BudgetScopeOwnerV1 \<Rightarrow> bool" where
  "room_for res rows allowance rule own \<longleftrightarrow>
     (\<forall>l. limit_turns (limits rule) = Some l \<longrightarrow>
        (\<Sum>r\<leftarrow>rows. if dispatched r \<and> owner_matches own r (res (usage_id r)) then 1 else 0) + 1 \<le> unat l)
     \<and> (\<forall>l. limit_terminal_tokens (limits rule) = Some l \<longrightarrow>
        (\<Sum>r\<leftarrow>rows. if dispatched r \<and> owner_matches own r (res (usage_id r))
                   then unat (retained (current_liability (res (usage_id r)) r)) else 0) + unat allowance \<le> unat l)"

lemma check_scopes_ok:
  assumes "check_scopes res cov rows os allowance rs = Inr scopes"
  shows "set scopes = {\<lparr>rule_id = budget_rule_id r, owner = own\<rparr> | r own. r \<in> set rs \<and> owner_for r os = Some own}
    \<and> (\<forall>r\<in>set rs. \<forall>own. owner_for r os = Some own \<longrightarrow> room_for res rows allowance r own)"
  using assms
proof (induction rs arbitrary: scopes)
  case (Cons rule rs)
  show ?case
  proof (cases "owner_for rule os")
    case None
    with Cons show ?thesis by auto
  next
    case (Some own)
    let ?scope = "\<lparr>rule_id = budget_rule_id rule, owner = own\<rparr>"
    from Some Cons.prems obtain t k u scopes' where
      tally: "tally res cov rule own rows 0 0 False = Inr (t, k, u)"
      and metrics: "check_metrics ?scope u [(Turns, limit_turns (limits rule), t, 1),
            (TerminalTokens, limit_terminal_tokens (limits rule), k, allowance)] = Inr ()"
      and rest: "check_scopes res cov rows os allowance rs = Inr scopes'" and scopes: "scopes = ?scope # scopes'"
      by (auto simp: Let_def rbind_Inr_iff simp del: tally.simps check_metrics.simps split: if_splits)
    have "room_for res rows allowance rule own"
      using tally_exact [OF tally] check_metrics_two [OF metrics] by (auto simp: room_for_def)
    with Cons.IH [OF rest] Some scopes show ?thesis by auto
  qed
qed simp

section \<open>Well-formed stores\<close>

lemma map_of_update_same: "map_of al k = Some v \<Longrightarrow> AList.update k v al = al"
  by (induction al) (auto split: if_splits)

lemma sum_update:
  assumes "distinct (map fst al)" and "map_of al k = Some old"
    and "\<And>i x. (i, x) \<in> set al \<Longrightarrow> i \<noteq> k \<Longrightarrow> g x = f x"
  shows "(\<Sum>(_, x)\<leftarrow>AList.update k v al. g x) + f old = (\<Sum>(_, x)\<leftarrow>al. f x) + (g v :: nat)"
  using assms
proof (induction al)
  case (Cons p al)
  show ?case
  proof (cases "fst p = k")
    case True
    with Cons.prems have "\<forall>(i, x)\<in>set al. g x = f x" by (force simp: image_iff)
    then have "(\<Sum>(_, x)\<leftarrow>al. g x) = (\<Sum>(_, x)\<leftarrow>al. f x)" by (intro arg_cong [of _ _ sum_list] map_cong) auto
    with True Cons.prems show ?thesis by (cases p) simp
  next
    case False
    with Cons.prems have "(\<Sum>(_, x)\<leftarrow>AList.update k v al. g x) + f old = (\<Sum>(_, x)\<leftarrow>al. f x) + g v"
      by (intro Cons.IH) (auto split: if_splits)
    with False Cons.prems(3) [of "fst p" "snd p"] show ?thesis by (cases p) simp
  qed
qed simp

lemma sum_update_fresh:
  assumes "distinct (map fst al)" and "map_of al k = Some old" and "f old = (0 :: nat)"
    and "\<And>i x. (i, x) \<in> set al \<Longrightarrow> i \<noteq> k \<Longrightarrow> g x = f x"
  shows "(\<Sum>(_, x)\<leftarrow>AList.update k v al. g x) = (\<Sum>(_, x)\<leftarrow>al. f x) + g v"
proof -
  have "(\<Sum>(_, x)\<leftarrow>AList.update k v al. g x) + f old = (\<Sum>(_, x)\<leftarrow>al. f x) + g v"
    using assms(1,2,4) by (rule sum_update)
  with assms(3) show ?thesis by simp
qed

lemma map_of_rev_distinct: "distinct (map fst xs) \<Longrightarrow> map_of (rev xs) = map_of xs"
  by (subst map_of_inject_set) (simp_all add: rev_map [symmetric])

definition res_table :: "UsageStore \<Rightarrow> (string \<times> Reserved) list" where
  "res_table st = (case governance st of None \<Rightarrow> [] | Some g \<Rightarrow> reservations g)"

definition backed :: "UsageStore \<Rightarrow> string \<Rightarrow> BudgetReservationV1 \<Rightarrow> bool" where
  "backed st ident res \<longleftrightarrow>
     res_attempt res = ident
     \<and> (\<exists>row execution. map_of (usage_rows st) ident = Some row \<and> dispatched row
          \<and> request (res_context res) = Execution execution
          \<and> attr_execution (attribution row) = Some execution
          \<and> attr_agent (attribution row) = candidate_agent (res_candidate res))"

definition store_wf :: "UsageStore \<Rightarrow> bool" where
  "store_wf st \<longleftrightarrow>
     distinct (map fst (usage_rows st)) \<and> (\<forall>(i, r)\<in>set (usage_rows st). usage_id r = i)
     \<and> distinct (map fst (res_table st)) \<and> (\<forall>(i, s)\<in>set (res_table st). backed st i (reservation s))"

lemma store_wf_row:
  assumes "store_wf st" and "(i, r) \<in> set (usage_rows st)"
  shows "usage_id r = i" and "map_of (usage_rows st) i = Some r"
  using assms by (auto simp: store_wf_def)

lemma reserved_by_attempt_eq:
  assumes "store_wf st"
  shows "reserved_by_attempt st = map_of (res_table st)"
proof -
  have "map (\<lambda>(_, r). (res_attempt (reservation r), r)) (res_table st) = res_table st"
    using assms by (auto simp: store_wf_def backed_def intro!: map_idI)
  then show ?thesis
    using assms by (simp add: reserved_by_attempt_def store_wf_def flip: res_table_def) (simp add: map_of_rev_distinct)
qed

lemma res_table_backed:
  assumes "store_wf st" and "map_of (res_table st) i = Some s"
  shows "backed st i (reservation s)"
  using assms by (auto simp: store_wf_def dest: map_of_SomeD)

lemma owner_matches_cong:
  "map_option reservation s = map_option reservation s' \<Longrightarrow> owner_matches own r s = owner_matches own r s'"
  by (cases "(own, r, s)" rule: owner_matches.cases; cases s; cases s') auto

lemma owner_matches_attribution:
  "attribution r = attribution r' \<Longrightarrow> owner_matches own r (Some s) = owner_matches own r' (Some s)"
  by (cases "(own, r, Some s)" rule: owner_matches.cases) auto

subsection \<open>Reconciliation changes liabilities only\<close>

lemma usage_rows_reconcile [simp]: "usage_rows (snd (reconcile st r)) = usage_rows st"
  by (auto simp: reconcile_def Let_def split: option.splits)

lemma coverage_reconcile [simp]: "coverage_started_ms (snd (reconcile st r)) = coverage_started_ms st"
  by (auto simp: reconcile_def Let_def split: option.splits)

lemma bound_digest_reconcile:
  "map_option bound_digest (governance (snd (reconcile st r))) = map_option bound_digest (governance st)"
  by (simp add: reconcile_def Let_def split: option.splits)

lemma res_table_reconcile:
  "res_table (snd (reconcile st r)) =
     (case map_of (res_table st) (usage_id r) of
        None \<Rightarrow> res_table st
      | Some s \<Rightarrow> AList.update (usage_id r)
           (s\<lparr>liability := liability_reconcile (liability s) (usage r) (finalized r) False\<rparr>) (res_table st))"
proof (cases "map_of (res_table st) (usage_id r)")
  case None
  then show ?thesis by (auto simp: reconcile_def res_table_def split: option.splits)
next
  case (Some s)
  then obtain g where g: "governance st = Some g" by (cases "governance st") (auto simp: res_table_def)
  show ?thesis
  proof (cases "liability_reconcile (liability s) (usage r) (finalized r) False = liability s")
    case True
    with Some have "AList.update (usage_id r)
        (s\<lparr>liability := liability_reconcile (liability s) (usage r) (finalized r) False\<rparr>) (res_table st) = res_table st"
      by (simp add: map_of_update_same)
    with True Some g show ?thesis by (simp add: reconcile_def res_table_def Let_def)
  next
    case False
    with Some g show ?thesis by (simp add: reconcile_def res_table_def Let_def)
  qed
qed

text \<open>A store that differs from another only by reconciling some of its rows.\<close>

definition settles :: "UsageStore \<Rightarrow> UsageStore \<Rightarrow> bool" where
  "settles st st' \<longleftrightarrow>
     usage_rows st' = usage_rows st \<and> map fst (res_table st') = map fst (res_table st)
     \<and> (\<forall>i. map_option reservation (map_of (res_table st') i) = map_option reservation (map_of (res_table st) i))
     \<and> (\<forall>(i, r)\<in>set (usage_rows st). current_liability (map_of (res_table st') i) r = current_liability (map_of (res_table st) i) r)"

definition rows_wf :: "UsageStore \<Rightarrow> bool" where
  "rows_wf st \<longleftrightarrow> distinct (map fst (usage_rows st)) \<and> (\<forall>(i, r)\<in>set (usage_rows st). usage_id r = i)"

lemma settles_refl: "settles st st"
  by (simp add: settles_def)

lemma settles_trans: "settles s t \<Longrightarrow> settles t u \<Longrightarrow> settles s u"
  by (simp add: settles_def split_beta)

lemma reconcile_settles:
  assumes "rows_wf st" and row: "(usage_id r, r) \<in> set (usage_rows st)"
  shows "settles st (snd (reconcile st r))"
proof (cases "map_of (res_table st) (usage_id r)")
  case None
  then show ?thesis by (simp add: settles_def res_table_reconcile)
next
  case (Some s)
  then have key: "usage_id r \<in> set (map fst (res_table st))" by (force dest: map_of_SomeD)
  have same: "x = r" if "(usage_id r, x) \<in> set (usage_rows st)" for x
    using that row assms(1) by (auto simp: rows_wf_def dest: eq_key_imp_eq_value)
  have "current_liability (Some (s\<lparr>liability := liability_reconcile (liability s) (usage r) (finalized r) False\<rparr>)) r
      = current_liability (Some s) r"
    by (simp add: current_liability_def liability_reconcile_idem)
  with Some key show ?thesis
    by (auto simp: settles_def res_table_reconcile AList.update_keys AList.update_conv' dest!: same)
qed

lemma foldl_reconcile_settles:
  assumes "rows_wf st" and "\<forall>r\<in>set rs. (usage_id r, r) \<in> set (usage_rows st)" and "settles st s"
  shows "settles st (foldl (\<lambda>s r. snd (reconcile s r)) s rs)"
  using assms(2,3)
proof (induction rs arbitrary: s)
  case (Cons r rs)
  then have "usage_rows s = usage_rows st" by (simp add: settles_def)
  with Cons.prems assms(1) have "settles s (snd (reconcile s r))" by (intro reconcile_settles) (auto simp: rows_wf_def)
  with Cons show ?case by (auto intro: settles_trans)
qed simp

lemma publish_Inr:
  assumes "publish st digest rs res row = Inr st'" and "rows_wf st"
    and "\<forall>r\<in>set rs. (usage_id r, r) \<in> set (usage_rows st)"
  obtains st2 where "settles st st2" and "res_attempt res \<notin> fst ` set (res_table st)"
    and "usage_rows st' = AList.update (res_attempt res) (row\<lparr>dispatched := True\<rparr>) (usage_rows st)"
    and "res_table st' = res_table st2 @ [(res_attempt res, \<lparr>reservation = res, liability = PendingLiability (res_terminal_tokens res)\<rparr>)]"
    and "map_option bound_digest (governance st') = Some digest"
proof -
  define st1 where "st1 = st\<lparr>governance := Some (case governance st of
                     None \<Rightarrow> \<lparr>bound_digest = digest, reservations = []\<rparr>
                   | Some g \<Rightarrow> g\<lparr>bound_digest := digest\<rparr>)\<rparr>"
  define st2 where "st2 = foldl (\<lambda>s r. snd (reconcile s r)) st1 rs"
  have "settles st st1" by (cases "governance st") (simp_all add: st1_def settles_def res_table_def)
  then have settled: "settles st st2" unfolding st2_def using assms(2,3) by (intro foldl_reconcile_settles)
  have "map_option bound_digest (governance (foldl (\<lambda>s r. snd (reconcile s r)) s rs)) = map_option bound_digest (governance s)" for s
    by (induction rs arbitrary: s) (simp_all add: bound_digest_reconcile)
  then have "map_option bound_digest (governance st2) = map_option bound_digest (governance st1)" unfolding st2_def .
  also have "\<dots> = Some digest" by (cases "governance st") (simp_all add: st1_def)
  finally obtain g where g: "governance st2 = Some g" "bound_digest g = digest" by auto
  then have table: "res_table st2 = reservations g" by (simp add: res_table_def)
  have "publish st digest rs res row = (case governance st2 of
           None \<Rightarrow> Inl StoreFailure
         | Some g \<Rightarrow>
             if res_attempt res \<in> fst ` set (reservations g) then Inl StoreFailure
             else Inr (st2\<lparr>governance := Some (g\<lparr>reservations := reservations g @
                          [(res_attempt res,
                            \<lparr>reservation = res, liability = PendingLiability (res_terminal_tokens res)\<rparr>)]\<rparr>),
                        usage_rows := AList.update (res_attempt res) (row\<lparr>dispatched := True\<rparr>) (usage_rows st2)\<rparr>))"
    unfolding publish_def st2_def st1_def Let_def ..
  with assms(1) g(1) have fresh: "res_attempt res \<notin> fst ` set (reservations g)"
    and st': "st' = st2\<lparr>governance := Some (g\<lparr>reservations := reservations g @
                          [(res_attempt res,
                            \<lparr>reservation = res, liability = PendingLiability (res_terminal_tokens res)\<rparr>)]\<rparr>),
                        usage_rows := AList.update (res_attempt res) (row\<lparr>dispatched := True\<rparr>) (usage_rows st2)\<rparr>"
    by (simp_all split: if_splits)
  have keys: "fst ` set (res_table st2) = fst ` set (res_table st)" using settled by (metis list.set_map settles_def)
  have rows: "usage_rows st2 = usage_rows st" using settled by (simp add: settles_def)
  show thesis
  proof (rule that [OF settled])
    show "res_attempt res \<notin> fst ` set (res_table st)" using fresh keys by (simp add: table)
  qed (simp_all add: st' rows table g(2), simp add: res_table_def)
qed

subsection \<open>The effect of an admission\<close>

text \<open>The facts that a granted admission has established.\<close>

lemma admit_Admitted:
  assumes "admit st policy attempt context candidate now covered = Inr (Admitted res, st')"
  obtains p where "policy = Some p" and "\<not> list_ex (unbound_run context) (bindings st)"
    and "admit_governed st p attempt context candidate now covered = Inr (res, st')"
  using assms by (cases policy) (auto simp: admit_def rbind_Inr_iff split: if_splits)

lemma admit_governed_Inr:
  assumes "admit_governed st p attempt context candidate now covered = Inr (res, st')"
  obtains execution rows row where "request context = Execution execution"
    "workflow_run context = None \<or> workflow_run context = Some execution"
    "rows = selected_rows st execution (day_agent_of p candidate) (now div DAY_MS) attempt"
    "row \<in> set rows" "usage_id row = attempt" "\<not> dispatched row" "reserved_by_attempt st attempt = None"
    "attr_execution (attribution row) = Some execution" "attr_agent (attribution row) = candidate_agent candidate"
    "grant st p attempt context candidate now covered rows row = Inr (res, st')"
proof (cases "request context")
  case (Execution execution)
  define rows where "rows = selected_rows st execution (day_agent_of p candidate) (now div DAY_MS) attempt"
  from assms Execution obtain row where "find (\<lambda>r. usage_id r = attempt) rows = Some row"
    by (auto simp: admit_governed_def Let_def rows_def split: if_splits option.splits)
  moreover from this have "row \<in> set rows" "usage_id row = attempt" by (auto simp: find_Some_iff)
  ultimately show thesis using assms Execution
    by (intro that [OF Execution _ rows_def]) (auto simp: admit_governed_def Let_def rows_def split: if_splits)
qed (use assms in \<open>simp add: admit_governed_def\<close>)

lemma grant_Inr:
  assumes "grant st p attempt context candidate now covered rows row = Inr (res, st')"
  obtains allowance scopes where
    "check_scopes (reserved_by_attempt st) (coverage_started_ms st) rows
       (owners context candidate (now div DAY_MS)) allowance (rules p) = Inr scopes"
    "res = \<lparr>res_attempt = attempt, res_context = context, res_candidate = candidate,
            res_policy_digest = policy_digest p, admitted_ms = now, admission_day = now div DAY_MS,
            res_scopes = scopes, res_turns = 1, res_terminal_tokens = allowance\<rparr>"
    "publish st (policy_digest p)
       (filter (\<lambda>r. list_ex (\<lambda>s. owner_matches (owner s) r (reserved_by_attempt st (usage_id r))) scopes) rows) res row = Inr st'"
  using assms unfolding grant_def Let_def by (auto simp only: rbind_Inr_iff if_Inl_Inr_iff prod.inject sum.inject split: if_splits)

lemma store_wf_rows: "store_wf st \<Longrightarrow> rows_wf st"
  by (simp add: store_wf_def rows_wf_def)

lemma selected_rows_mem:
  assumes "rows_wf st" and "r \<in> set (selected_rows st execution day_agent day attempt)"
  shows "(usage_id r, r) \<in> set (usage_rows st)"
  using assms by (auto simp: selected_rows_def rows_wf_def)

text \<open>The history query reads every row that a rule's owner is charged for.\<close>

lemma charged_selected:
  assumes "store_wf st" and "(i, r) \<in> set (usage_rows st)" and "charged st own r"
    and "rule \<in> set (rules p)" and "request context = Execution execution"
    and "workflow_run context = None \<or> workflow_run context = Some execution"
    and "owner_for rule (owners context candidate day) = Some own"
  shows "row_read st execution (day_agent_of p candidate) day attempt (i, r)"
proof -
  have own: "own \<in> set (owners context candidate day)" "selects (selector rule) own"
    using assms(7) by (auto simp: owner_for_def find_Some_iff)
  have id: "usage_id r = i" using assms(1,2) by (rule store_wf_row)
  show ?thesis
  proof (cases own)
    case (ScopeUtcDayAgent agent d)
    with own have d: "d = day" "agent = candidate_agent candidate" by (auto simp: owners_def split: option.splits)
    from own ScopeUtcDayAgent have "selector rule = UtcDayAgent agent" by (cases "selector rule") auto
    with assms(4) d have day_agent: "day_agent_of p candidate = Some agent" by (auto simp: day_agent_of_def list_ex_iff)
    show ?thesis
    proof (cases "map_of (res_table st) i")
      case None
      with assms(1-3) day_agent id ScopeUtcDayAgent d show ?thesis
        by (auto simp: charged_def reserved_by_attempt_eq row_read_def)
    next
      case (Some s)
      with assms(1-3) id ScopeUtcDayAgent d have "attr_agent (attribution r) = agent" "admission_day (reservation s) = day"
        by (auto simp: charged_def reserved_by_attempt_eq)
      moreover from res_table_backed [OF assms(1) Some] store_wf_row(2) [OF assms(1,2)]
      have "attr_agent (attribution r) = candidate_agent (res_candidate (reservation s))" by (auto simp: backed_def)
      moreover from Some obtain g where "governance st = Some g" "(i, s) \<in> set (reservations g)"
        by (cases "governance st") (auto simp: res_table_def dest: map_of_SomeD)
      ultimately show ?thesis using assms(2) day_agent
        by (force simp: row_read_def list_ex_iff)
    qed
  qed (use own assms(3,5,6) in \<open>auto simp: row_read_def owners_def charged_def split: option.splits\<close>)
qed

lemma selected_sum:
  assumes "store_wf st" and "rule \<in> set (rules p)" and "request context = Execution execution"
    and "workflow_run context = None \<or> workflow_run context = Some execution"
    and "owner_for rule (owners context candidate day) = Some own"
  shows "(\<Sum>r\<leftarrow>selected_rows st execution (day_agent_of p candidate) day attempt.
            if dispatched r \<and> owner_matches own r (reserved_by_attempt st (usage_id r)) then f r else (0 :: nat))
       = (\<Sum>(_, r)\<leftarrow>usage_rows st. if charged st own r then f r else 0)"
proof -
  let ?P = "row_read st execution (day_agent_of p candidate) day attempt"
  let ?f = "\<lambda>r. if charged st own r then f r else 0"
  have "(\<Sum>r\<leftarrow>map snd (filter ?P (usage_rows st)). ?f r) = (\<Sum>q\<leftarrow>filter ?P (usage_rows st). ?f (snd q))"
    by (simp add: comp_def)
  also have "\<dots> = (\<Sum>q\<leftarrow>usage_rows st. ?f (snd q))"
    using charged_selected [OF assms(1) _ _ assms(2-5)] by (intro sum_list_map_filter) auto
  finally show ?thesis by (simp add: selected_rows_def charged_def case_prod_unfold comp_def)
qed

text \<open>A published admission charges its owners for one turn and for the allowance, and no other owner.\<close>

lemma publish_charges:
  assumes wf: "store_wf st" and pub: "publish st digest rs res row = Inr st'"
    and rs: "\<forall>r\<in>set rs. (usage_id r, r) \<in> set (usage_rows st)"
    and row: "(res_attempt res, row) \<in> set (usage_rows st)" "usage_id row = res_attempt res" "\<not> dispatched row"
    and wf': "store_wf st'"
    and new: "new = \<lparr>reservation = res, liability = PendingLiability (res_terminal_tokens res)\<rparr>"
  shows "turns_used st' own = turns_used st own + (if owner_matches own row (Some new) then 1 else 0)"
    and "tokens_used st' own = tokens_used st own
           + (if owner_matches own row (Some new) then unat (retained (liability_reconcile (liability new) (usage row) (finalized row) False)) else 0)"
proof -
  obtain st2 where st2: "settles st st2" and fresh: "res_attempt res \<notin> fst ` set (res_table st)"
    and rows': "usage_rows st' = AList.update (res_attempt res) (row\<lparr>dispatched := True\<rparr>) (usage_rows st)"
    and table': "res_table st' = res_table st2 @ [(res_attempt res, new)]"
    using publish_Inr [OF pub store_wf_rows [OF wf] rs] unfolding new by metis
  have keys: "fst ` set (res_table st2) = fst ` set (res_table st)" using st2 by (metis list.set_map settles_def)
  have "res_attempt res \<notin> fst ` set (res_table st2)" using fresh keys by simp
  then have new': "map_of (res_table st') (res_attempt res) = Some new"
    by (simp add: table' map_add_Some_iff map_of_None_iff)
  have old: "map_of (res_table st') i = map_of (res_table st2) i" if "i \<noteq> res_attempt res" for i
    using that by (simp add: table' map_add_def split: option.split)
  note reserved = reserved_by_attempt_eq [OF wf] reserved_by_attempt_eq [OF wf']
  have other: "charged st' own r = charged st own r"
    "current_liability (map_of (res_table st') (usage_id r)) r = current_liability (map_of (res_table st) (usage_id r)) r"
    if ir: "(i, r) \<in> set (usage_rows st)" "i \<noteq> res_attempt res" for i r
  proof -
    have i: "usage_id r = i" using store_wf_row(1) [OF wf ir(1)] .
    have "map_option reservation (map_of (res_table st2) i) = map_option reservation (map_of (res_table st) i)"
      and liable: "current_liability (map_of (res_table st2) i) r = current_liability (map_of (res_table st) i) r"
      using st2 ir(1) by (auto simp: settles_def)
    from owner_matches_cong [OF this(1)] show "charged st' own r = charged st own r"
      by (simp add: charged_def reserved i old [OF ir(2)])
    show "current_liability (map_of (res_table st') (usage_id r)) r = current_liability (map_of (res_table st) (usage_id r)) r"
      using liable by (simp add: i old [OF ir(2)])
  qed
  let ?row = "row\<lparr>dispatched := True\<rparr>"
  have self: "charged st' own ?row = owner_matches own row (Some new)" "\<not> charged st own row"
    using row(2,3) new' owner_matches_attribution [of ?row row own new]
    by (simp_all add: charged_def reserved)
  have dist: "distinct (map fst (usage_rows st))" and at: "map_of (usage_rows st) (res_attempt res) = Some row"
    using wf store_wf_row(2) [OF wf row(1)] by (simp_all add: store_wf_def)
  have "turns_used st' own = turns_used st own + (if charged st' own ?row then 1 else 0)"
    unfolding turns_used_def rows' by (rule sum_update_fresh [OF dist at]) (simp_all add: self(2) other(1))
  then show "turns_used st' own = turns_used st own + (if owner_matches own row (Some new) then 1 else 0)"
    by (simp only: self(1))
  have "tokens_used st' own = tokens_used st own
      + (if charged st' own ?row then unat (retained (current_liability (reserved_by_attempt st' (usage_id ?row)) ?row)) else 0)"
    unfolding tokens_used_def rows' by (rule sum_update_fresh [OF dist at]) (simp_all add: self(2) other reserved)
  then show "tokens_used st' own = tokens_used st own
           + (if owner_matches own row (Some new) then unat (retained (liability_reconcile (liability new) (usage row) (finalized row) False)) else 0)"
    using new' row(2) by (simp add: self(1) reserved current_liability_def)
qed

lemma publish_wf:
  assumes wf: "store_wf st" and pub: "publish st digest rs res row = Inr st'"
    and rs: "\<forall>r\<in>set rs. (usage_id r, r) \<in> set (usage_rows st)"
    and row: "(res_attempt res, row) \<in> set (usage_rows st)"
    and res: "request (res_context res) = Execution execution" "attr_execution (attribution row) = Some execution"
      "attr_agent (attribution row) = candidate_agent (res_candidate res)"
  shows "store_wf st'"
proof -
  let ?new = "\<lparr>reservation = res, liability = PendingLiability (res_terminal_tokens res)\<rparr>"
  obtain st2 where st2: "settles st st2" and fresh: "res_attempt res \<notin> fst ` set (res_table st)"
    and rows': "usage_rows st' = AList.update (res_attempt res) (row\<lparr>dispatched := True\<rparr>) (usage_rows st)"
    and table': "res_table st' = res_table st2 @ [(res_attempt res, ?new)]"
    using publish_Inr [OF pub store_wf_rows [OF wf] rs] by metis
  have dist: "distinct (map fst (res_table st2))" "fst ` set (res_table st2) = fst ` set (res_table st)"
    using st2 wf by (metis settles_def store_wf_def) (use st2 in \<open>metis list.set_map settles_def\<close>)
  have "backed st' i (reservation s)" if "(i, s) \<in> set (res_table st2)" for i s
  proof -
    from that dist(1) have "map_of (res_table st2) i = Some s" by simp
    moreover have "map_option reservation (map_of (res_table st2) i) = map_option reservation (map_of (res_table st) i)"
      using st2 by (simp add: settles_def)
    ultimately obtain s' where "map_of (res_table st) i = Some s'" "reservation s' = reservation s"
      by (cases "map_of (res_table st) i") auto
    with res_table_backed [OF wf this(1)] have "backed st i (reservation s)" by simp
    moreover have "i \<noteq> res_attempt res" using that fresh dist(2) by force
    ultimately show ?thesis by (simp add: backed_def rows' AList.update_conv')
  qed
  moreover have "backed st' (res_attempt res) res"
    using res by (simp add: backed_def rows' AList.update_conv')
  moreover have "usage_id r = i" if "(i, r) \<in> set (usage_rows st')" for i r
    using that set_alist_update [of "res_attempt res" "row\<lparr>dispatched := True\<rparr>" "usage_rows st"] store_wf_row(1) [OF wf] row
    by (auto simp: rows')
  moreover have "distinct (map fst (usage_rows st'))" using wf by (simp add: rows' store_wf_def AList.distinct_update)
  ultimately show ?thesis using fresh dist by (auto simp: store_wf_def table')
qed

lemma admit_governed_publishes:
  assumes wf: "store_wf st" and adm: "admit_governed st p attempt context candidate now covered = Inr (res, st')"
  obtains execution rs row scopes rows allowance where
    "request context = Execution execution" "workflow_run context = None \<or> workflow_run context = Some execution"
    "rows = selected_rows st execution (day_agent_of p candidate) (now div DAY_MS) attempt"
    "check_scopes (reserved_by_attempt st) (coverage_started_ms st) rows
       (owners context candidate (now div DAY_MS)) allowance (rules p) = Inr scopes"
    "res = \<lparr>res_attempt = attempt, res_context = context, res_candidate = candidate,
            res_policy_digest = policy_digest p, admitted_ms = now, admission_day = now div DAY_MS,
            res_scopes = scopes, res_turns = 1, res_terminal_tokens = allowance\<rparr>"
    "publish st (policy_digest p) rs res row = Inr st'" "\<forall>r\<in>set rs. (usage_id r, r) \<in> set (usage_rows st)"
    "(attempt, row) \<in> set (usage_rows st)" "usage_id row = attempt" "\<not> dispatched row" "attempt \<notin> fst ` set (res_table st)"
    "attr_execution (attribution row) = Some execution" "attr_agent (attribution row) = candidate_agent candidate"
    "store_wf st'"
proof (rule admit_governed_Inr [OF adm], goal_cases)
  case (1 execution rows row)
  note row_facts = this
  have member: "(usage_id r, r) \<in> set (usage_rows st)" if "r \<in> set rows" for r
    using selected_rows_mem [OF store_wf_rows [OF wf]] that 1(4) by simp
  have fresh: "attempt \<notin> fst ` set (res_table st)"
    using 1(8) by (simp add: reserved_by_attempt_eq [OF wf] map_of_None_iff)
  show thesis
  proof (rule grant_Inr [OF row_facts(11)], goal_cases)
    case (1 allowance scopes)
    let ?rs = "filter (\<lambda>r. list_ex (\<lambda>s. owner_matches (owner s) r (reserved_by_attempt st (usage_id r))) scopes) rows"
    have rs: "\<forall>r\<in>set ?rs. (usage_id r, r) \<in> set (usage_rows st)" using member by simp
    have row: "(attempt, row) \<in> set (usage_rows st)" using member [OF row_facts(5)] row_facts(6) by simp
    have "store_wf st'"
      by (rule publish_wf [OF wf 1(3) rs]) (use row row_facts in \<open>simp_all add: 1(2)\<close>)
    from that [OF row_facts(2,3,4) 1 rs row row_facts(6,7) fresh row_facts(9,10) this] show thesis .
  qed
qed

section \<open>Histories of the store\<close>

datatype StoreEvent =
    EvStart UsageAttemptV1
  | EvUpdate string bool "UsageSnapshot option" bool
  | EvAdmit "AttemptSummaryRow list" int "BudgetPolicyV1 option" string BudgetContextV1 BudgetCandidateV1

fun store_step :: "UsageStore \<Rightarrow> StoreEvent \<Rightarrow> UsageStore" where
  "store_step st (EvStart row) = (case start_usage_attempt_v1 st row of Inl _ \<Rightarrow> st | Inr st' \<Rightarrow> st')"
| "store_step st (EvUpdate ident d u fin) =
     (case update_usage_attempt_v1 st ident d u fin of Inl _ \<Rightarrow> st | Inr (_, st') \<Rightarrow> st')"
| "store_step st (EvAdmit ledger now policy attempt context candidate) =
     snd (admit_usage_attempt_v1 ledger now st policy attempt context candidate)"

lemma admit_step_cases:
  assumes "admit_usage_attempt_v1 ledger now st policy attempt context candidate = (outcome, st')"
  obtains (granted) p res where "policy = Some p" "outcome = Admitted res" "\<not> list_ex (unbound_run context) (bindings st)"
      "admit_governed st p attempt context candidate now (owner_covered ledger) = Inr (res, st')"
    | (unchanged) "st' = st" "\<forall>res. outcome \<noteq> Admitted res"
proof (cases "admit st policy attempt context candidate now (owner_covered ledger)")
  case (Inl e)
  with assms unchanged show thesis by (cases e) (auto simp: admit_usage_attempt_v1_def)
next
  case (Inr x)
  with assms have adm: "admit st policy attempt context candidate now (owner_covered ledger) = Inr (outcome, st')"
    by (cases x) (simp add: admit_usage_attempt_v1_def)
  show thesis
  proof (cases outcome)
    case (Admitted res)
    with adm have "admit st policy attempt context candidate now (owner_covered ledger) = Inr (Admitted res, st')" by simp
    from admit_Admitted [OF this] Admitted granted show thesis by metis
  next
    case Ungoverned
    with adm unchanged show thesis by (cases policy) (auto simp: admit_def rbind_Inr_iff split: if_splits)
  next
    case (Refused r)
    with adm unchanged show thesis by (cases policy) (auto simp: admit_def rbind_Inr_iff split: if_splits)
  qed
qed

text \<open>An update writes the row back with its identity and its reservation unchanged.\<close>

lemma reconcile_reservations:
  "map fst (res_table (snd (reconcile st r))) = map fst (res_table st)
   \<and> map_option reservation (map_of (res_table (snd (reconcile st r))) i) = map_option reservation (map_of (res_table st) i)"
proof (cases "map_of (res_table st) (usage_id r)")
  case (Some s)
  then have "usage_id r \<in> set (map fst (res_table st))" by (force dest: map_of_SomeD)
  with Some show ?thesis by (simp add: res_table_reconcile AList.update_keys AList.update_conv')
qed (simp add: res_table_reconcile)

lemma update_Inr:
  assumes "update_usage_attempt_v1 st ident d u fin = Inr (overrun, st')"
  obtains (final) "st' = st"
    | (written) row row' where "map_of (usage_rows st) ident = Some row" "usage_id row' = usage_id row"
        "attribution row' = attribution row" "dispatched row' \<longleftrightarrow> dispatched row \<or> d"
        "usage_rows st' = AList.update ident row' (usage_rows st)" "map fst (res_table st') = map fst (res_table st)"
        "\<forall>i. map_option reservation (map_of (res_table st') i) = map_option reservation (map_of (res_table st) i)"
proof (cases "map_of (usage_rows st) ident")
  case (Some row)
  define row1 where "row1 = (case u of None \<Rightarrow> row\<lparr>dispatched := dispatched row \<or> d\<rparr>
    | Some s \<Rightarrow> observe_usage (row\<lparr>dispatched := dispatched row \<or> d\<rparr>) s)\<lparr>finalized := fin\<rparr>"
  have row1: "usage_id row1 = usage_id row" "attribution row1 = attribution row" "dispatched row1 \<longleftrightarrow> dispatched row \<or> d"
    by (cases u; simp add: row1_def observe_usage_simps)+
  show thesis
  proof (cases "finalized row")
    case True
    with assms Some final show thesis by (simp add: update_usage_attempt_v1_def)
  next
    case False
    with assms Some have "st' = (snd (reconcile st row1))\<lparr>usage_rows := AList.update ident row1 (usage_rows (snd (reconcile st row1)))\<rparr>"
      by (cases "reconcile st row1") (simp add: update_usage_attempt_v1_def Let_def row1_def)
    then have "usage_rows st' = AList.update ident row1 (usage_rows st)" "res_table st' = res_table (snd (reconcile st row1))"
      by (simp_all add: res_table_def)
    with written [OF Some row1] reconcile_reservations show thesis by metis
  qed
qed (use assms in \<open>simp add: update_usage_attempt_v1_def\<close>)

lemma update_wf:
  assumes "update_usage_attempt_v1 st ident d u fin = Inr (overrun, st')" and wf: "store_wf st"
  shows "store_wf st'"
  using assms(1)
proof (cases rule: update_Inr)
  case (written row row')
  have "backed st' i (reservation s)" if "(i, s) \<in> set (res_table st')" for i s
  proof -
    have "distinct (map fst (res_table st'))" using wf written(6) by (simp add: store_wf_def)
    with that have "map_of (res_table st') i = Some s" by simp
    with written(7) obtain s' where "map_of (res_table st) i = Some s'" "reservation s' = reservation s"
      by (metis (no_types, lifting) map_option_eq_Some)
    with res_table_backed [OF wf this(1)] have "backed st i (reservation s)" by simp
    then show ?thesis using written by (auto simp: backed_def AList.update_conv')
  qed
  moreover have "usage_id r = i" if "(i, r) \<in> set (usage_rows st')" for i r
    using that set_alist_update [of ident row' "usage_rows st"] store_wf_row(1) [OF wf] written
    by (auto dest: map_of_SomeD)
  moreover have "distinct (map fst (usage_rows st'))"
    using wf written(5) by (simp add: store_wf_def AList.distinct_update)
  ultimately show ?thesis using wf written(6) by (auto simp: store_wf_def)
qed (use wf in simp)

lemma start_Inr:
  assumes "start_usage_attempt_v1 st row = Inr st'"
  shows "st' = st\<lparr>usage_rows := usage_rows st @ [(usage_id row, row)]\<rparr>" and "usage_id row \<notin> fst ` set (usage_rows st)"
    and "\<not> dispatched row"
  using assms by (auto simp: start_usage_attempt_v1_def rbind_Inr_iff split: if_splits)

lemma start_table: "start_usage_attempt_v1 st row = Inr st' \<Longrightarrow> res_table st' = res_table st"
  by (drule start_Inr(1)) (simp add: res_table_def)

lemma start_wf:
  assumes "start_usage_attempt_v1 st row = Inr st'" and "store_wf st"
  shows "store_wf st'"
proof -
  note st' = start_Inr [OF assms(1)]
  note table = start_table [OF assms(1)]
  have "backed st' i res" if "backed st i res" for i res
    using that st'(2) by (auto simp: backed_def st'(1) map_add_Some_iff map_of_None_iff dest: map_of_Some_mem)
  moreover have "distinct (map fst (usage_rows st')) \<and> (\<forall>(i, r)\<in>set (usage_rows st'). usage_id r = i)"
    using st'(2) assms(2) by (auto simp: st'(1) store_wf_def)
  ultimately show ?thesis using assms(2) unfolding store_wf_def table by auto
qed

lemma store_step_wf: "store_wf st \<Longrightarrow> store_wf (store_step st e)"
proof (cases e)
  case (EvAdmit ledger now policy attempt ctx candidate)
  assume wf: "store_wf st"
  obtain outcome st' where adm: "admit_usage_attempt_v1 ledger now st policy attempt ctx candidate = (outcome, st')"
    by fastforce
  then have "store_wf st'"
  proof (cases rule: admit_step_cases)
    case (granted p res)
    show ?thesis by (rule admit_governed_publishes [OF wf granted(4)])
  qed (use wf in simp)
  with adm EvAdmit show ?thesis by simp
qed (auto split: sum.split intro: start_wf update_wf)

interpretation store_machine: event_machine store_step store_wf
  by unfold_locales (rule store_step_wf)

lemma store_wf_initial: "store_wf (usage_schema_v1 started)"
  by (simp add: store_wf_def usage_schema_v1_def res_table_def)

lemmas store_wf_reachable = store_machine.inv_run [OF store_wf_initial]

lemma admit_governed_room:
  assumes "store_wf st" and "admit_governed st p attempt ctx candidate now covered = Inr (res, st')"
    and "rule \<in> set (rules p)" and "owner_for rule (owners ctx candidate (now div DAY_MS)) = Some own"
  shows "\<forall>l. limit_turns (limits rule) = Some l \<longrightarrow> turns_used st own + 1 \<le> unat l"
    and "\<forall>l. limit_terminal_tokens (limits rule) = Some l \<longrightarrow> tokens_used st own + unat (res_terminal_tokens res) \<le> unat l"
proof -
  have "(\<forall>l. limit_turns (limits rule) = Some l \<longrightarrow> turns_used st own + 1 \<le> unat l)
    \<and> (\<forall>l. limit_terminal_tokens (limits rule) = Some l \<longrightarrow> tokens_used st own + unat (res_terminal_tokens res) \<le> unat l)"
  proof (rule admit_governed_publishes [OF assms(1,2)], goal_cases)
    case (1 execution rs row scopes rows allowance)
    from check_scopes_ok [OF 1(4)] assms(3,4)
    have "room_for (reserved_by_attempt st) rows allowance rule own" by blast
    then show ?case
      unfolding room_for_def 1(3) selected_sum [OF assms(1,3) 1(1,2) assms(4)]
      by (simp add: turns_used_def tokens_used_def 1(5))
  qed
  then show "\<forall>l. limit_turns (limits rule) = Some l \<longrightarrow> turns_used st own + 1 \<le> unat l"
    and "\<forall>l. limit_terminal_tokens (limits rule) = Some l \<longrightarrow> tokens_used st own + unat (res_terminal_tokens res) \<le> unat l"
    by blast+
qed

lemma owner_for_member:
  assumes "owner_for rule (owners ctx candidate day) = Some own"
  shows "selects (selector rule) own" and "own \<in> set (owners ctx candidate day)"
  using assms by (auto simp: owner_for_def find_Some_iff)

text \<open>The turns of every owner after an admission.\<close>

lemma admit_governed_turns:
  assumes "store_wf st" and "admit_governed st p attempt ctx candidate now covered = Inr (res, st')"
  obtains execution row new where "request ctx = Execution execution" "workflow_run ctx = None \<or> workflow_run ctx = Some execution"
    "attr_execution (attribution row) = Some execution" "attr_agent (attribution row) = candidate_agent candidate"
    "admission_day (reservation new) = now div DAY_MS" "reservation new = res" "res_attempt res = attempt"
    "\<And>own. turns_used st' own = turns_used st own + (if owner_matches own row (Some new) then 1 else 0)"
    "set (res_scopes res) = {\<lparr>rule_id = budget_rule_id r, owner = own\<rparr> | r own.
        r \<in> set (rules p) \<and> owner_for r (owners ctx candidate (now div DAY_MS)) = Some own}"
    "usage_rows st' = AList.update attempt (row\<lparr>dispatched := True\<rparr>) (usage_rows st)"
    "\<And>i s. (i, s) \<in> set (res_table st') \<Longrightarrow> (i, s) = (attempt, new) \<or> (\<exists>s'. (i, s') \<in> set (res_table st) \<and> reservation s' = reservation s)"
    "fst ` set (res_table st') = insert attempt (fst ` set (res_table st))" "store_wf st'"
proof (rule admit_governed_publishes [OF assms], goal_cases)
  case (1 execution rs row scopes rows allowance)
  let ?new = "\<lparr>reservation = res, liability = PendingLiability (res_terminal_tokens res)\<rparr>"
  have attempt: "res_attempt res = attempt" by (simp add: 1(6))
  obtain st2 where st2: "settles st st2" "res_attempt res \<notin> fst ` set (res_table st)"
    and rows': "usage_rows st' = AList.update (res_attempt res) (row\<lparr>dispatched := True\<rparr>) (usage_rows st)"
    and table': "res_table st' = res_table st2 @ [(res_attempt res, ?new)]"
    using publish_Inr [OF 1(7) store_wf_rows [OF assms(1)] 1(8)] by metis
  have keys: "fst ` set (res_table st2) = fst ` set (res_table st)" using st2(1) by (metis list.set_map settles_def)
  have dist: "distinct (map fst (res_table st2))" using st2(1) assms(1) by (metis settles_def store_wf_def)
  have old: "\<exists>s'. (i, s') \<in> set (res_table st) \<and> reservation s' = reservation s" if "(i, s) \<in> set (res_table st2)" for i s
  proof -
    have "map_of (res_table st2) i = Some s" using that dist by simp
    moreover have "map_option reservation (map_of (res_table st2) i) = map_option reservation (map_of (res_table st) i)"
      using st2(1) by (simp add: settles_def)
    ultimately obtain s' where "map_of (res_table st) i = Some s'" "reservation s' = reservation s"
      by (cases "map_of (res_table st) i") auto
    then show ?thesis by (auto dest: map_of_SomeD)
  qed
  show thesis
  proof (rule that [where row = row and new = ?new, OF 1(2,3,13,14)], goal_cases)
    case (4 own)
    show ?case
      by (rule publish_charges(1) [OF assms(1) 1(7,8)]) (use 1 in \<open>simp_all add: attempt\<close>)
  next
    case 5
    show ?case using check_scopes_ok [OF 1(5)] by (simp add: 1(6))
  next
    case (7 i s)
    then show ?case using old by (auto simp: table' attempt)
  qed (use 1(15) in \<open>simp_all add: 1(6) rows' table' keys attempt\<close>)
qed

text \<open>
  C17: Whatever the store went through before, starts and updates of any rows and admissions under any policies, an
  admission that is granted keeps every applicable limit: for each rule of the policy that has an owner in this request,
  the turns charged to that owner afterwards do not exceed the rule's turn limit, and what the owner's turns already
  retain in tokens together with the new allowance does not exceed its token limit. The history query of the
  admission misses no charged row.
\<close>

theorem admission_within_limits:
  assumes "st = foldl store_step (usage_schema_v1 started) es"
    and "admit_usage_attempt_v1 ledger now st (Some p) attempt ctx candidate = (Admitted res, st')"
    and "rule \<in> set (rules p)" and "owner_for rule (owners ctx candidate (now div DAY_MS)) = Some own"
  shows "(\<forall>l. limit_turns (limits rule) = Some l \<longrightarrow> turns_used st' own \<le> unat l)
       \<and> (\<forall>l. limit_terminal_tokens (limits rule) = Some l \<longrightarrow>
            tokens_used st own + unat (res_terminal_tokens res) \<le> unat l)"
proof -
  have wf: "store_wf st" unfolding assms(1) by (rule store_wf_reachable)
  have adm: "admit_governed st p attempt ctx candidate now (owner_covered ledger) = Inr (res, st')"
    using assms(2) by (cases rule: admit_step_cases) auto
  have "turns_used st' own \<le> turns_used st own + 1"
    by (rule admit_governed_turns [OF wf adm]) simp
  with admit_governed_room [OF wf adm assms(3,4)] show ?thesis by (meson le_trans)
qed

lemma reserved_step:
  assumes "store_wf st \<and> attempt \<in> fst ` set (res_table st)"
  shows "store_wf (store_step st e) \<and> attempt \<in> fst ` set (res_table (store_step st e))"
proof
  show "store_wf (store_step st e)" using assms by (simp add: store_step_wf)
  show "attempt \<in> fst ` set (res_table (store_step st e))"
  proof (cases e)
    case (EvStart row)
    with assms show ?thesis by (auto simp: start_table split: sum.split)
  next
    case (EvUpdate i d u f)
    have "fst ` set (res_table st') = fst ` set (res_table st)" if "update_usage_attempt_v1 st i d u f = Inr (o', st')" for o' st'
      using that by (cases rule: update_Inr) (simp, metis list.set_map)
    with assms EvUpdate show ?thesis by (auto split: sum.split)
  next
    case (EvAdmit ledger now policy a ctx candidate)
    obtain outcome st' where adm: "admit_usage_attempt_v1 ledger now st policy a ctx candidate = (outcome, st')" by fastforce
    then have "attempt \<in> fst ` set (res_table st')"
    proof (cases rule: admit_step_cases)
      case (granted p res)
      from assms have "store_wf st" by simp
      from admit_governed_turns [OF this granted(4)] have "fst ` set (res_table st') = insert a (fst ` set (res_table st))" by metis
      with assms show ?thesis by simp
    qed (use assms in simp)
    with adm EvAdmit show ?thesis by simp
  qed
qed

interpretation reserved_machine: event_machine store_step "\<lambda>st. store_wf st \<and> attempt \<in> fst ` set (res_table st)" for attempt
  by unfold_locales (rule reserved_step)

text \<open>
  C18: An attempt is admitted at most once. After an admission was granted, no sequence of operations on the store
  leads to a second admission of the same attempt, under whatever policy, context or candidate.
\<close>

theorem attempt_admitted_once:
  assumes "st = foldl store_step (usage_schema_v1 started) before"
    and "admit_usage_attempt_v1 ledger now st policy attempt ctx candidate = (Admitted res, st1)"
    and "st2 = foldl store_step st1 afterwards"
  shows "fst (admit_usage_attempt_v1 ledger' now' st2 policy' attempt ctx' candidate') \<noteq> Admitted res'"
proof
  assume again: "fst (admit_usage_attempt_v1 ledger' now' st2 policy' attempt ctx' candidate') = Admitted res'"
  have wf: "store_wf st" unfolding assms(1) by (rule store_wf_reachable)
  obtain p where "admit_governed st p attempt ctx candidate now (owner_covered ledger) = Inr (res, st1)"
    using assms(2) by (cases rule: admit_step_cases) auto
  from admit_governed_turns [OF wf this] have "store_wf st1 \<and> attempt \<in> fst ` set (res_table st1)" by (metis insertI1)
  then have held: "store_wf st2 \<and> attempt \<in> fst ` set (res_table st2)"
    unfolding assms(3) by (rule reserved_machine.inv_run)
  obtain st3 where "admit_usage_attempt_v1 ledger' now' st2 policy' attempt ctx' candidate' = (Admitted res', st3)"
    using again by (metis prod.collapse)
  then obtain p' where "admit_governed st2 p' attempt ctx' candidate' now' (owner_covered ledger') = Inr (res', st3)"
    by (cases rule: admit_step_cases) auto
  then have "attempt \<notin> fst ` set (res_table st2)"
    using held by (elim admit_governed_publishes [rotated]) simp_all
  with held show False by simp
qed

subsection \<open>The turn budget over a whole history\<close>

text \<open>
  A history governed by one policy: every admission is made under it, and rows become dispatched by admission only.
\<close>

fun governed :: "BudgetPolicyV1 \<Rightarrow> StoreEvent \<Rightarrow> bool" where
  "governed p (EvStart _) \<longleftrightarrow> True"
| "governed p (EvUpdate _ d _ _) \<longleftrightarrow> \<not> d"
| "governed p (EvAdmit _ _ policy _ _ _) \<longleftrightarrow> policy = Some p"

definition within :: "BudgetPolicyV1 \<Rightarrow> UsageStore \<Rightarrow> BudgetScopeKeyV1 \<Rightarrow> bool" where
  "within p st scope \<longleftrightarrow>
     (\<forall>rule\<in>set (rules p). budget_rule_id rule = rule_id scope \<longrightarrow>
        selects (selector rule) (owner scope)
        \<and> (\<forall>l. limit_turns (limits rule) = Some l \<longrightarrow> turns_used st (owner scope) \<le> unat l))"

definition turns_inv :: "BudgetPolicyV1 \<Rightarrow> UsageStore \<Rightarrow> bool" where
  "turns_inv p st \<longleftrightarrow>
     store_wf st
     \<and> (\<forall>(i, r)\<in>set (usage_rows st). dispatched r \<longrightarrow> i \<in> fst ` set (res_table st))
     \<and> (\<forall>(i, s)\<in>set (res_table st). \<forall>scope\<in>set (res_scopes (reservation s)). within p st scope)"

text \<open>A start or an update changes no owner's turns.\<close>

lemma turns_used_start:
  assumes "start_usage_attempt_v1 st row = Inr st'" and "store_wf st"
  shows "turns_used st' own = turns_used st own"
proof -
  have "reserved_by_attempt st' = reserved_by_attempt st"
    using start_wf [OF assms] assms(2) start_table [OF assms(1)] by (simp add: reserved_by_attempt_eq)
  then show ?thesis using start_Inr [OF assms(1)] by (simp add: turns_used_def charged_def)
qed

lemma turns_used_update:
  assumes upd: "update_usage_attempt_v1 st ident False u fin = Inr (overrun, st')" and wf: "store_wf st"
    and disp: "\<forall>(i, r)\<in>set (usage_rows st). dispatched r \<longrightarrow> i \<in> fst ` set (res_table st)"
  shows "turns_used st' own = turns_used st own"
  using upd
proof (cases rule: update_Inr)
  case (written row row')
  have row: "(ident, row) \<in> set (usage_rows st)" "usage_id row = ident" "usage_id row' = ident"
    using written(1,2) store_wf_row(1) [OF wf] by (auto dest: map_of_SomeD)
  note reserved = reserved_by_attempt_eq [OF wf] reserved_by_attempt_eq [OF update_wf [OF upd wf]]
  have same: "owner_matches own r (map_of (res_table st') i) = owner_matches own r (map_of (res_table st) i)" for r i
    by (rule owner_matches_cong) (simp add: written(7))
  have "charged st' own row' = charged st own row"
  proof (cases "dispatched row")
    case True
    with disp row(1) obtain s where "map_of (res_table st) ident = Some s"
      by (cases "map_of (res_table st) ident") (auto simp: map_of_None_iff)
    with True written(3,4) row(2,3) show ?thesis
      by (simp add: charged_def reserved same owner_matches_attribution [of row' row])
  qed (use written(4) in \<open>simp add: charged_def\<close>)
  moreover have "turns_used st' own + (if charged st own row then 1 else 0)
      = turns_used st own + (if charged st' own row' then 1 else 0)"
    unfolding turns_used_def written(5)
    by (rule sum_update [OF _ written(1)]) (use wf same in \<open>auto simp: store_wf_def charged_def reserved\<close>)
  ultimately show ?thesis by simp
qed simp

text \<open>A bound owner that the new turn is charged to is one of the owners the admission checked.\<close>

lemma charged_owner_checked:
  assumes "request ctx = Execution execution" and "attr_execution (attribution row) = Some execution"
    and "attr_agent (attribution row) = candidate_agent candidate" and "admission_day (reservation new) = day"
    and "owner_matches own row (Some new)" and "selects (selector rule) own"
    and "own \<in> set (bindings st)" and "\<not> list_ex (unbound_run ctx) (bindings st)"
  shows "owner_for rule (owners ctx candidate day) = Some own"
proof (cases own)
  case (ScopeRequest rq)
  with assms(1,2,5,6) show ?thesis by (cases rq; cases "selector rule") (auto simp: owner_for_def owners_def)
next
  case (ScopeWorkflowRun run)
  with assms(2,5) have "run = execution" by simp
  moreover from this ScopeWorkflowRun assms(1,7,8) have "workflow_run ctx = Some execution"
    by (auto simp: list_ex_iff unbound_run_def)
  ultimately show ?thesis using ScopeWorkflowRun assms(6) by (cases "selector rule") (auto simp: owner_for_def owners_def)
next
  case (ScopeUtcDayAgent agent d)
  with assms(3-6) show ?thesis by (cases "selector rule") (auto simp: owner_for_def owners_def)
qed

lemma bindings_mem:
  "(i, s) \<in> set (res_table st) \<Longrightarrow> scope \<in> set (res_scopes (reservation s)) \<Longrightarrow> owner scope \<in> set (bindings st)"
  by (force simp: bindings_def res_table_def)

lemma within_after_turn:
  assumes st: "within p st scope" and own: "owner scope \<in> set (bindings st)" "\<not> list_ex (unbound_run ctx) (bindings st)"
    and row: "request ctx = Execution execution" "attr_execution (attribution row) = Some execution"
      "attr_agent (attribution row) = candidate_agent candidate" "admission_day (reservation new) = day"
    and used: "turns_used st' (owner scope) = turns_used st (owner scope) + (if owner_matches (owner scope) row (Some new) then 1 else 0)"
    and room: "\<And>rule. rule \<in> set (rules p) \<Longrightarrow> owner_for rule (owners ctx candidate day) = Some (owner scope) \<Longrightarrow>
      \<forall>l. limit_turns (limits rule) = Some l \<longrightarrow> turns_used st (owner scope) + 1 \<le> unat l"
  shows "within p st' scope"
proof -
  have "turns_used st' (owner scope) \<le> unat l"
    if rule: "rule \<in> set (rules p)" "budget_rule_id rule = rule_id scope" "limit_turns (limits rule) = Some l" for rule l
  proof (cases "owner_matches (owner scope) row (Some new)")
    case True
    have "selects (selector rule) (owner scope)" using st rule by (auto simp: within_def)
    from charged_owner_checked [OF row True this own]
    have "owner_for rule (owners ctx candidate day) = Some (owner scope)" .
    from room [OF rule(1) this] rule(3) True show ?thesis by (simp add: used)
  next
    case False
    with st rule used show ?thesis by (auto simp: within_def)
  qed
  with st show ?thesis by (auto simp: within_def)
qed

lemma turns_inv_admit:
  assumes inv: "turns_inv p st" and ids: "distinct (map budget_rule_id (rules p))"
    and bound: "\<not> list_ex (unbound_run ctx) (bindings st)"
    and adm: "admit_governed st p attempt ctx candidate now covered = Inr (res, st')"
  shows "turns_inv p st'"
proof -
  have wf: "store_wf st" using inv by (simp add: turns_inv_def)
  note room = admit_governed_room(1) [OF wf adm]
  show ?thesis
  proof (rule admit_governed_turns [OF wf adm], goal_cases)
    case (1 execution row new)
    have old: "within p st' scope" if mem: "(i, s) \<in> set (res_table st)" "scope \<in> set (res_scopes (reservation s))" for i s scope
      using inv mem by (intro within_after_turn [OF _ bindings_mem [OF mem] bound 1(1,3,4,5,8) room]) (auto simp: turns_inv_def)
    have new: "within p st' scope" if "scope \<in> set (res_scopes res)" for scope
    proof -
      from that 1(9) obtain r own where scope: "scope = \<lparr>rule_id = budget_rule_id r, owner = own\<rparr>"
        and r: "r \<in> set (rules p)" "owner_for r (owners ctx candidate (now div DAY_MS)) = Some own" by auto
      have "rule = r" if "rule \<in> set (rules p)" "budget_rule_id rule = budget_rule_id r" for rule
        using that r(1) ids by (auto simp: distinct_map dest: inj_onD)
      with room [OF r] owner_for_member(1) [OF r(2)] 1(8) [of own] show ?thesis
        by (fastforce simp: within_def scope split: if_splits)
    qed
    have "i \<in> fst ` set (res_table st')" if "(i, r) \<in> set (usage_rows st')" "dispatched r" for i r
      using that inv set_alist_update [of attempt "row\<lparr>dispatched := True\<rparr>" "usage_rows st"]
      by (auto simp: 1(10,12) turns_inv_def)
    moreover have "within p st' scope" if "(i, s) \<in> set (res_table st')" "scope \<in> set (res_scopes (reservation s))" for i s scope
      using 1(11) [OF that(1)] that(2) new old 1(6) by (metis prod.inject)
    ultimately show ?thesis using 1(13) by (auto simp: turns_inv_def)
  qed
qed

lemma within_turns_cong: "(\<And>own. turns_used st' own = turns_used st own) \<Longrightarrow> within p st' scope = within p st scope"
  by (simp add: within_def)

lemma turns_inv_start:
  assumes "turns_inv p st" and "start_usage_attempt_v1 st row = Inr st'"
  shows "turns_inv p st'"
proof -
  have wf: "store_wf st" using assms(1) by (simp add: turns_inv_def)
  note start = start_Inr [OF assms(2)] start_table [OF assms(2)] start_wf [OF assms(2) wf]
  have "within p st' scope = within p st scope" for scope
    by (rule within_turns_cong) (rule turns_used_start [OF assms(2) wf])
  with assms(1) start show ?thesis by (auto simp: turns_inv_def)
qed

lemma turns_inv_update:
  assumes inv: "turns_inv p st" and upd: "update_usage_attempt_v1 st ident False u fin = Inr (overrun, st')"
  shows "turns_inv p st'"
proof -
  have wf: "store_wf st" and disp: "\<forall>(i, r)\<in>set (usage_rows st). dispatched r \<longrightarrow> i \<in> fst ` set (res_table st)"
    using inv by (simp_all add: turns_inv_def)
  have same: "within p st' scope = within p st scope" for scope
    by (rule within_turns_cong) (rule turns_used_update [OF upd wf disp])
  note wf' = update_wf [OF upd wf]
  from upd show ?thesis
  proof (cases rule: update_Inr)
    case (written row row')
    have keys: "fst ` set (res_table st') = fst ` set (res_table st)" using written(6) by (metis list.set_map)
    have row: "(ident, row) \<in> set (usage_rows st)" using written(1) by (rule map_of_SomeD)
    have "i \<in> fst ` set (res_table st')" if "(i, r) \<in> set (usage_rows st')" "dispatched r" for i r
      using that disp row written(4) set_alist_update [of ident row' "usage_rows st"] by (auto simp: keys written(5))
    moreover have "within p st' scope" if "(i, s) \<in> set (res_table st')" "scope \<in> set (res_scopes (reservation s))" for i s scope
    proof -
      have "map_of (res_table st') i = Some s" using that(1) wf' by (simp add: store_wf_def)
      with written(7) obtain s' where "map_of (res_table st) i = Some s'" "reservation s' = reservation s"
        by (metis (no_types, lifting) map_option_eq_Some)
      then have "(i, s') \<in> set (res_table st)" "scope \<in> set (res_scopes (reservation s'))"
        using that(2) by (auto dest: map_of_SomeD)
      with inv show ?thesis by (auto simp: same turns_inv_def)
    qed
    ultimately show ?thesis using wf' by (auto simp: turns_inv_def)
  qed (use inv in simp)
qed

definition governed_step :: "BudgetPolicyV1 \<Rightarrow> UsageStore \<Rightarrow> StoreEvent \<Rightarrow> UsageStore" where
  "governed_step p st e = (if governed p e then store_step st e else st)"

lemma governed_step_inv:
  assumes "distinct (map budget_rule_id (rules p)) \<and> turns_inv p st"
  shows "distinct (map budget_rule_id (rules p)) \<and> turns_inv p (governed_step p st e)"
proof (cases e)
  case (EvAdmit ledger now policy attempt ctx candidate)
  obtain outcome st' where adm: "admit_usage_attempt_v1 ledger now st policy attempt ctx candidate = (outcome, st')" by fastforce
  have "turns_inv p st'" if "policy = Some p"
    using adm
  proof (cases rule: admit_step_cases)
    case (granted q res)
    with that assms show ?thesis by (auto intro: turns_inv_admit)
  qed (use assms in simp)
  with assms adm EvAdmit show ?thesis by (cases "policy = Some p") (simp_all add: governed_step_def)
next
  case (EvStart row)
  with assms turns_inv_start show ?thesis by (auto simp: governed_step_def split: sum.split)
next
  case (EvUpdate ident d u fin)
  with assms turns_inv_update show ?thesis by (auto simp: governed_step_def split: sum.split)
qed

interpretation governed_machine: event_machine "governed_step p"
  "\<lambda>st. distinct (map budget_rule_id (rules p)) \<and> turns_inv p st" for p
  by unfold_locales (rule governed_step_inv)

lemma foldl_governed: "\<forall>e\<in>set es. governed p e \<Longrightarrow> foldl (governed_step p) st es = foldl store_step st es"
  by (induction es arbitrary: st) (simp_all add: governed_step_def)

text \<open>
  C4: Under one policy a turn limit is never exceeded. In every history that starts with an empty store, in which
  each admission is made under the policy and a row is dispatched only by an admission, at every moment the turns charged to
  an owner that a reservation was bound to are at most the turn limit of the rule that bound it. This holds for requests,
  workflow runs and the days of an agent alike, whatever order starts, updates and admissions come in.
\<close>

theorem turn_budget_never_exceeded:
  assumes "BudgetPolicyV1_new json sha rs as = Inr p" and "\<forall>e\<in>set es. governed p e"
    and "st = foldl store_step (usage_schema_v1 started) es"
    and "(i, s) \<in> set (res_table st)" and "scope \<in> set (res_scopes (reservation s))"
    and "rule \<in> set (rules p)" and "budget_rule_id rule = rule_id scope" and "limit_turns (limits rule) = Some l"
  shows "turns_used st (owner scope) \<le> unat l"
proof -
  have "turns_inv p (usage_schema_v1 started)"
    using store_wf_initial by (simp add: turns_inv_def) (simp add: usage_schema_v1_def res_table_def)
  with policy_rules_distinct [OF assms(1)]
  have "turns_inv p (foldl (governed_step p) (usage_schema_v1 started) es)" using governed_machine.inv_run by blast
  then have "turns_inv p st" by (simp only: assms(3) foldl_governed [OF assms(2)])
  with assms(4-8) show ?thesis by (auto simp: turns_inv_def within_def)
qed

subsection \<open>A small history\<close>

definition example_exec :: string where
  "example_exec = ''exec-00000000000000000000000000000001''"

definition example_attempt :: "char \<Rightarrow> string" where
  "example_attempt c = ''attempt-0000000000000000000000000000000'' @ [c]"

definition example_turn :: "char \<Rightarrow> UsageAttemptV1" where
  "example_turn c =
     \<lparr>usage_id = example_attempt c,
      attribution = example_attribution\<lparr>attr_execution := Some example_exec, attr_run_attempt := Some (example_attempt CHR ''9'')\<rparr>,
      usage_started_ms = 0, utc_day = 0, dispatched = False, finalized = False, usage = UsageSnapshot_default,
      cost_invalid = False\<rparr>"

definition example_ledger :: "AttemptSummaryRow list" where
  "example_ledger =
     [\<lparr>ledger_attempt_id = example_attempt CHR ''9'', ledger_execution_id = example_exec, ledger_parent_attempt_id = None,
       ledger_ordinal = 0, ledger_started_ms = 0, ledger_status = ''active'',
       ledger_prompt_acceptance = ''not_dispatched''\<rparr>]"

definition example_context :: BudgetContextV1 where
  "example_context = \<lparr>request = Execution example_exec, workflow_run = None\<rparr>"

definition example_candidate :: BudgetCandidateV1 where
  "example_candidate = \<lparr>candidate_agent = ''codex'', candidate_model = None\<rparr>"

definition example_reservation :: "char \<Rightarrow> BudgetReservationV1" where
  "example_reservation c =
     \<lparr>res_attempt = example_attempt c, res_context = example_context, res_candidate = example_candidate,
      res_policy_digest = padded (str_bytes ''ab''), admitted_ms = 0, admission_day = 0,
      res_scopes = [\<lparr>rule_id = ''a'', owner = ScopeUtcDayAgent ''codex'' 0\<rparr>,
                    \<lparr>rule_id = ''b'', owner = ScopeRequest (Execution example_exec)\<rparr>],
      res_turns = 1, res_terminal_tokens = 0\<rparr>"

abbreviation admit_example :: "char \<Rightarrow> StoreEvent" where
  "admit_example c \<equiv> EvAdmit example_ledger 0 (Some example_policy) (example_attempt c) example_context example_candidate"

definition example_store :: UsageStore where
  "example_store =
     \<lparr>usage_rows = [(example_attempt CHR ''1'', (example_turn CHR ''1'')\<lparr>dispatched := True\<rparr>)], coverage_started_ms = 0,
      governance = Some \<lparr>bound_digest = padded (str_bytes ''ab''), reservations = [(example_attempt CHR ''1'',
        \<lparr>reservation = example_reservation CHR ''1'', liability = PendingLiability 0\<rparr>)]\<rparr>\<rparr>"

lemma example_turn_starts:
  "store_step (usage_schema_v1 0) (EvStart (example_turn CHR ''1''))
   = \<lparr>usage_rows = [(example_attempt CHR ''1'', example_turn CHR ''1'')], coverage_started_ms = 0, governance = None\<rparr>"
  by (simp add: start_usage_attempt_v1_def example_turn_def example_attempt_def example_exec_def AttemptId_parse_def
      ExecutionId_parse_def parse_hex_identity_def is_lower_hex_def is_digit_def usage_schema_v1_def)

lemma example_admitted:
  "admit_usage_attempt_v1 example_ledger 0 (store_step (usage_schema_v1 0) (EvStart (example_turn CHR ''1'')))
     (Some example_policy) (example_attempt CHR ''1'') example_context example_candidate
   = (Admitted (example_reservation CHR ''1''), example_store)"
  unfolding example_turn_starts
  by (simp add: admit_usage_attempt_v1_def admit_def admit_governed_def grant_def publish_def example_store_def
      example_turn_def example_reservation_def example_policy_def example_rules_def example_context_def
      example_candidate_def example_attribution_def bindings_def selected_rows_def row_read_def day_agent_of_def
      reserved_by_attempt_def allowance_for_def token_rule_applies_def owner_for_def owners_def owner_covered_def
      example_ledger_def i64_checked_mul_def DAY_MS_def reconcile_def checked_add_def Let_def)

text \<open>The first turn is admitted under a limit of two turns for the request and three for the day.\<close>

theorem admission_within_limits_witness:
  "turns_used example_store (ScopeRequest (Execution example_exec)) \<le> unat (2 :: u64)"
  using admission_within_limits [where es = "[EvStart (example_turn CHR ''1'')]" and started = 0 and p = example_policy
      and rule = "\<lparr>budget_rule_id = ''b'', selector = EachRequest, limits = \<lparr>limit_turns = Some 2, limit_terminal_tokens = None\<rparr>\<rparr>"
      and own = "ScopeRequest (Execution example_exec)", OF _ example_admitted]
  by (simp add: example_policy_def example_rules_def owner_for_def owners_def example_context_def)

theorem attempt_admitted_once_witness:
  "fst (admit_usage_attempt_v1 example_ledger 1 example_store (Some example_policy) (example_attempt CHR ''1'')
     example_context example_candidate) \<noteq> Admitted (example_reservation CHR ''1'')"
  using attempt_admitted_once [where before = "[EvStart (example_turn CHR ''1'')]" and started = 0 and afterwards = "[]",
      OF _ example_admitted] by simp

theorem turn_budget_never_exceeded_witness:
  "turns_used example_store (ScopeUtcDayAgent ''codex'' 0) \<le> unat (3 :: u64)"
proof -
  have "foldl store_step (usage_schema_v1 0) [EvStart (example_turn CHR ''1''), admit_example CHR ''1''] = example_store"
    using example_admitted by simp
  then show ?thesis
    using turn_budget_never_exceeded [OF example_policy_new, of "[EvStart (example_turn CHR ''1''), admit_example CHR ''1'']"
        example_store 0 "example_attempt CHR ''1''" "\<lparr>reservation = example_reservation CHR ''1'', liability = PendingLiability 0\<rparr>"
        "\<lparr>rule_id = ''a'', owner = ScopeUtcDayAgent ''codex'' 0\<rparr>"
        "\<lparr>budget_rule_id = ''a'', selector = UtcDayAgent ''codex'', limits = \<lparr>limit_turns = Some 3, limit_terminal_tokens = None\<rparr>\<rparr>" 3]
    by (simp add: res_table_def example_store_def example_reservation_def example_policy_def example_rules_def
        del: store_step.simps)
qed

end
