(* ===== verification/Fixed_Grace_Timer.thy ===== *)
theory Fixed_Grace_Timer
  imports Node_Evidence
begin

text \<open>
  The fixed-grace timer of a fan-out (\<open>fixed_grace_timer.rs\<close>): it is armed once, fires at the first observation
  of the clock that is a whole grace period past the arming, and keeps the recorded deadline of its node. An operation
  returns its result with the timer it leaves; an error leaves the timer as it was. The JSON encoder of triggers is an argument.
\<close>

datatype FixedGraceTimerV1 =
    TimerUnarmed
  | TimerArmed (tm_schema: u16) (tm_trigger_id: string) (tm_node: PolicyNodeRefV1) (tm_grace_ms: u64)
      (armed_at_elapsed_ms: u64) (tm_recorded_deadline: u64)
  | TimerFired (tm_schema: u16) (tm_trigger: PolicyTriggerV1) (armed_at_elapsed_ms: u64) (fired_at_elapsed_ms: u64)
      (tm_recorded_deadline: u64)

datatype FixedGraceTimerErrorV1 =
  AlreadyArmedOrFired | NotArmed | AlreadyFired | InvalidGrace | TimerArithmeticOverflow | ElapsedBeforeArm

text \<open>The check of a deserialised timer.\<close>

fun timer_valid :: "(PolicyTriggerV1 \<Rightarrow> u8 list option) \<Rightarrow> FixedGraceTimerV1 \<Rightarrow> bool" where
  "timer_valid json TimerUnarmed \<longleftrightarrow> True"
| "timer_valid json (TimerArmed schema tid node grace armed deadline) \<longleftrightarrow>
     schema = EXECUTION_POLICY_SCHEMA_V1 \<and> 0 < grace \<and> checked_add armed grace \<noteq> None"
| "timer_valid json (TimerFired schema trig armed fired deadline) \<longleftrightarrow>
     schema = EXECUTION_POLICY_SCHEMA_V1 \<and> is_ok (PolicyTriggerV1_encode_canonical json trig)
     \<and> (case trigger_grace_ms trig of None \<Rightarrow> False | Some grace \<Rightarrow> armed \<le> fired \<and> grace \<le> fired - armed)"

definition timer_deserialize :: "(PolicyTriggerV1 \<Rightarrow> u8 list option) \<Rightarrow> FixedGraceTimerV1 \<Rightarrow> string + FixedGraceTimerV1" where
  "timer_deserialize json state = (if timer_valid json state then Inr state else Inl ''invalid fixed-grace timer state'')"

definition arm ::
  "FixedGraceTimerV1 \<Rightarrow> PolicyNodeRefV1 \<Rightarrow> string \<Rightarrow> u64 \<Rightarrow> u64 \<Rightarrow> u64
   \<Rightarrow> (FixedGraceTimerErrorV1 + unit) \<times> FixedGraceTimerV1" where
  "arm self node tid grace armed deadline =
     (if self \<noteq> TimerUnarmed then (Inl AlreadyArmedOrFired, self)
      else if grace = 0 then (Inl InvalidGrace, self)
      else case checked_add armed grace of
          None \<Rightarrow> (Inl TimerArithmeticOverflow, self)
        | Some _ \<Rightarrow> (Inr (), TimerArmed EXECUTION_POLICY_SCHEMA_V1 tid node grace armed deadline))"

fun observe_elapsed ::
  "FixedGraceTimerV1 \<Rightarrow> u64 \<Rightarrow> (FixedGraceTimerErrorV1 + PolicyTriggerV1 option) \<times> FixedGraceTimerV1" where
  "observe_elapsed TimerUnarmed elapsed = (Inl NotArmed, TimerUnarmed)"
| "observe_elapsed (TimerFired schema trig armed fired deadline) elapsed =
     (Inl AlreadyFired, TimerFired schema trig armed fired deadline)"
| "observe_elapsed (TimerArmed schema tid node grace armed deadline) elapsed =
     (if elapsed < armed then (Inl ElapsedBeforeArm, TimerArmed schema tid node grace armed deadline)
      else if elapsed - armed < grace then (Inr None, TimerArmed schema tid node grace armed deadline)
      else let trig = \<lparr>trigger_schema_version = EXECUTION_POLICY_SCHEMA_V1, trigger_id = tid, trigger_node = node,
                       trigger_policy = NameFixedGrace, trigger_grace_ms = Some grace\<rparr>
           in (Inr (Some trig), TimerFired EXECUTION_POLICY_SCHEMA_V1 trig armed elapsed deadline))"

fun recorded_node_deadline_elapsed_ms :: "FixedGraceTimerV1 \<Rightarrow> u64 option" where
  "recorded_node_deadline_elapsed_ms TimerUnarmed = None"
| "recorded_node_deadline_elapsed_ms (TimerArmed _ _ _ _ _ deadline) = Some deadline"
| "recorded_node_deadline_elapsed_ms (TimerFired _ _ _ _ deadline) = Some deadline"

section \<open>A timer stays valid\<close>

datatype TimerEvent = TimerArm PolicyNodeRefV1 string u64 u64 u64 | TimerObserve u64

fun timer_step :: "FixedGraceTimerV1 \<Rightarrow> TimerEvent \<Rightarrow> FixedGraceTimerV1" where
  "timer_step tm (TimerArm node tid grace armed deadline) = snd (arm tm node tid grace armed deadline)"
| "timer_step tm (TimerObserve elapsed) = snd (observe_elapsed tm elapsed)"

text \<open>The encoder's obligation: a well-formed trigger has an encoding within the bound.\<close>

definition encodes_triggers :: "(PolicyTriggerV1 \<Rightarrow> u8 list option) \<Rightarrow> bool" where
  "encodes_triggers json \<longleftrightarrow> (\<forall>t. trigger_validate t = Inr () \<longrightarrow> is_ok (PolicyTriggerV1_encode_canonical json t))"

lemma elapsed_at_least: "armed \<le> elapsed \<Longrightarrow> grace \<le> elapsed - armed \<longleftrightarrow> unat armed + unat grace \<le> unat (elapsed :: u64)"
  by (simp add: word_le_nat_alt unat_sub) linarith

lemma timer_step_valid:
  assumes "encodes_triggers json \<and> timer_valid json tm"
  shows "encodes_triggers json \<and> timer_valid json (timer_step tm e)"
proof (cases e)
  case (TimerArm node tid grace armed deadline)
  with assms show ?thesis
    by (auto simp: arm_def word_neq_0_conv split: option.split)
next
  case (TimerObserve elapsed)
  with assms show ?thesis
    by (cases tm) (auto simp: Let_def encodes_triggers_def trigger_validate_def not_less)
qed

interpretation timer_machine: event_machine timer_step "\<lambda>tm. encodes_triggers json \<and> timer_valid json tm" for json
  by unfold_locales (rule timer_step_valid)

text \<open>
  A timer can always be restored from what it was saved as: whatever is armed and observed, in whatever order and with
  whatever clock values, the state a new timer reaches passes the check of deserialisation.
\<close>

theorem timer_always_restorable:
  assumes "encodes_triggers json"
  shows "timer_deserialize json (foldl timer_step TimerUnarmed es) = Inr (foldl timer_step TimerUnarmed es)"
  using timer_machine.inv_run [of json TimerUnarmed es] assms by (simp add: timer_deserialize_def)

section \<open>An armed timer fires once\<close>

fun timer_after :: "FixedGraceTimerV1 \<Rightarrow> (nat \<Rightarrow> u64) \<Rightarrow> nat \<Rightarrow> FixedGraceTimerV1" where
  "timer_after tm clock 0 = tm"
| "timer_after tm clock (Suc k) = snd (observe_elapsed (timer_after tm clock k) (clock k))"

abbreviation observation :: "FixedGraceTimerV1 \<Rightarrow> (nat \<Rightarrow> u64) \<Rightarrow> nat \<Rightarrow> FixedGraceTimerErrorV1 + PolicyTriggerV1 option" where
  "observation tm clock k \<equiv> fst (observe_elapsed (timer_after tm clock k) (clock k))"

text \<open>A clock that advances with every observation until it saturates.\<close>

definition advancing :: "(nat \<Rightarrow> u64) \<Rightarrow> bool" where
  "advancing clock \<longleftrightarrow> (\<forall>k. clock k < clock (Suc k) \<or> clock k = - 1)"

lemma advancing_reaches:
  assumes "advancing clock" and "n < 2 ^ 64"
  shows "\<exists>k. n \<le> unat (clock k)"
  using assms(2)
proof (induction n)
  case (Suc n)
  then obtain k where k: "n \<le> unat (clock k)" by auto
  show ?case
  proof (cases "clock k = - 1")
    case True
    then have "unat (clock k) = 2 ^ 64 - 1" by (simp add: unat_max_word)
    with Suc.prems have "Suc n \<le> unat (clock k)" by simp
    then show ?thesis by blast
  next
    case False
    with assms(1) have "clock k < clock (Suc k)" by (auto simp: advancing_def)
    with k have "Suc n \<le> unat (clock (Suc k))" by (simp add: word_less_nat_alt)
    then show ?thesis by blast
  qed
qed simp

lemma armed_until_due:
  assumes "\<forall>j<k. unat (clock j) < unat armed + unat grace"
  shows "timer_after (TimerArmed s tid node grace armed d) clock k = TimerArmed s tid node grace armed d"
  using assms
proof (induction k)
  case (Suc k)
  then have "\<not> unat armed + unat grace \<le> unat (clock k)" by (simp add: not_le)
  with Suc show ?case by (auto simp: not_less elapsed_at_least Let_def)
qed simp

lemma fired_stays: "timer_after (TimerFired s t a f d) clock k = TimerFired s t a f d"
  by (induction k) simp_all

lemma timer_after_shift: "timer_after tm clock (j + k) = timer_after (timer_after tm clock j) (\<lambda>i. clock (j + i)) k"
  by (induction k) simp_all

text \<open>
  C19: An armed timer fires, and it fires once. Because arming refuses a period that ends after the largest clock value,
  every clock that keeps advancing reaches the end of the grace period; the first observation at or past it returns the
  trigger with the identity, node and grace of the arming, every earlier observation returns none, and every later one is refused.
\<close>

theorem armed_timer_fires_once:
  assumes "arm tm node tid grace armed deadline = (Inr (), armed_tm)" and "advancing clock"
  shows "\<exists>k. observation armed_tm clock k = Inr (Some \<lparr>trigger_schema_version = EXECUTION_POLICY_SCHEMA_V1, trigger_id = tid,
                trigger_node = node, trigger_policy = NameFixedGrace, trigger_grace_ms = Some grace\<rparr>)
       \<and> unat armed + unat grace \<le> unat (clock k)
       \<and> (\<forall>j<k. unat (clock j) < unat armed + unat grace
            \<and> observation armed_tm clock j = (if clock j < armed then Inl ElapsedBeforeArm else Inr None))
       \<and> (\<forall>j>k. observation armed_tm clock j = Inl AlreadyFired)"
proof -
  let ?due = "unat armed + unat grace"
  let ?t = "\<lparr>trigger_schema_version = EXECUTION_POLICY_SCHEMA_V1, trigger_id = tid, trigger_node = node,
       trigger_policy = NameFixedGrace, trigger_grace_ms = Some grace\<rparr>"
  from assms(1) have tm: "armed_tm = TimerArmed EXECUTION_POLICY_SCHEMA_V1 tid node grace armed deadline"
    and "checked_add armed grace \<noteq> None"
    by (auto simp: arm_def split: if_splits option.splits)
  then have "?due < 2 ^ 64" by (auto simp: checked_add_def split: if_splits)
  from advancing_reaches [OF assms(2) this] have "\<exists>k. ?due \<le> unat (clock k)" .
  then obtain k where k: "?due \<le> unat (clock k)" and first: "\<forall>j<k. \<not> ?due \<le> unat (clock j)"
    unfolding exists_least_iff [of "\<lambda>k. ?due \<le> unat (clock k)"] by blast
  then have before: "timer_after armed_tm clock j = armed_tm" if "j \<le> k" for j
    using that unfolding tm by (intro armed_until_due) (auto simp: not_le)
  have "\<not> clock k < armed" using k by (simp add: word_less_nat_alt)
  moreover from this have "\<not> clock k - armed < grace" using k elapsed_at_least [of armed "clock k" grace] by (simp add: not_less)
  ultimately have fires: "observe_elapsed armed_tm (clock k) =
      (Inr (Some ?t), TimerFired EXECUTION_POLICY_SCHEMA_V1 ?t armed (clock k) deadline)"
    by (simp add: tm Let_def)
  have "observation armed_tm clock j = Inl AlreadyFired" if later: "j > k" for j
  proof -
    obtain i where "j = Suc k + i" using le_Suc_ex [OF Suc_leI [OF later]] by blast
    then have "timer_after armed_tm clock j = TimerFired EXECUTION_POLICY_SCHEMA_V1 ?t armed (clock k) deadline"
      by (simp only: timer_after_shift) (simp add: before fires fired_stays)
    then show ?thesis by simp
  qed
  moreover have "observation armed_tm clock j = (if clock j < armed then Inl ElapsedBeforeArm else Inr None)" if "j < k" for j
    using that first before [of j] elapsed_at_least [of armed "clock j" grace] by (auto simp: tm not_less Let_def)
  ultimately show ?thesis using k first by (intro exI [of _ k]) (simp add: before fires not_le)
qed

definition example_clock :: "nat \<Rightarrow> u64" where
  "example_clock k = (if k < 2 ^ 64 then of_nat k else - 1)"

lemma example_clock_advancing: "advancing example_clock"
proof -
  have "example_clock k < example_clock (Suc k) \<or> example_clock k = - 1" for k
  proof (cases "Suc k < 2 ^ 64")
    case True
    then have "unat (of_nat k :: u64) = k" "unat (of_nat (Suc k) :: u64) = Suc k" by (simp_all only: unat_of_nat) simp_all
    with True show ?thesis by (simp add: example_clock_def word_less_nat_alt)
  next
    case False
    then have "k = 2 ^ 64 - 1 \<or> 2 ^ 64 \<le> k" by auto
    moreover have "of_nat (2 ^ 64 - 1) = (- 1 :: u64)" by simp
    ultimately show ?thesis by (auto simp: example_clock_def)
  qed
  then show ?thesis by (simp add: advancing_def)
qed

theorem armed_timer_fires_once_witness:
  "\<exists>k. observation (snd (arm TimerUnarmed \<lparr>sorted_ordinal = 0, id_sha256 = []\<rparr> ''t'' 5 10 100)) example_clock k
      = Inr (Some \<lparr>trigger_schema_version = EXECUTION_POLICY_SCHEMA_V1, trigger_id = ''t'',
          trigger_node = \<lparr>sorted_ordinal = 0, id_sha256 = []\<rparr>, trigger_policy = NameFixedGrace, trigger_grace_ms = Some 5\<rparr>)"
  using armed_timer_fires_once [of TimerUnarmed "\<lparr>sorted_ordinal = 0, id_sha256 = []\<rparr>" "''t''" 5 10 100 _ example_clock,
      OF _ example_clock_advancing]
  by (simp add: arm_def checked_add_def) blast

theorem timer_always_restorable_witness:
  "timer_deserialize (\<lambda>_. Some []) (foldl timer_step TimerUnarmed [TimerArm \<lparr>sorted_ordinal = 0, id_sha256 = []\<rparr> ''t'' 5 10 100,
     TimerObserve 12, TimerObserve 20])
   = Inr (foldl timer_step TimerUnarmed [TimerArm \<lparr>sorted_ordinal = 0, id_sha256 = []\<rparr> ''t'' 5 10 100,
     TimerObserve 12, TimerObserve 20])"
  by (rule timer_always_restorable)
    (simp add: encodes_triggers_def PolicyTriggerV1_encode_canonical_def canonical_json_def)

end
