(* ===== verification/Permission_Registry.thy ===== *)
theory Permission_Registry
  imports Bridge_Prelude
begin

text \<open>
  The rendezvous for interactive permissions (\<open>permission.rs\<close>). A registered request waits on the receiver of a
  one-shot channel; the operator's decision, the cancellation of its context or the drop of its guard takes
  the entry out of the registry. Each operation runs under the registry's lock, so the operations of concurrent tasks are a
  sequence of steps. The one-shot channels are part of the state: a channel is a number, \<open>mail\<close> lists what was sent
  and received its addressee, and \<open>closed\<close> the receivers that were dropped. A poisoned lock is not modelled.
\<close>

datatype PermitDecision =
    Approve "string option"
  | Deny "string option" "string option"
  | Modify string "string option"
  | Escalate "string option"

record PermKey =
  perm_context_id :: string
  perm_generation :: u64
  perm_op :: string
  perm_request_id :: string

datatype PermissionResolution = Decided PermitDecision | PermissionCancelled

record PermissionOptionView =
  option_id :: string
  option_name :: string
  option_kind :: string

record PendingPermissionView =
  view_request_id :: string
  view_tool_call_id :: string
  view_generation :: u64
  view_op :: string
  view_title :: string
  view_options :: "PermissionOptionView list"
  view_raw_input :: "string option"
  view_timeout_ms :: u64

record PendingEntry =
  sender :: nat
  view :: PendingPermissionView
  token :: u64

record PermissionRegistry =
  inner :: "(PermKey \<times> PendingEntry) list"
  next_token :: u64
  next_channel :: nat
  closed :: "nat list"
  mail :: "(nat \<times> PermissionResolution) list"

record PermitGuard =
  guard_key :: PermKey
  guard_token :: u64

definition PermissionRegistry_new :: PermissionRegistry where
  "PermissionRegistry_new = \<lparr>inner = [], next_token = 0, next_channel = 0, closed = [], mail = []\<rparr>"

text \<open>\<open>oneshot::Sender::send\<close> takes the sender and succeeds unless the receiver is gone.\<close>

definition send :: "PermissionRegistry \<Rightarrow> nat \<Rightarrow> PermissionResolution \<Rightarrow> bool \<times> PermissionRegistry" where
  "send reg ch res = (if ch \<in> set (closed reg) then (False, reg) else (True, reg\<lparr>mail := mail reg @ [(ch, res)]\<rparr>))"

definition drop_receiver :: "PermissionRegistry \<Rightarrow> nat \<Rightarrow> PermissionRegistry" where
  "drop_receiver reg ch = reg\<lparr>closed := ch # closed reg\<rparr>"

definition permission_register ::
  "PermissionRegistry \<Rightarrow> PermKey \<Rightarrow> PendingPermissionView \<Rightarrow> (nat \<times> PermitGuard) \<times> PermissionRegistry" where
  "permission_register reg key vw =
     (let ch = next_channel reg; tok = next_token reg in
      ((ch, \<lparr>guard_key = key, guard_token = tok\<rparr>),
       reg\<lparr>inner := AList.update key \<lparr>sender = ch, view = vw, token = tok\<rparr> (inner reg),
           next_token := tok + 1, next_channel := ch + 1\<rparr>))"

definition permission_resolve :: "PermissionRegistry \<Rightarrow> PermKey \<Rightarrow> PermissionResolution \<Rightarrow> bool \<times> PermissionRegistry" where
  "permission_resolve reg key res =
     (let entry = map_of (inner reg) key; reg = reg\<lparr>inner := AList.delete key (inner reg)\<rparr> in
      case entry of Some e \<Rightarrow> send reg (sender e) res | None \<Rightarrow> (False, reg))"

fun cancel_keys :: "PermissionRegistry \<Rightarrow> PermKey list \<Rightarrow> nat \<Rightarrow> nat \<times> PermissionRegistry" where
  "cancel_keys reg [] n = (n, reg)"
| "cancel_keys reg (key # keys) n =
     (case map_of (inner reg) key of
        Some e \<Rightarrow>
          cancel_keys (snd (send (reg\<lparr>inner := AList.delete key (inner reg)\<rparr>) (sender e) PermissionCancelled)) keys (n + 1)
      | None \<Rightarrow> cancel_keys reg keys n)"

definition resolve_context_cancelled :: "PermissionRegistry \<Rightarrow> string \<Rightarrow> nat \<times> PermissionRegistry" where
  "resolve_context_cancelled reg ctx =
     cancel_keys reg (filter (\<lambda>key. perm_context_id key = ctx) (map fst (inner reg))) 0"

definition reap :: "PermissionRegistry \<Rightarrow> PermKey \<Rightarrow> PermissionRegistry" where
  "reap reg key = reg\<lparr>inner := AList.delete key (inner reg)\<rparr>"

definition reap_if_current :: "PermissionRegistry \<Rightarrow> PermKey \<Rightarrow> u64 \<Rightarrow> PermissionRegistry" where
  "reap_if_current reg key tok =
     (if (case map_of (inner reg) key of None \<Rightarrow> False | Some e \<Rightarrow> token e = tok)
      then reg\<lparr>inner := AList.delete key (inner reg)\<rparr> else reg)"

definition drop_permit_guard :: "PermissionRegistry \<Rightarrow> PermitGuard \<Rightarrow> PermissionRegistry" where
  "drop_permit_guard reg g = reap_if_current reg (guard_key g) (guard_token g)"

definition pending_views :: "PermissionRegistry \<Rightarrow> string \<Rightarrow> PendingPermissionView list" where
  "pending_views reg ctx = map (view \<circ> snd) (filter (\<lambda>(key, _). perm_context_id key = ctx) (inner reg))"

section \<open>Histories\<close>

datatype PermissionEvent =
    EvRegister PermKey PendingPermissionView
  | EvResolve PermKey PermissionResolution
  | EvCancelContext string
  | EvReap PermKey
  | EvDropGuard PermitGuard
  | EvDropReceiver nat

fun permission_step :: "PermissionRegistry \<Rightarrow> PermissionEvent \<Rightarrow> PermissionRegistry" where
  "permission_step reg (EvRegister key vw) = snd (permission_register reg key vw)"
| "permission_step reg (EvResolve key res) = snd (permission_resolve reg key res)"
| "permission_step reg (EvCancelContext ctx) = snd (resolve_context_cancelled reg ctx)"
| "permission_step reg (EvReap key) = reap reg key"
| "permission_step reg (EvDropGuard g) = drop_permit_guard reg g"
| "permission_step reg (EvDropReceiver ch) = drop_receiver reg ch"

text \<open>
  The invariant: keys are distinct, waiting senders are distinct and were created, and a channel that still has its
  sender has received nothing.
\<close>

definition registry_inv :: "PermissionRegistry \<Rightarrow> bool" where
  "registry_inv reg \<longleftrightarrow>
     distinct (map fst (inner reg)) \<and> distinct (map (sender \<circ> snd) (inner reg)) \<and> distinct (map fst (mail reg))
     \<and> (\<forall>(_, e)\<in>set (inner reg). sender e < next_channel reg \<and> sender e \<notin> fst ` set (mail reg))
     \<and> (\<forall>ch\<in>fst ` set (mail reg). ch < next_channel reg)"

lemma registry_inv_delete:
  assumes "registry_inv reg"
  shows "registry_inv (reg\<lparr>inner := AList.delete key (inner reg)\<rparr>)"
  using assms
  by (auto simp: registry_inv_def AList.delete_eq distinct_map_filter distinct_map intro: inj_on_subset)

lemma registry_inv_take:
  assumes "registry_inv reg" and "map_of (inner reg) key = Some e"
  shows "registry_inv (snd (send (reg\<lparr>inner := AList.delete key (inner reg)\<rparr>) (sender e) res))"
proof -
  have mem: "(key, e) \<in> set (inner reg)" using assms(2) by (rule map_of_SomeD)
  have "sender e' \<noteq> sender e" if "(k, e') \<in> set (AList.delete key (inner reg))" for k e'
  proof
    assume "sender e' = sender e"
    moreover have "(k, e') \<in> set (inner reg)" "k \<noteq> key" using that by (auto simp: AList.delete_eq)
    moreover have "inj_on (sender \<circ> snd) (set (inner reg))" using assms(1) by (simp add: registry_inv_def distinct_map)
    ultimately have "(k, e') = (key, e)" using mem inj_onD [of "sender \<circ> snd" "set (inner reg)" "(k, e')" "(key, e)"] by simp
    with \<open>k \<noteq> key\<close> show False by simp
  qed
  with registry_inv_delete [OF assms(1), of key] mem assms(1) show ?thesis
    by (auto simp: send_def registry_inv_def)
qed

lemma registry_inv_cancel: "registry_inv reg \<Longrightarrow> registry_inv (snd (cancel_keys reg keys n))"
  by (induction reg keys n rule: cancel_keys.induct) (auto split: option.split intro: registry_inv_take)

lemma registry_inv_register:
  assumes "registry_inv reg"
  shows "registry_inv (snd (permission_register reg key vw))"
proof -
  let ?e = "\<lparr>sender = next_channel reg, view = vw, token = next_token reg\<rparr>"
  have new: "distinct (map (sender \<circ> snd) (AList.update key ?e al))"
    if "distinct (map (sender \<circ> snd) al)" "\<forall>(_, e)\<in>set al. sender e < next_channel reg" for al
    using that
  proof (induction al)
    case (Cons p al)
    moreover have "(sender \<circ> snd) ` set (AList.update key ?e al) \<subseteq> insert (next_channel reg) ((sender \<circ> snd) ` set al)"
      using set_alist_update [of key ?e al] by auto
    ultimately show ?case by (cases p) (auto simp: image_iff)
  qed simp
  have "distinct (map (sender \<circ> snd) (AList.update key ?e (inner reg)))"
    using assms by (intro new) (auto simp: registry_inv_def)
  with assms set_alist_update [of key ?e "inner reg"] show ?thesis
    by (fastforce simp: permission_register_def registry_inv_def AList.distinct_update Let_def)
qed

lemma permission_step_inv: "registry_inv reg \<Longrightarrow> registry_inv (permission_step reg e)"
proof (cases e)
  case (EvResolve key res)
  assume "registry_inv reg"
  with EvResolve registry_inv_delete registry_inv_take show ?thesis
    by (cases "map_of (inner reg) key") (auto simp: permission_resolve_def Let_def)
next
  case (EvDropGuard g)
  assume "registry_inv reg"
  with EvDropGuard registry_inv_delete show ?thesis by (auto simp: drop_permit_guard_def reap_if_current_def)
next
  case (EvDropReceiver ch)
  assume "registry_inv reg"
  with EvDropReceiver show ?thesis by (simp add: drop_receiver_def registry_inv_def)
qed (simp_all add: registry_inv_register registry_inv_cancel resolve_context_cancelled_def reap_def registry_inv_delete)

interpretation permission_machine: event_machine permission_step registry_inv
  by unfold_locales (rule permission_step_inv)

lemma registry_inv_new: "registry_inv PermissionRegistry_new"
  by (simp add: registry_inv_def PermissionRegistry_new_def)

lemmas registry_inv_reachable = permission_machine.inv_run [OF registry_inv_new]

section \<open>A request is resolved at most once\<close>

lemma map_of_alist_delete [simp]: "map_of (AList.delete k al) = (map_of al)(k := None)"
  by (rule AList.delete_conv')

text \<open>
  C20: A permission is resolved at most once. In every history no receiver gets two resolutions. Resolving a key succeeds
  exactly when an entry waits under it and its receiver is still there; then that receiver, and no other, gets the given
  resolution. Whether or not it succeeds, the key is free afterwards, so that a second resolution of it fails and sends nothing.
\<close>

theorem permission_resolved_at_most_once:
  assumes "reg = foldl permission_step PermissionRegistry_new es" and "permission_resolve reg key res = (ok, reg')"
  shows "distinct (map fst (mail reg'))
       \<and> (ok \<longleftrightarrow> (\<exists>e. map_of (inner reg) key = Some e \<and> sender e \<notin> set (closed reg)))
       \<and> mail reg' = (if ok then mail reg @ [(sender (the (map_of (inner reg) key)), res)] else mail reg)
       \<and> map_of (inner reg') = (map_of (inner reg))(key := None)
       \<and> permission_resolve reg' key res' = (False, reg')"
proof -
  have "registry_inv (permission_step reg (EvResolve key res))"
    unfolding assms(1) by (intro permission_step_inv registry_inv_reachable)
  then have inv: "distinct (map fst (mail reg'))" by (simp add: assms(2) registry_inv_def)
  have idem: "AList.delete key (AList.delete key (inner reg)) = AList.delete key (inner reg)" by (simp add: AList.delete_eq)
  show ?thesis
  proof (cases "map_of (inner reg) key")
    case None
    with assms(2) inv idem show ?thesis by (auto simp: permission_resolve_def Let_def)
  next
    case (Some e)
    with assms(2) inv idem show ?thesis
      by (auto simp: permission_resolve_def Let_def send_def split: if_splits)
  qed
qed

text \<open>The cancellation of a context, entry by entry.\<close>

definition cancelled_mail :: "nat list \<Rightarrow> (PermKey \<times> PendingEntry) list \<Rightarrow> (nat \<times> PermissionResolution) list" where
  "cancelled_mail gone es = map (\<lambda>(_, e). (sender e, PermissionCancelled)) (filter (\<lambda>(_, e). sender e \<notin> set gone) es)"

lemma cancelled_mail_Cons: "cancelled_mail gone (p # es) = cancelled_mail gone [p] @ cancelled_mail gone es"
  by (simp add: cancelled_mail_def)

lemma cancel_keys_effect:
  assumes "distinct (map fst es)" and "\<forall>(k, e)\<in>set es. map_of (inner reg) k = Some e"
  shows "cancel_keys reg (map fst es) n =
    (n + length es, reg\<lparr>inner := filter (\<lambda>(k, _). k \<notin> fst ` set es) (inner reg), mail := mail reg @ cancelled_mail (closed reg) es\<rparr>)"
  using assms
proof (induction es arbitrary: reg n)
  case Nil
  show ?case by (simp add: cancelled_mail_def)
next
  case (Cons p es)
  obtain k e where p: "p = (k, e)" by (cases p)
  let ?reg = "snd (send (reg\<lparr>inner := AList.delete k (inner reg)\<rparr>) (sender e) PermissionCancelled)"
  have reg: "?reg = reg\<lparr>inner := AList.delete k (inner reg), mail := mail reg @ cancelled_mail (closed reg) [p]\<rparr>"
    by (simp add: send_def p cancelled_mail_def)
  have "k' \<noteq> k" "map_of (inner reg) k' = Some e'" if "(k', e') \<in> set es" for k' e'
    using that Cons.prems p by (force, auto)
  then have "\<forall>(k', e')\<in>set es. map_of (inner ?reg) k' = Some e'" unfolding reg by auto
  from Cons.IH [OF _ this, of "n + 1"] Cons.prems(1)
  have "cancel_keys ?reg (map fst es) (n + 1) = (n + 1 + length es,
      ?reg\<lparr>inner := filter (\<lambda>(k, _). k \<notin> fst ` set es) (inner ?reg), mail := mail ?reg @ cancelled_mail (closed ?reg) es\<rparr>)"
    by simp
  moreover have "filter (\<lambda>(k, _). k \<notin> fst ` set es) (AList.delete k (inner reg)) = filter (\<lambda>(j, _). j \<notin> insert k (fst ` set es)) (inner reg)"
    by (auto simp: AList.delete_eq intro: filter_cong)
  moreover have "cancel_keys reg (map fst (p # es)) n = cancel_keys ?reg (map fst es) (n + 1)"
    using Cons.prems(2) by (simp add: p)
  ultimately show ?case
    unfolding reg cancelled_mail_Cons [of _ p es] by (simp add: p)
qed

text \<open>
  C22: Cancelling a context is complete and touches nothing else. It returns the number of entries that were pending
  for the context, leaves none, sends the cancellation to exactly those of their receivers that still listen, and keeps the entries of
  every other context.
\<close>

theorem context_cancel_complete:
  assumes "reg = foldl permission_step PermissionRegistry_new es" and "resolve_context_cancelled reg ctx = (n, reg')"
  shows "n = length (pending_views reg ctx) \<and> pending_views reg' ctx = []
       \<and> (ctx' \<noteq> ctx \<longrightarrow> pending_views reg' ctx' = pending_views reg ctx')
       \<and> mail reg' = mail reg @ cancelled_mail (closed reg) (filter (\<lambda>(k, _). perm_context_id k = ctx) (inner reg))"
proof -
  let ?es = "filter (\<lambda>(k, _). perm_context_id k = ctx) (inner reg)"
  have inv: "registry_inv reg" unfolding assms(1) by (rule registry_inv_reachable)
  have keys: "filter (\<lambda>key. perm_context_id key = ctx) (map fst (inner reg)) = map fst ?es"
    by (simp add: filter_map comp_def case_prod_unfold)
  have "cancel_keys reg (map fst ?es) 0 = (0 + length ?es,
      reg\<lparr>inner := filter (\<lambda>(k, _). k \<notin> fst ` set ?es) (inner reg), mail := mail reg @ cancelled_mail (closed reg) ?es\<rparr>)"
    by (rule cancel_keys_effect) (use inv in \<open>auto simp: registry_inv_def distinct_map_filter\<close>)
  moreover have "filter (\<lambda>(k, _). k \<notin> fst ` set ?es) (inner reg) = filter (\<lambda>(k, _). perm_context_id k \<noteq> ctx) (inner reg)"
    by (rule filter_cong) force+
  ultimately have "n = length ?es" "reg' = reg\<lparr>inner := filter (\<lambda>(k, _). perm_context_id k \<noteq> ctx) (inner reg),
      mail := mail reg @ cancelled_mail (closed reg) ?es\<rparr>"
    using assms(2) by (simp_all add: resolve_context_cancelled_def keys)
  then show ?thesis
    by (auto simp: pending_views_def case_prod_unfold filter_empty_conv intro!: arg_cong [of _ _ "map _"] filter_cong)
qed

section \<open>A stale guard is harmless\<close>

text \<open>
  Tokens count the registrations, and an entry never changes its key: the entry of a registration is found, if at all,
  under the key of its guard.
\<close>

definition tokens_inv :: "(nat \<rightharpoonup> PermKey) \<Rightarrow> PermissionRegistry \<Rightarrow> bool" where
  "tokens_inv home reg \<longleftrightarrow>
     next_token reg = of_nat (next_channel reg)
     \<and> (\<forall>(k, e)\<in>set (inner reg). token e = of_nat (sender e) \<and> sender e < next_channel reg
          \<and> (home (sender e) = None \<or> home (sender e) = Some k))
     \<and> (\<forall>ch\<in>dom home. ch < next_channel reg)"

lemma tokens_inv_mono:
  assumes "tokens_inv home reg" and "set (inner reg') \<subseteq> set (inner reg)"
    and "next_token reg' = next_token reg" and "next_channel reg' = next_channel reg"
  shows "tokens_inv home reg'"
  using assms by (auto simp: tokens_inv_def)

lemma send_simps [simp]:
  "inner (snd (send reg c r)) = inner reg" "next_token (snd (send reg c r)) = next_token reg"
  "next_channel (snd (send reg c r)) = next_channel reg" "closed (snd (send reg c r)) = closed reg"
  by (simp_all add: send_def)

lemma cancel_keys_simps:
  "set (inner (snd (cancel_keys reg keys n))) \<subseteq> set (inner reg)
   \<and> next_token (snd (cancel_keys reg keys n)) = next_token reg
   \<and> next_channel (snd (cancel_keys reg keys n)) = next_channel reg"
proof (induction reg keys n rule: cancel_keys.induct)
  case (2 reg key keys n)
  show ?case
  proof (cases "map_of (inner reg) key")
    case (Some e)
    with 2(2) [OF Some] set_alist_delete [of key "inner reg"] show ?thesis by auto
  qed (use 2(1) in simp)
qed simp

lemma tokens_inv_registered:
  assumes inv: "tokens_inv home reg" and home: "home' (next_channel reg) = None \<or> home' (next_channel reg) = Some k"
    and dom: "\<forall>ch. ch \<noteq> next_channel reg \<longrightarrow> home' ch = home ch"
  shows "tokens_inv home' (snd (permission_register reg k vw))"
proof -
  let ?e = "\<lparr>sender = next_channel reg, view = vw, token = next_token reg\<rparr>"
  have mem: "(j, e) = (k, ?e) \<or> (j, e) \<in> set (inner reg)" if "(j, e) \<in> set (AList.update k ?e (inner reg))" for j e
    using that set_alist_update [of k ?e "inner reg"] by auto
  have old: "token e = of_nat (sender e)" "sender e < next_channel reg" "home (sender e) = None \<or> home (sender e) = Some j"
    if "(j, e) \<in> set (inner reg)" for j e
    using that inv by (auto simp: tokens_inv_def)
  have "token e = of_nat (sender e) \<and> sender e < Suc (next_channel reg) \<and> (home' (sender e) = None \<or> home' (sender e) = Some j)"
    if "(j, e) \<in> set (AList.update k ?e (inner reg))" for j e
    using mem [OF that]
  proof
    assume "(j, e) = (k, ?e)"
    with inv home show ?thesis by (simp add: tokens_inv_def)
  next
    assume "(j, e) \<in> set (inner reg)"
    from old [OF this] dom show ?thesis by (metis less_Suc_eq nat_less_le)
  qed
  moreover have "ch < Suc (next_channel reg)" if "ch \<in> dom home'" for ch
    using that dom inv by (cases "ch = next_channel reg") (auto simp: tokens_inv_def dom_def less_Suc_eq)
  ultimately show ?thesis using inv by (auto simp: permission_register_def tokens_inv_def Let_def)
qed

lemma permission_step_tokens: "tokens_inv home reg \<Longrightarrow> tokens_inv home (permission_step reg e)"
proof (cases e)
  case (EvRegister k vw)
  assume inv: "tokens_inv home reg"
  then have "home (next_channel reg) = None" by (auto simp: tokens_inv_def dom_def)
  with inv EvRegister show ?thesis by (simp add: tokens_inv_registered)
next
  case (EvResolve k r)
  assume "tokens_inv home reg"
  then show ?thesis by (rule tokens_inv_mono)
    (use EvResolve set_alist_delete [of k "inner reg"] in \<open>simp_all add: permission_resolve_def Let_def split: option.split\<close>)
next
  case (EvCancelContext c)
  assume "tokens_inv home reg"
  then show ?thesis by (rule tokens_inv_mono)
    (use EvCancelContext cancel_keys_simps in \<open>simp_all add: resolve_context_cancelled_def\<close>)
next
  case (EvReap k)
  assume "tokens_inv home reg"
  then show ?thesis by (rule tokens_inv_mono) (use EvReap set_alist_delete [of k "inner reg"] in \<open>simp_all add: reap_def\<close>)
next
  case (EvDropGuard g)
  assume "tokens_inv home reg"
  then show ?thesis by (rule tokens_inv_mono)
    (use EvDropGuard set_alist_delete [of "guard_key g" "inner reg"] in
      \<open>simp_all add: drop_permit_guard_def reap_if_current_def\<close>)
next
  case (EvDropReceiver c)
  assume "tokens_inv home reg"
  then show ?thesis by (rule tokens_inv_mono) (use EvDropReceiver in \<open>simp_all add: drop_receiver_def\<close>)
qed

interpretation token_machine: event_machine permission_step "tokens_inv home" for home
  by unfold_locales (rule permission_step_tokens)

lemma tokens_inv_new: "tokens_inv Map.empty PermissionRegistry_new"
  by (simp add: tokens_inv_def PermissionRegistry_new_def)

lemma tokens_inv_register:
  assumes "tokens_inv Map.empty reg" and "permission_register reg key vw = ((ch, g), reg1)"
  shows "tokens_inv [ch \<mapsto> key] reg1 \<and> g = \<lparr>guard_key = key, guard_token = of_nat ch\<rparr>"
proof -
  have ch: "ch = next_channel reg" "g = \<lparr>guard_key = key, guard_token = next_token reg\<rparr>" "reg1 = snd (permission_register reg key vw)"
    using assms(2) by (auto simp: permission_register_def Let_def)
  have "tokens_inv [ch \<mapsto> key] reg1" unfolding ch(3) by (rule tokens_inv_registered [OF assms(1)]) (simp_all add: ch(1))
  with assms(1) show ?thesis by (simp add: ch tokens_inv_def)
qed

text \<open>
  C21: The guard of a registration takes away that registration and nothing else. While fewer than \<open>2 ^ 64\<close> requests were
  registered, dropping the guard, at whatever later moment, leaves no entry of its registration behind and keeps
  every other entry, in particular a newer registration under the same key.
\<close>

theorem stale_guard_harmless:
  assumes "reg = foldl permission_step PermissionRegistry_new es"
    and "permission_register reg key vw = ((ch, g), reg1)"
    and "reg2 = foldl permission_step reg1 es'" and "next_channel reg2 \<le> 2 ^ 64"
  shows "(\<forall>k e. map_of (inner (drop_permit_guard reg2 g)) k = Some e \<longleftrightarrow> map_of (inner reg2) k = Some e \<and> sender e \<noteq> ch)
       \<and> mail (drop_permit_guard reg2 g) = mail reg2"
proof -
  have "tokens_inv Map.empty reg" unfolding assms(1) by (rule token_machine.inv_run [OF tokens_inv_new])
  from tokens_inv_register [OF this assms(2)]
  have g: "guard_key g = key" "guard_token g = of_nat ch" and "tokens_inv [ch \<mapsto> key] reg1" by simp_all
  then have inv: "tokens_inv [ch \<mapsto> key] reg2" unfolding assms(3) by (intro token_machine.inv_run)
  have entry: "token e = guard_token g \<longleftrightarrow> sender e = ch" "sender e = ch \<Longrightarrow> k = key" if "map_of (inner reg2) k = Some e" for k e
  proof -
    have e: "(k, e) \<in> set (inner reg2)" using that by (rule map_of_SomeD)
    with inv show "sender e = ch \<Longrightarrow> k = key" by (auto simp: tokens_inv_def split: if_splits)
    from e inv assms(4) have "sender e < 2 ^ 64" "ch < 2 ^ 64" "token e = of_nat (sender e)" by (auto simp: tokens_inv_def)
    then show "token e = guard_token g \<longleftrightarrow> sender e = ch"
      by (auto simp: g word_unat_eq_iff unat_of_nat)
  qed
  show ?thesis
  proof (intro conjI allI)
    show "mail (drop_permit_guard reg2 g) = mail reg2" by (simp add: drop_permit_guard_def reap_if_current_def)
    fix k e
    show "map_of (inner (drop_permit_guard reg2 g)) k = Some e \<longleftrightarrow> map_of (inner reg2) k = Some e \<and> sender e \<noteq> ch"
    proof (cases "\<exists>e'. map_of (inner reg2) key = Some e' \<and> sender e' = ch")
      case True
      then have "inner (drop_permit_guard reg2 g) = AList.delete key (inner reg2)"
        using entry(1) [of key] by (auto simp: drop_permit_guard_def reap_if_current_def g(1))
      with True entry(2) [of k e] show ?thesis by auto
    next
      case False
      then have "inner (drop_permit_guard reg2 g) = inner reg2"
        using entry(1) [of key] by (auto simp: drop_permit_guard_def reap_if_current_def g(1) split: option.splits)
      with False entry(2) [of k e] show ?thesis by auto
    qed
  qed
qed

section \<open>A small history\<close>

definition example_key :: PermKey where
  "example_key = \<lparr>perm_context_id = ''ctx'', perm_generation = 1, perm_op = ''op'', perm_request_id = ''r1''\<rparr>"

definition example_view :: PendingPermissionView where
  "example_view = \<lparr>view_request_id = ''r1'', view_tool_call_id = ''tool'', view_generation = 1, view_op = ''op'', view_title = ''run'',
     view_options = [], view_raw_input = None, view_timeout_ms = 1000\<rparr>"

text \<open>One request is registered, and registered again under the same key by a retry.\<close>

definition example_registry :: PermissionRegistry where
  "example_registry = foldl permission_step PermissionRegistry_new [EvRegister example_key example_view, EvRegister example_key example_view]"

lemma example_registry_eq:
  "example_registry = \<lparr>inner = [(example_key, \<lparr>sender = 1, view = example_view, token = 1\<rparr>)], next_token = 2, next_channel = 2,
     closed = [], mail = []\<rparr>"
  by (simp add: example_registry_def PermissionRegistry_new_def permission_register_def Let_def)

theorem permission_resolved_at_most_once_witness:
  "permission_resolve (snd (permission_resolve example_registry example_key (Decided (Approve None)))) example_key PermissionCancelled
   = (False, snd (permission_resolve example_registry example_key (Decided (Approve None))))"
  using permission_resolved_at_most_once [OF example_registry_def, of example_key "Decided (Approve None)"
      "fst (permission_resolve example_registry example_key (Decided (Approve None)))"
      "snd (permission_resolve example_registry example_key (Decided (Approve None)))" PermissionCancelled]
  by simp

theorem context_cancel_complete_witness:
  "fst (resolve_context_cancelled example_registry ''ctx'') = 1
   \<and> pending_views (snd (resolve_context_cancelled example_registry ''ctx'')) ''ctx'' = []"
  using context_cancel_complete [OF example_registry_def, of "''ctx''"
      "fst (resolve_context_cancelled example_registry ''ctx'')" "snd (resolve_context_cancelled example_registry ''ctx'')" "''other''"]
  by (simp add: example_registry_eq pending_views_def example_key_def)

theorem stale_guard_harmless_witness:
  "map_of (inner (drop_permit_guard example_registry \<lparr>guard_key = example_key, guard_token = 0\<rparr>)) example_key
   = Some \<lparr>sender = 1, view = example_view, token = 1\<rparr>"
  using stale_guard_harmless [of PermissionRegistry_new "[]" example_key example_view 0 "\<lparr>guard_key = example_key, guard_token = 0\<rparr>"
      "snd (permission_register PermissionRegistry_new example_key example_view)" example_registry "[EvRegister example_key example_view]"]
  by (simp add: example_registry_eq permission_register_def PermissionRegistry_new_def Let_def)

end
