(* ===== verification/Custody_Frame.thy ===== *)
theory Custody_Frame
  imports Unicode_Text
begin

text \<open>
  The coverage-payload frame of the custody capsule (\<open>custody_frame.rs\<close>): its constants and refusals, the grammar of
  paths, modes and symlink targets, the byte and entry budgets, and the canonical order that encoder and decoder share,
  with its stack of open directories. The theories on streams, the encoder and the decoder build on it.
\<close>

section \<open>The grammar\<close>

definition MAGIC_V1 :: "u8 list" where
  "MAGIC_V1 = [97, 50, 97, 45, 99, 102, 114, 49]"

definition VERSION_V1 :: u8 where "VERSION_V1 = 1"
definition TAG_DIRECTORY_V1 :: u8 where "TAG_DIRECTORY_V1 = 1"
definition TAG_REGULAR_V1 :: u8 where "TAG_REGULAR_V1 = 2"
definition TAG_SYMLINK_V1 :: u8 where "TAG_SYMLINK_V1 = 3"
definition TAG_TRAILER_V1 :: u8 where "TAG_TRAILER_V1 = 255"
definition SEPARATOR :: u8 where "SEPARATOR = 47"
definition MAX_GENERATION_BYTES_V1 :: nat where "MAX_GENERATION_BYTES_V1 = 1024"
definition MAX_PATH_BYTES_V1 :: nat where "MAX_PATH_BYTES_V1 = 4096"
definition MAX_COMPONENT_BYTES_V1 :: nat where "MAX_COMPONENT_BYTES_V1 = 255"
definition MAX_SYMLINK_TARGET_BYTES_V1 :: nat where "MAX_SYMLINK_TARGET_BYTES_V1 = 4095"
definition PERMISSION_BITS_V1 :: u32 where "PERMISSION_BITS_V1 = 511"
definition MAX_ENTRIES_V1 :: u64 where "MAX_ENTRIES_V1 = 1048576"
definition MAX_FRAME_BYTES_V1 :: u64 where "MAX_FRAME_BYTES_V1 = 10737418240"
definition CONTENT_BUFFER_BYTES_V1 :: nat where "CONTENT_BUFFER_BYTES_V1 = 65536"
definition DIGEST_BYTES_V1 :: nat where "DIGEST_BYTES_V1 = 32"
definition HEADER_FIXED_BYTES_V1 :: u64 where "HEADER_FIXED_BYTES_V1 = 12"
definition TRAILER_BYTES_V1 :: u64 where "TRAILER_BYTES_V1 = 49"

datatype CustodyFrameComponentFaultV1 = FaultEmpty | FaultDot | FaultDotDot | FaultNul | FaultSlash | FaultTooLong

datatype CustodyFrameLengthMismatchV1 = MismatchShort | MismatchLong

datatype CustodyFrameErrorV1 =
    FrameIo string
  | BadMagic | UnsupportedVersion | UnknownClass | ObjectDatabaseNotFramed | ClassMismatch
  | GenerationMismatch | InvalidGeneration | UnknownTag | FrameTruncated | TrailingBytes
  | InvalidComponent CustodyFrameComponentFaultV1
  | PathTooLong | OutOfOrder | MissingParent | UnsupportedMode | InvalidSymlinkTarget
  | ContentLengthMismatch CustodyFrameLengthMismatchV1
  | ContentDigestMismatch | CountMismatch | TotalMismatch | FrameDigestMismatch | EntryLimit | ByteBudget | Poisoned

datatype CustodyCoverageClassV1 =
    CovRefsAndHead | CovObjectDatabase | CovIndex | CovWorktree | CovStashAndReflogs | CovInProgressGitOperations
  | CovLinkedWorktrees | CovNestedRepositoriesAndSubmodules | CovLfsAndExternalPayloads | CovAlternatesAndSharedStores
  | CovGitConfigurationAndHooks | CovBridgeEvidence | CovExternalEvidence | CovReproducibleOutputs

fun class_code :: "CustodyCoverageClassV1 \<Rightarrow> CustodyFrameErrorV1 + u8" where
  "class_code CovRefsAndHead = Inr 1"
| "class_code CovObjectDatabase = Inl ObjectDatabaseNotFramed"
| "class_code CovIndex = Inr 3"
| "class_code CovWorktree = Inr 4"
| "class_code CovStashAndReflogs = Inr 5"
| "class_code CovInProgressGitOperations = Inr 6"
| "class_code CovLinkedWorktrees = Inr 7"
| "class_code CovNestedRepositoriesAndSubmodules = Inr 8"
| "class_code CovLfsAndExternalPayloads = Inr 9"
| "class_code CovAlternatesAndSharedStores = Inr 10"
| "class_code CovGitConfigurationAndHooks = Inr 11"
| "class_code CovBridgeEvidence = Inr 12"
| "class_code CovExternalEvidence = Inr 13"
| "class_code CovReproducibleOutputs = Inr 14"

definition class_from_code :: "u8 \<Rightarrow> CustodyFrameErrorV1 + CustodyCoverageClassV1" where
  "class_from_code code =
     (if code = 1 then Inr CovRefsAndHead
      else if code = 2 then Inl ObjectDatabaseNotFramed
      else if code = 3 then Inr CovIndex
      else if code = 4 then Inr CovWorktree
      else if code = 5 then Inr CovStashAndReflogs
      else if code = 6 then Inr CovInProgressGitOperations
      else if code = 7 then Inr CovLinkedWorktrees
      else if code = 8 then Inr CovNestedRepositoriesAndSubmodules
      else if code = 9 then Inr CovLfsAndExternalPayloads
      else if code = 10 then Inr CovAlternatesAndSharedStores
      else if code = 11 then Inr CovGitConfigurationAndHooks
      else if code = 12 then Inr CovBridgeEvidence
      else if code = 13 then Inr CovExternalEvidence
      else if code = 14 then Inr CovReproducibleOutputs
      else Inl UnknownClass)"

text \<open>Little-endian integers: \<open>to_le_bytes\<close> and \<open>from_le_bytes\<close>.\<close>

fun le_bytes :: "nat \<Rightarrow> nat \<Rightarrow> u8 list" where
  "le_bytes 0 v = []"
| "le_bytes (Suc k) v = of_nat v # le_bytes k (v div 256)"

fun from_le_bytes :: "u8 list \<Rightarrow> nat" where
  "from_le_bytes [] = 0"
| "from_le_bytes (b # bs) = unat b + 256 * from_le_bytes bs"

text \<open>\<open>String::from_utf8\<close> accepts exactly the well-formed sequences of the Unicode standard.\<close>

definition in_range :: "u8 \<Rightarrow> u8 \<Rightarrow> u8 \<Rightarrow> bool" where
  "in_range lo hi b \<longleftrightarrow> lo \<le> b \<and> b \<le> hi"

fun utf8_valid :: "u8 list \<Rightarrow> bool" where
  "utf8_valid [] = True"
| "utf8_valid (a # s) =
     (if a < 128 then utf8_valid s
      else if in_range 194 223 a then
        (case s of b # s' \<Rightarrow> in_range 128 191 b \<and> utf8_valid s' | _ \<Rightarrow> False)
      else if in_range 224 239 a then
        (case s of b # c # s' \<Rightarrow>
           in_range (if a = 224 then 160 else 128) (if a = 237 then 159 else 191) b
           \<and> in_range 128 191 c \<and> utf8_valid s' | _ \<Rightarrow> False)
      else if in_range 240 244 a then
        (case s of b # c # d # s' \<Rightarrow>
           in_range (if a = 240 then 144 else 128) (if a = 244 then 143 else 191) b
           \<and> in_range 128 191 c \<and> in_range 128 191 d \<and> utf8_valid s' | _ \<Rightarrow> False)
      else False)"

definition generation_length_admitted :: "nat \<Rightarrow> bool" where
  "generation_length_admitted n \<longleftrightarrow> 1 \<le> n \<and> n \<le> MAX_GENERATION_BYTES_V1"

record CustodyFrameHeaderV1 =
  header_class :: CustodyCoverageClassV1
  header_code :: u8
  generation_id :: "u8 list"

definition header_new :: "CustodyCoverageClassV1 \<Rightarrow> u8 list \<Rightarrow> CustodyFrameErrorV1 + CustodyFrameHeaderV1" where
  "header_new cls gen =
     rbind (class_code cls) (\<lambda>code.
     if \<not> generation_length_admitted (length gen) then Inl InvalidGeneration
     else Inr \<lparr>header_class = cls, header_code = code, generation_id = gen\<rparr>)"

definition u16_try_from :: "nat \<Rightarrow> nat option" where
  "u16_try_from n = (if n < 65536 then Some n else None)"

definition header_encode :: "CustodyFrameHeaderV1 \<Rightarrow> CustodyFrameErrorV1 + u8 list" where
  "header_encode self =
     (case u16_try_from (length (generation_id self)) of
        None \<Rightarrow> Inl InvalidGeneration
      | Some n \<Rightarrow> Inr (MAGIC_V1 @ [VERSION_V1] @ [header_code self] @ le_bytes 2 n @ generation_id self))"

subsection \<open>Paths, modes and targets\<close>

definition path_length_admitted :: "nat \<Rightarrow> bool" where
  "path_length_admitted n \<longleftrightarrow> n \<le> MAX_PATH_BYTES_V1"

definition validate_component :: "u8 list \<Rightarrow> CustodyFrameErrorV1 + unit" where
  "validate_component c =
     (if c = [] then Inl (InvalidComponent FaultEmpty)
      else if MAX_COMPONENT_BYTES_V1 < length c then Inl (InvalidComponent FaultTooLong)
      else if c = [46] then Inl (InvalidComponent FaultDot)
      else if c = [46, 46] then Inl (InvalidComponent FaultDotDot)
      else if 0 \<in> set c then Inl (InvalidComponent FaultNul)
      else if SEPARATOR \<in> set c then Inl (InvalidComponent FaultSlash)
      else Inr ())"

definition path_components :: "u8 list \<Rightarrow> u8 list list" where
  "path_components bytes = split_on (\<lambda>b. b = SEPARATOR) bytes"

fun validate_components :: "u8 list list \<Rightarrow> CustodyFrameErrorV1 + unit" where
  "validate_components [] = Inr ()"
| "validate_components (c # cs) = rbind (validate_component c) (\<lambda>_. validate_components cs)"

definition path_from_bytes :: "u8 list \<Rightarrow> CustodyFrameErrorV1 + u8 list" where
  "path_from_bytes bytes =
     (if \<not> path_length_admitted (length bytes) then Inl PathTooLong
      else rbind (validate_components (path_components bytes)) (\<lambda>_. Inr bytes))"

fun join_components :: "u8 list list \<Rightarrow> u8 list \<Rightarrow> CustodyFrameErrorV1 + u8 list" where
  "join_components [] bytes = Inr bytes"
| "join_components (c # cs) bytes =
     rbind (validate_component c) (\<lambda>_.
     let separator = (if bytes \<noteq> [] then 1 else 0) in
     if \<not> path_length_admitted (length bytes + separator + length c) then Inl PathTooLong
     else join_components cs ((if separator = (1 :: nat) then bytes @ [SEPARATOR] else bytes) @ c))"

definition path_from_components :: "u8 list list \<Rightarrow> CustodyFrameErrorV1 + u8 list" where
  "path_from_components cs =
     rbind (join_components cs []) (\<lambda>bytes.
     if bytes = [] then Inl (InvalidComponent FaultEmpty) else Inr bytes)"

definition encode_mode :: "u32 \<Rightarrow> CustodyFrameErrorV1 + u16" where
  "encode_mode m = (if and m (not PERMISSION_BITS_V1) \<noteq> 0 then Inl UnsupportedMode else Inr (ucast m))"

definition decode_mode :: "u16 \<Rightarrow> CustodyFrameErrorV1 + u32" where
  "decode_mode m = (let m = ucast m in if PERMISSION_BITS_V1 < m then Inl UnsupportedMode else Inr m)"

definition symlink_target_length_admitted :: "nat \<Rightarrow> bool" where
  "symlink_target_length_admitted n \<longleftrightarrow> 1 \<le> n \<and> n \<le> MAX_SYMLINK_TARGET_BYTES_V1"

definition validate_symlink_target :: "u8 list \<Rightarrow> CustodyFrameErrorV1 + unit" where
  "validate_symlink_target t =
     (if \<not> symlink_target_length_admitted (length t) then Inl InvalidSymlinkTarget
      else if 0 \<in> set t then Inl InvalidSymlinkTarget
      else Inr ())"

record CustodyFrameBudgetV1 =
  max_entries :: u64
  max_frame_bytes :: u64

definition budget_new :: "u64 \<Rightarrow> u64 \<Rightarrow> CustodyFrameErrorV1 + CustodyFrameBudgetV1" where
  "budget_new entries bytes =
     (if MAX_ENTRIES_V1 < entries then Inl EntryLimit
      else if MAX_FRAME_BYTES_V1 < bytes then Inl ByteBudget
      else Inr \<lparr>max_entries = entries, max_frame_bytes = bytes\<rparr>)"

definition record_limit :: "CustodyFrameBudgetV1 \<Rightarrow> CustodyFrameErrorV1 + u64" where
  "record_limit self =
     (if TRAILER_BYTES_V1 \<le> max_frame_bytes self then Inr (max_frame_bytes self - TRAILER_BYTES_V1) else Inl ByteBudget)"

section \<open>The canonical order\<close>

text \<open>The open directories are their path lengths, the deepest first.\<close>

record CanonicalOrderV1 =
  previous :: "u8 list option"
  open_directories :: "nat list"

definition order_default :: CanonicalOrderV1 where
  "order_default = \<lparr>previous = None, open_directories = []\<rparr>"

definition is_ancestor :: "u8 list \<Rightarrow> u8 list \<Rightarrow> nat \<Rightarrow> bool" where
  "is_ancestor bytes prev n \<longleftrightarrow>
     n < length bytes \<and> bytes ! n = SEPARATOR \<and> n \<le> length prev \<and> take n prev = take n bytes"

text \<open>The length of the part before the last separator, or 0.\<close>

definition parent_length :: "u8 list \<Rightarrow> nat" where
  "parent_length bytes =
     (if SEPARATOR \<in> set bytes then length bytes - Suc (length (takeWhile (\<lambda>b. b \<noteq> SEPARATOR) (rev bytes))) else 0)"

definition order_admit :: "CanonicalOrderV1 \<Rightarrow> u8 list \<Rightarrow> bool \<Rightarrow> CustodyFrameErrorV1 + CanonicalOrderV1" where
  "order_admit self path is_directory =
     (if (case previous self of None \<Rightarrow> False | Some p \<Rightarrow> path_components path \<le> path_components p) then Inl OutOfOrder
      else let prev = (case previous self of None \<Rightarrow> [] | Some p \<Rightarrow> p);
               open = dropWhile (\<lambda>n. \<not> is_ancestor path prev n) (open_directories self)
           in if (case open of [] \<Rightarrow> 0 | n # _ \<Rightarrow> n) \<noteq> parent_length path then Inl MissingParent
              else Inr \<lparr>previous = Some path, open_directories = (if is_directory then length path # open else open)\<rparr>)"

section \<open>Components\<close>

fun joinp :: "u8 list list \<Rightarrow> u8 list" where
  "joinp [] = []"
| "joinp [c] = c"
| "joinp (c # cs) = c @ SEPARATOR # joinp cs"

lemma joinp_append: "xs \<noteq> [] \<Longrightarrow> ys \<noteq> [] \<Longrightarrow> joinp (xs @ ys) = joinp xs @ SEPARATOR # joinp ys"
proof (induction xs rule: joinp.induct)
  case (2 c)
  then show ?case by (cases ys) simp_all
qed simp_all

lemma split_on_nonempty [simp]: "split_on P s \<noteq> []"
  by (cases s) (simp_all split: list.split)

lemma path_components_nonempty [simp]: "path_components p \<noteq> []"
  by (simp add: path_components_def)

lemma joinp_path_components [simp]: "joinp (path_components p) = p"
  unfolding path_components_def
proof (induction p)
  case (Cons b p)
  show ?case
  proof (cases "split_on (\<lambda>b. b = SEPARATOR) p")
    case (Cons seg segs)
    with Cons.IH show ?thesis by (cases segs) auto
  qed simp
qed simp

lemma path_components_nosep: "c \<in> set (path_components p) \<Longrightarrow> SEPARATOR \<notin> set c"
  unfolding path_components_def
proof (induction p arbitrary: c)
  case (Cons b p)
  show ?case
  proof (cases "split_on (\<lambda>b. b = SEPARATOR) p")
    case (Cons seg segs)
    with Cons.IH Cons.prems show ?thesis by (auto split: if_splits)
  qed simp
qed simp

lemma path_components_append:
  "SEPARATOR \<notin> set c \<Longrightarrow> path_components (c @ SEPARATOR # rest) = c # path_components rest"
  unfolding path_components_def by (induction c) auto

lemma path_components_joinp_append:
  "ds \<noteq> [] \<Longrightarrow> \<forall>d\<in>set ds. SEPARATOR \<notin> set d \<Longrightarrow> path_components (joinp ds @ SEPARATOR # rest) = ds @ path_components rest"
proof (induction ds rule: joinp.induct)
  case (2 c)
  then show ?case by (simp add: path_components_append)
next
  case (3 c d ds)
  then show ?case using path_components_append [of c "joinp (d # ds) @ SEPARATOR # rest"] by simp
qed simp

lemma path_components_eq_iff [simp]: "path_components p = path_components q \<longleftrightarrow> p = q"
  by (metis joinp_path_components)

lemma path_components_joinp:
  assumes "cs \<noteq> []" and "\<forall>c\<in>set cs. SEPARATOR \<notin> set c"
  shows "path_components (joinp cs) = cs"
proof (cases "butlast cs")
  case Nil
  with assms obtain c where "cs = [c]" by (cases cs) (auto split: if_splits)
  moreover have "split_on (\<lambda>b. b = SEPARATOR) c = [c]" if "SEPARATOR \<notin> set c" for c
    using that by (induction c) auto
  ultimately show ?thesis using assms by (simp add: path_components_def)
next
  case (Cons d ds)
  let ?b = "butlast cs"
  have cs: "cs = ?b @ [last cs]" using assms(1) by simp
  have "joinp cs = joinp ?b @ SEPARATOR # joinp [last cs]" using Cons by (subst cs, intro joinp_append) simp_all
  moreover have "\<forall>c\<in>set ?b. SEPARATOR \<notin> set c" using assms(2) by (meson in_set_butlastD)
  ultimately have "path_components (joinp cs) = ?b @ path_components (last cs)"
    using Cons path_components_joinp_append [of ?b "last cs"] by simp
  moreover have "split_on (\<lambda>b. b = SEPARATOR) c = [c]" if "SEPARATOR \<notin> set c" for c
    using that by (induction c) auto
  ultimately show ?thesis using assms cs by (metis last_in_set path_components_def)
qed

text \<open>A prefix of the components of a path is a prefix of the path that ends before a separator.\<close>

lemma joinp_take:
  assumes "0 < k" and "k < length cs"
  shows "joinp cs = joinp (take k cs) @ SEPARATOR # joinp (drop k cs)"
  using joinp_append [of "take k cs" "drop k cs"] assms by (cases cs) auto

lemma is_ancestor_iff:
  assumes "0 < k" and "k \<le> length (path_components prev)"
  shows "is_ancestor q prev (length (joinp (take k (path_components prev)))) \<longleftrightarrow>
    k < length (path_components q) \<and> take k (path_components q) = take k (path_components prev)"
proof -
  let ?c = "path_components prev" and ?cs = "path_components q"
  let ?d = "joinp (take k ?c)"
  have prev: "take (length ?d) prev = ?d" "length ?d \<le> length prev"
  proof -
    have "\<exists>rest. joinp ?c = ?d @ rest"
      using assms joinp_take [of k ?c] by (cases "k = length ?c") auto
    then obtain rest where "prev = ?d @ rest" by auto
    then show "take (length ?d) prev = ?d" "length ?d \<le> length prev" by (metis append_eq_conv_conj, metis le_add1 length_append)
  qed
  have nosep: "\<forall>d\<in>set (take k ?c). SEPARATOR \<notin> set d" using path_components_nosep by (meson in_set_takeD)
  show ?thesis
  proof
    assume "is_ancestor q prev (length ?d)"
    then have n: "length ?d < length q" "q ! length ?d = SEPARATOR" "take (length ?d) q = ?d"
      using prev by (simp_all add: is_ancestor_def)
    then have "q = ?d @ SEPARATOR # drop (Suc (length ?d)) q" by (metis id_take_nth_drop)
    then have "?cs = take k ?c @ path_components (drop (Suc (length ?d)) q)"
      using path_components_joinp_append [OF _ nosep] assms by (metis length_0_conv length_take min.absorb2 not_gr_zero)
    then obtain rest where "?cs = take k ?c @ rest" "rest \<noteq> []" by (meson path_components_nonempty)
    with assms(2) show "k < length ?cs \<and> take k ?cs = take k ?c" by simp
  next
    assume eq: "k < length ?cs \<and> take k ?cs = take k ?c"
    then have "q = ?d @ SEPARATOR # joinp (drop k ?cs)" using joinp_take [of k ?cs] assms(1) by simp
    then have "length ?d < length q" "q ! length ?d = SEPARATOR" "take (length ?d) q = ?d"
      by (metis length_append less_add_same_cancel1 length_greater_0_conv list.distinct(1), metis nth_append_length, metis append_eq_conv_conj)
    with prev show "is_ancestor q prev (length ?d)" by (simp add: is_ancestor_def)
  qed
qed

lemma takeWhile_separator: "x \<notin> set xs \<Longrightarrow> takeWhile (\<lambda>b. b \<noteq> x) (xs @ x # ys) = xs"
  by (induction xs) auto

lemma parent_length_eq:
  "parent_length q = (if length (path_components q) = 1 then 0 else length (joinp (butlast (path_components q))))"
proof (cases "butlast (path_components q)")
  case Nil
  then obtain c where c: "path_components q = [c]" by (cases "path_components q") (auto split: if_splits)
  then have "q = c" using joinp_path_components [of q] by simp
  with c path_components_nosep [of c q] show ?thesis by (simp add: parent_length_def)
next
  case (Cons d ds)
  let ?b = "butlast (path_components q)" and ?l = "last (path_components q)"
  have cs: "path_components q = ?b @ [?l]" by simp
  have q: "q = joinp ?b @ SEPARATOR # ?l"
    using Cons joinp_append [of ?b "[?l]"] joinp_path_components [of q] by (metis cs joinp.simps(2) list.distinct(1))
  have "SEPARATOR \<notin> set ?l" using path_components_nosep [of ?l q] by (simp add: last_in_set)
  then have "takeWhile (\<lambda>b. b \<noteq> SEPARATOR) (rev q) = rev ?l"
    by (subst q) (simp add: takeWhile_separator)
  moreover have "SEPARATOR \<in> set q" by (subst q) simp
  moreover have "length q = length (joinp ?b) + Suc (length ?l)" by (subst q) simp
  moreover have "length (path_components q) \<noteq> 1" using Cons by (cases "path_components q") auto
  ultimately show ?thesis by (simp add: parent_length_def)
qed

section \<open>The order check is exact\<close>

definition valid_path :: "u8 list \<Rightarrow> bool" where
  "valid_path p \<longleftrightarrow> path_from_bytes p = Inr p"

lemma validate_components_iff: "validate_components cs = Inr u \<longleftrightarrow> (\<forall>c\<in>set cs. validate_component c = Inr ())"
  by (induction cs) (auto simp: rbind_Inr_iff)

lemma valid_path_components: "valid_path p \<Longrightarrow> c \<in> set (path_components p) \<Longrightarrow> c \<noteq> []"
  by (auto simp: valid_path_def path_from_bytes_def rbind_Inr_iff validate_components_iff validate_component_def split: if_splits)

fun admit_all :: "CanonicalOrderV1 \<Rightarrow> (u8 list \<times> bool) list \<Rightarrow> CustodyFrameErrorV1 + CanonicalOrderV1" where
  "admit_all ord [] = Inr ord"
| "admit_all ord ((path, dir) # es) = rbind (order_admit ord path dir) (\<lambda>ord. admit_all ord es)"

text \<open>The specification: strictly increasing component lists, and the parent of each entry is an earlier directory.\<close>

definition parent_present :: "(u8 list \<times> bool) list \<Rightarrow> u8 list \<Rightarrow> bool" where
  "parent_present es q \<longleftrightarrow>
     length (path_components q) = 1 \<or> (joinp (butlast (path_components q)), True) \<in> set es"

fun canonical_after :: "(u8 list \<times> bool) list \<Rightarrow> (u8 list \<times> bool) list \<Rightarrow> bool" where
  "canonical_after seen [] = True"
| "canonical_after seen ((q, d) # es) \<longleftrightarrow>
     (\<forall>(p, _)\<in>set seen. path_components p < path_components q) \<and> parent_present seen q
     \<and> canonical_after (seen @ [(q, d)]) es"

lemma prefix_between:
  fixes d :: "'a::linorder list"
  assumes "d \<le> c" and "c < d @ e"
  shows "take (length d) c = d"
  using assms
proof (induction d arbitrary: c)
  case (Cons x d)
  then obtain y c' where "c = y # c'" by (cases c) auto
  with Cons show ?case by (auto simp: less_eq_list_code)
qed simp

definition last_components :: "(u8 list \<times> bool) list \<Rightarrow> u8 list list" where
  "last_components es = (if es = [] then [] else path_components (fst (last es)))"

definition open_levels :: "(u8 list \<times> bool) list \<Rightarrow> u8 list list \<Rightarrow> nat list" where
  "open_levels es c = rev (filter (\<lambda>k. (joinp (take k c), True) \<in> set es) [1..<Suc (length c)])"

definition order_inv :: "(u8 list \<times> bool) list \<Rightarrow> CanonicalOrderV1 \<Rightarrow> bool" where
  "order_inv es ord \<longleftrightarrow>
     previous ord = (if es = [] then None else Some (fst (last es)))
     \<and> open_directories ord = map (\<lambda>k. length (joinp (take k (last_components es)))) (open_levels es (last_components es))
     \<and> (\<forall>(p, _)\<in>set es. valid_path p \<and> path_components p \<le> last_components es)"

lemma order_inv_default: "order_inv [] order_default"
  by (simp add: order_inv_def order_default_def last_components_def open_levels_def)

text \<open>A directory above the new path that appeared is above the previous path as well, so it is still open.\<close>

lemma ancestor_still_open:
  assumes "order_inv es ord" and "last_components es < path_components q" and "0 < k" and "k < length (path_components q)"
    and "(joinp (take k (path_components q)), d) \<in> set es"
  shows "take k (last_components es) = take k (path_components q)" and "k \<le> length (last_components es)"
proof -
  let ?c = "last_components es" and ?cs = "path_components q"
  have nosep: "\<forall>c\<in>set (take k ?cs). SEPARATOR \<notin> set c" using path_components_nosep by (meson in_set_takeD)
  have "take k ?cs \<noteq> []" using assms(3,4) by auto
  then have "path_components (joinp (take k ?cs)) = take k ?cs" using nosep by (intro path_components_joinp)
  moreover have "path_components (joinp (take k ?cs)) \<le> ?c" using assms(1,5) by (auto simp: order_inv_def)
  ultimately have "take k ?cs \<le> ?c" by simp
  moreover have "?c < take k ?cs @ drop k ?cs" using assms(2) by simp
  ultimately have "take (length (take k ?cs)) ?c = take k ?cs" by (rule prefix_between)
  with assms(4) show "take k ?c = take k ?cs" by simp
  then have "length (take k ?c) = k" using assms(4) by simp
  then show "k \<le> length ?c" by simp
qed

text \<open>Closing directories from the deepest one keeps exactly the ones above the new path.\<close>

lemma dropWhile_rev_filter:
  assumes "\<And>j k. P k \<Longrightarrow> j \<le> k \<Longrightarrow> P j"
  shows "dropWhile (\<lambda>k. \<not> P k) (rev (filter Q [m..<n])) = rev (filter (\<lambda>k. Q k \<and> P k) [m..<n])"
proof (induction n)
  case (Suc n)
  show ?case
  proof (cases "m \<le> n \<and> Q n \<and> P n")
    case True
    then have "filter (\<lambda>k. Q k \<and> P k) [m..<n] = filter Q [m..<n]" using assms [of n] by (intro filter_cong) auto
    with True show ?thesis by simp
  qed (use Suc in auto)
qed simp

lemma dropWhile_cong_map:
  assumes "\<And>x. x \<in> set xs \<Longrightarrow> P (f x) = Q x"
  shows "dropWhile P (map f xs) = map f (dropWhile Q xs)"
  using assms by (induction xs) auto

abbreviation above :: "(u8 list \<times> bool) list \<Rightarrow> u8 list list \<Rightarrow> nat list" where
  "above es cs \<equiv> rev (filter (\<lambda>k. (joinp (take k cs), True) \<in> set es) [1..<length cs])"

lemma closed_levels:
  assumes inv: "order_inv es ord" and lt: "last_components es < cs" and cs: "cs = path_components q"
  shows "filter (\<lambda>k. (joinp (take k (last_components es)), True) \<in> set es \<and> k < length cs \<and> take k cs = take k (last_components es))
      [1..<Suc (length (last_components es))] = filter (\<lambda>k. (joinp (take k cs), True) \<in> set es) [1..<length cs]"
proof (rule sorted_distinct_set_unique)
  have "(joinp (take k (last_components es)), True) \<in> set es \<and> k < length cs \<and> take k cs = take k (last_components es)
      \<and> k \<in> set [1..<Suc (length (last_components es))]
    \<longleftrightarrow> (joinp (take k cs), True) \<in> set es \<and> k \<in> set [1..<length cs]" for k
    using ancestor_still_open [OF inv, of q k True] lt unfolding cs by auto
  then show "set (filter (\<lambda>k. (joinp (take k (last_components es)), True) \<in> set es \<and> k < length cs \<and> take k cs = take k (last_components es))
      [1..<Suc (length (last_components es))]) = set (filter (\<lambda>k. (joinp (take k cs), True) \<in> set es) [1..<length cs])"
    unfolding set_filter by blast
qed (simp_all add: sorted_wrt_filter del: upt_Suc)

lemma closed_directories:
  assumes inv: "order_inv es ord" and lt: "es \<noteq> [] \<longrightarrow> last_components es < path_components q"
  shows "dropWhile (\<lambda>n. \<not> is_ancestor q (case previous ord of None \<Rightarrow> [] | Some p \<Rightarrow> p) n) (open_directories ord) =
    map (\<lambda>k. length (joinp (take k (path_components q)))) (above es (path_components q))"
proof (cases "es = []")
  case True
  with inv show ?thesis by (simp add: order_inv_def last_components_def open_levels_def)
next
  case False
  define prev where "prev = fst (last es)"
  define c where "c = path_components prev"
  define cs where "cs = path_components q"
  have c_last: "last_components es = c" using False by (simp add: last_components_def c_def prev_def)
  have lt': "last_components es < cs" using lt False by (simp add: cs_def)
  define P where "P = (\<lambda>k. k < length cs \<and> take k cs = take k c)"
  define Q where "Q = (\<lambda>k. (joinp (take k c), True) \<in> set es)"
  have down: "P j" if "P k" "j \<le> k" for j k
  proof -
    have "take j (take k cs) = take j (take k c)" using that(1) by (simp add: P_def del: take_take)
    then have "take j cs = take j c" using that(2) by (simp add: min_absorb1)
    with that show ?thesis by (simp add: P_def)
  qed
  have open_ord: "open_directories ord = map (\<lambda>k. length (joinp (take k c))) (rev (filter Q [1..<Suc (length c)]))"
    using inv by (simp only: order_inv_def open_levels_def c_last Q_def)
  have anc: "(\<not> is_ancestor q prev (length (joinp (take k c)))) = (\<not> P k)" if "k \<in> set (rev (filter Q [1..<Suc (length c)]))" for k
  proof -
    have "0 < k" "k \<le> length c" using that by (simp_all del: upt_Suc)
    then show ?thesis using is_ancestor_iff [of k prev q] by (simp add: P_def c_def cs_def)
  qed
  have "dropWhile (\<lambda>n. \<not> is_ancestor q prev n) (open_directories ord) =
    map (\<lambda>k. length (joinp (take k c))) (dropWhile (\<lambda>k. \<not> P k) (rev (filter Q [1..<Suc (length c)])))"
    unfolding open_ord by (rule dropWhile_cong_map) (rule anc)
  also have "\<dots> = map (\<lambda>k. length (joinp (take k c))) (rev (filter (\<lambda>k. Q k \<and> P k) [1..<Suc (length c)]))"
    by (simp only: dropWhile_rev_filter [of P Q, OF down])
  also have "\<dots> = map (\<lambda>k. length (joinp (take k cs))) (rev (filter (\<lambda>k. Q k \<and> P k) [1..<Suc (length c)]))"
    by (rule map_cong) (auto simp: P_def simp del: upt_Suc)
  also have "filter (\<lambda>k. Q k \<and> P k) [1..<Suc (length c)] = filter (\<lambda>k. (joinp (take k cs), True) \<in> set es) [1..<length cs]"
    using closed_levels [OF inv lt' cs_def] unfolding P_def Q_def c_last .
  finally show ?thesis using inv False by (simp add: order_inv_def cs_def prev_def)
qed

text \<open>Deeper prefixes of a valid path are longer.\<close>

lemma joinp_pos: "cs \<noteq> [] \<Longrightarrow> \<forall>c\<in>set cs. c \<noteq> [] \<Longrightarrow> 0 < length (joinp cs)"
  by (cases cs rule: joinp.cases) auto

lemma joinp_take_length_less:
  assumes "0 < j" and "j < k" and "k \<le> length cs"
  shows "length (joinp (take j cs)) < length (joinp (take k cs))"
proof -
  have "joinp (take k cs) = joinp (take j (take k cs)) @ SEPARATOR # joinp (drop j (take k cs))"
    using assms by (intro joinp_take) simp_all
  moreover have "take j (take k cs) = take j cs" using assms by (simp add: min_absorb1)
  ultimately show ?thesis by simp
qed

abbreviation deepest :: "nat list \<Rightarrow> nat" where
  "deepest open \<equiv> (case open of [] \<Rightarrow> 0 | n # _ \<Rightarrow> n)"

lemma deepest_open_parent:
  assumes "valid_path q"
  shows "deepest (map (\<lambda>k. length (joinp (take k (path_components q)))) (above es (path_components q))) = parent_length q
    \<longleftrightarrow> parent_present es q"
proof (cases "length (path_components q) = 1")
  case False
  define cs where "cs = path_components q"
  obtain n where n: "length cs = Suc (Suc n)"
    using False path_components_nonempty [of q] unfolding cs_def
    by (metis One_nat_def length_0_conv old.nat.exhaust)
  have b: "butlast cs = take (Suc n) cs" using n by (simp add: butlast_conv_take)
  have pos: "0 < length (joinp (take (Suc n) cs))"
    using n valid_path_components [OF assms] by (intro joinp_pos) (auto simp: cs_def dest: in_set_takeD)
  have parent: "parent_length q = length (joinp (take (Suc n) cs))" using False b by (simp add: parent_length_eq cs_def)
  have present: "parent_present es q \<longleftrightarrow> (joinp (take (Suc n) cs), True) \<in> set es"
    using False b by (simp add: parent_present_def cs_def)
  have upt: "[1..<length cs] = [1..<Suc n] @ [Suc n]" using n by simp
  show ?thesis
  proof (cases "(joinp (take (Suc n) cs), True) \<in> set es")
    case True
    then show ?thesis unfolding present parent cs_def [symmetric] upt by simp
  next
    case absent: False
    define l where "l = rev (filter (\<lambda>k. (joinp (take k cs), True) \<in> set es) [1..<Suc n])"
    have l: "above es cs = l" using absent unfolding upt l_def filter_append by (simp del: upt_Suc)
    have "length (joinp (take k cs)) < length (joinp (take (Suc n) cs))" if "k \<in> set l" for k
      using that n by (intro joinp_take_length_less) (auto simp: l_def)
    then have "deepest (map (\<lambda>k. length (joinp (take k cs))) l) < length (joinp (take (Suc n) cs))"
      using pos by (cases l) auto
    with absent show ?thesis unfolding present parent cs_def [symmetric] l by simp
  qed
qed (simp add: parent_length_eq parent_present_def)

lemma order_admit_eq:
  assumes "order_inv es ord" and "valid_path q"
  shows "order_admit ord q d =
    (if es \<noteq> [] \<and> path_components q \<le> last_components es then Inl OutOfOrder
     else if \<not> parent_present es q then Inl MissingParent
     else Inr \<lparr>previous = Some q, open_directories =
       (if d then [length q] else []) @ map (\<lambda>k. length (joinp (take k (path_components q)))) (above es (path_components q))\<rparr>)"
proof (cases "es \<noteq> [] \<and> path_components q \<le> last_components es")
  case True
  then have "es \<noteq> []" "path_components q \<le> path_components (fst (last es))" by (auto simp: last_components_def)
  with True assms(1) show ?thesis by (simp add: order_admit_def order_inv_def)
next
  case False
  then have lt: "es \<noteq> [] \<longrightarrow> last_components es < path_components q" by auto
  have order: "\<not> (case previous ord of None \<Rightarrow> False | Some p \<Rightarrow> path_components q \<le> path_components p)"
    using False assms(1) by (auto simp: order_inv_def last_components_def split: if_splits)
  show ?thesis
    using False deepest_open_parent [OF assms(2), of es]
    unfolding order_admit_def if_not_P [OF order] Let_def closed_directories [OF assms(1) lt] by simp
qed

lemma open_levels_snoc:
  assumes "order_inv es ord" and "es \<noteq> [] \<longrightarrow> last_components es < path_components q"
  shows "open_levels (es @ [(q, d)]) (path_components q) =
    (if d then [length (path_components q)] else []) @ above es (path_components q)"
proof -
  define cs where "cs = path_components q"
  have nonempty: "cs \<noteq> []" by (simp add: cs_def)
  have q: "joinp cs = q" by (simp add: cs_def)
  have new: "(q, True) \<notin> set es"
  proof
    assume "(q, True) \<in> set es"
    then have "cs \<le> last_components es" "es \<noteq> []" using assms(1) by (auto simp: order_inv_def cs_def)
    with assms(2) show False by (simp add: cs_def)
  qed
  have inner: "joinp (take k cs) \<noteq> q" if "k \<in> set [1..<length cs]" for k
    using joinp_take_length_less [of k "length cs" cs] that q by auto
  have "filter (\<lambda>k. (joinp (take k cs), True) \<in> set (es @ [(q, d)])) [1..<length cs] =
      filter (\<lambda>k. (joinp (take k cs), True) \<in> set es) [1..<length cs]"
    using inner by (intro filter_cong) auto
  moreover have "[1..<Suc (length cs)] = [1..<length cs] @ [length cs]" using nonempty by (simp add: Suc_leI)
  ultimately show ?thesis using new q unfolding open_levels_def cs_def [symmetric] by simp
qed

lemma order_inv_admit:
  assumes inv: "order_inv es ord" and valid: "valid_path q"
  shows "(\<exists>ord'. order_admit ord q d = Inr ord' \<and> order_inv (es @ [(q, d)]) ord')
      \<and> (\<forall>(p, _)\<in>set es. path_components p < path_components q) \<and> parent_present es q
    \<or> (\<exists>e. order_admit ord q d = Inl e)
      \<and> \<not> ((\<forall>(p, _)\<in>set es. path_components p < path_components q) \<and> parent_present es q)"
proof -
  have increasing: "(\<forall>(p, _)\<in>set es. path_components p < path_components q)
      \<longleftrightarrow> \<not> (es \<noteq> [] \<and> path_components q \<le> last_components es)"
  proof (cases "es = []")
    case False
    then have "last es \<in> set es" by simp
    moreover have "\<forall>(p, _)\<in>set es. path_components p \<le> last_components es" using inv by (auto simp: order_inv_def)
    ultimately show ?thesis using False by (auto simp: last_components_def case_prod_unfold not_le intro: le_less_trans)
  qed simp
  show ?thesis
  proof (cases "es \<noteq> [] \<and> path_components q \<le> last_components es")
    case False
    then have lt: "es \<noteq> [] \<longrightarrow> last_components es < path_components q" by auto
    have "path_components p \<le> path_components q" if "(p, x) \<in> set es" for p x
      using that increasing False by (auto dest: less_imp_le)
    then have "order_inv (es @ [(q, d)]) \<lparr>previous = Some q, open_directories =
       (if d then [length q] else []) @ map (\<lambda>k. length (joinp (take k (path_components q)))) (above es (path_components q))\<rparr>"
      using inv valid open_levels_snoc [OF inv lt, of d] by (auto simp: order_inv_def last_components_def)
    with False increasing order_admit_eq [OF inv valid, of d] show ?thesis by (cases "parent_present es q") auto
  qed (use increasing order_admit_eq [OF inv valid, of d] in auto)
qed

lemma admit_all_exact:
  assumes "order_inv seen ord" and "\<forall>(p, _)\<in>set es. valid_path p"
  shows "is_ok (admit_all ord es) \<longleftrightarrow> canonical_after seen es"
  using assms
proof (induction es arbitrary: seen ord)
  case (Cons e es)
  obtain q d where e: "e = (q, d)" by force
  from Cons.prems e have "valid_path q" by simp
  from order_inv_admit [OF Cons.prems(1) this, of d] show ?case
    using Cons.IH Cons.prems(2) by (auto simp: e)
qed simp

lemma canonical_after_iff:
  "canonical_after seen es \<longleftrightarrow> sorted_wrt (<) (map (path_components \<circ> fst) es)
     \<and> (\<forall>p\<in>set seen. \<forall>q\<in>set es. path_components (fst p) < path_components (fst q))
     \<and> (\<forall>i<length es. parent_present (seen @ take i es) (fst (es ! i)))"
proof (induction es arbitrary: seen)
  case (Cons e es)
  have split: "(\<forall>i<length (e # es). parent_present (seen @ take i (e # es)) (fst ((e # es) ! i))) \<longleftrightarrow>
      parent_present seen (fst e) \<and> (\<forall>i<length es. parent_present ((seen @ [e]) @ take i es) (fst (es ! i)))"
    by (auto simp: less_Suc_eq_0_disj)
  obtain q d where e: "e = (q, d)" by force
  show ?case unfolding split unfolding e canonical_after.simps Cons.IH by (auto simp: comp_def)
qed simp

text \<open>
  C16: The order check with its stack of open directories accepts exactly the canonical listings of a tree: the entries come in
  strictly increasing component order, so that no path is repeated, and the parent of every entry that is not at the top
  is an earlier entry that is a directory. The stack needs no search, and a parent that appeared is never missed.
\<close>

theorem canonical_order_exact:
  assumes "\<forall>(p, _)\<in>set es. valid_path p"
  shows "is_ok (admit_all order_default es) \<longleftrightarrow>
    sorted_wrt (<) (map (path_components \<circ> fst) es) \<and> (\<forall>i<length es. parent_present (take i es) (fst (es ! i)))"
  using admit_all_exact [OF order_inv_default assms] canonical_after_iff [of "[]" es] by simp

definition example_listing :: "(u8 list \<times> bool) list" where
  "example_listing = [([97], True), ([97, 47, 98], True), ([97, 47, 98, 47, 99], False), ([97, 47, 98, 45], False), ([98], False)]"

theorem canonical_order_exact_witness: "is_ok (admit_all order_default example_listing)"
proof -
  have valid: "\<forall>(p, _)\<in>set example_listing. valid_path p" by code_simp
  have "sorted_wrt (<) (map (path_components \<circ> fst) example_listing)" by code_simp
  moreover have "\<forall>i<length example_listing. parent_present (take i example_listing) (fst (example_listing ! i))" by code_simp
  ultimately show ?thesis using canonical_order_exact [OF valid] by simp
qed

end
