(* ===== verification/Custody_Stream.thy ===== *)
theory Custody_Stream
  imports Custody_Frame
begin

text \<open>
  What the encoder and the decoder of the coverage frame share (\<open>custody_frame.rs\<close>): reading from a byte source that may
  return fewer bytes than were asked for, writing to a sink that may take fewer bytes than were offered, the running
  frame digest, and the specification of the frame as a function from entries to bytes. A reader and a sink are the functions
  of their \<open>read\<close> and \<open>write\<close> calls, with \<open>Interrupted\<close> calls already repeated; a running digest is the bytes it was fed.
\<close>

section \<open>Reading and writing\<close>

type_synonym 's reader = "'s \<Rightarrow> nat \<Rightarrow> (string + u8 list) \<times> 's"
type_synonym 'w sink_write = "'w \<Rightarrow> u8 list \<Rightarrow> (string + nat) \<times> 'w"

definition read_some :: "'s reader \<Rightarrow> 's \<Rightarrow> nat \<Rightarrow> CustodyFrameErrorV1 + u8 list \<times> 's" where
  "read_some rd s n =
     (case rd s n of
        (Inl kind, _) \<Rightarrow> Inl (FrameIo kind)
      | (Inr bytes, s) \<Rightarrow> if length bytes \<le> n then Inr (bytes, s) else Inl (FrameIo ''InvalidData''))"

lemma read_some_length: "read_some rd s n = Inr (bytes, s') \<Longrightarrow> length bytes \<le> n"
  by (auto simp: read_some_def split: prod.splits sum.splits if_splits)

function (sequential) read_exactly :: "'s reader \<Rightarrow> 's \<Rightarrow> nat \<Rightarrow> CustodyFrameErrorV1 + u8 list \<times> 's" where
  "read_exactly rd s n =
     (if n = 0 then Inr ([], s)
      else case read_some rd s n of
          Inl e \<Rightarrow> Inl e
        | Inr (bytes, s) \<Rightarrow>
            if bytes = [] then Inl FrameTruncated
            else rbind (read_exactly rd s (n - length bytes)) (\<lambda>(rest, s). Inr (bytes @ rest, s)))"
  by pat_completeness auto
termination
  by (relation "measure (\<lambda>(rd, s, n). n)") auto

declare read_exactly.simps [simp del]

definition chunk_length :: "u64 \<Rightarrow> nat \<Rightarrow> nat" where
  "chunk_length remaining capacity = min (unat remaining) capacity"

text \<open>The sink, and everything emitted so far as the input of the frame digest.\<close>

record 'w FrameSinkV1 =
  sink :: 'w
  frame :: "u8 list"
  frame_bytes :: u64

function (sequential) write_all :: "'w sink_write \<Rightarrow> 'w \<Rightarrow> u8 list \<Rightarrow> CustodyFrameErrorV1 + 'w" where
  "write_all wr w bytes =
     (if bytes = [] then Inr w
      else case wr w bytes of
          (Inl kind, _) \<Rightarrow> Inl (FrameIo kind)
        | (Inr written, w) \<Rightarrow>
            if written = 0 then Inl (FrameIo ''WriteZero'')
            else if length bytes < written then Inl (FrameIo ''InvalidData'')
            else write_all wr w (drop written bytes))"
  by pat_completeness auto
termination
  by (relation "measure (\<lambda>(wr, w, bytes). length bytes)") auto

declare write_all.simps [simp del]

definition emit :: "'w sink_write \<Rightarrow> 'w FrameSinkV1 \<Rightarrow> u8 list \<Rightarrow> CustodyFrameErrorV1 + 'w FrameSinkV1" where
  "emit wr self bytes =
     rbind (write_all wr (sink self) bytes) (\<lambda>w.
     case checked_add (frame_bytes self) (of_nat (length bytes)) of
       None \<Rightarrow> Inl ByteBudget
     | Some fb \<Rightarrow> Inr (self\<lparr>sink := w, frame := frame self @ bytes, frame_bytes := fb\<rparr>))"

definition record_prefix :: "u8 \<Rightarrow> u8 list \<Rightarrow> CustodyFrameErrorV1 + u8 list" where
  "record_prefix tag path =
     (case u16_try_from (length path) of
        None \<Rightarrow> Inl PathTooLong
      | Some n \<Rightarrow> Inr ([tag] @ le_bytes 2 n @ path))"

section \<open>Contracts of a source and a sink\<close>

text \<open>
  A source that does not fail: it has bytes left, each call returns a prefix of them, and it returns none only at the end or
  when none were asked for.
\<close>

locale byte_reader =
  fixes rd :: "'s reader" and remaining :: "'s \<Rightarrow> u8 list"
  assumes read_law: "\<exists>bytes s'. rd s n = (Inr bytes, s') \<and> remaining s = bytes @ remaining s' \<and> length bytes \<le> n
    \<and> (0 < n \<longrightarrow> remaining s \<noteq> [] \<longrightarrow> bytes \<noteq> [])"
begin

lemma read_some_ex:
  "\<exists>bytes s'. read_some rd s n = Inr (bytes, s') \<and> remaining s = bytes @ remaining s' \<and> length bytes \<le> n
     \<and> (0 < n \<longrightarrow> remaining s \<noteq> [] \<longrightarrow> bytes \<noteq> [])"
  using read_law [of s n] by (auto simp: read_some_def)

lemma probe_spec:
  "if remaining s = [] then \<exists>s'. read_some rd s 1 = Inr ([], s') \<and> remaining s' = []
   else \<exists>b s'. read_some rd s 1 = Inr ([b], s')"
proof -
  obtain bytes s' where r: "read_some rd s (Suc 0) = Inr (bytes, s')" "remaining s = bytes @ remaining s'" "length bytes \<le> Suc 0"
    "0 < Suc 0 \<longrightarrow> remaining s \<noteq> [] \<longrightarrow> bytes \<noteq> []" using read_some_ex [of s "Suc 0"] by (elim exE conjE)
  then show ?thesis by (cases bytes) auto
qed

lemma read_exactly_spec:
  "if n \<le> length (remaining s)
   then \<exists>s'. read_exactly rd s n = Inr (take n (remaining s), s') \<and> remaining s' = drop n (remaining s)
   else read_exactly rd s n = Inl FrameTruncated"
proof (induction n arbitrary: s rule: less_induct)
  case (less n)
  show ?case
  proof (cases "n = 0")
    case False
    obtain bytes s' where r: "read_some rd s n = Inr (bytes, s')" "remaining s = bytes @ remaining s'" "length bytes \<le> n"
      "0 < n \<longrightarrow> remaining s \<noteq> [] \<longrightarrow> bytes \<noteq> []" using read_some_ex [of s n] by (elim exE conjE)
    show ?thesis
    proof (cases "bytes = []")
      case True
      with r False show ?thesis by (simp add: read_exactly.simps [of rd s])
    next
      case nonempty: False
      then have "n - length bytes < n" using False by (cases bytes) auto
      from less.IH [OF this, of s'] show ?thesis
        using r False nonempty by (auto simp: read_exactly.simps [of rd s] split: if_splits)
    qed
  qed (simp add: read_exactly.simps [of rd s])
qed

end

text \<open>A sink that does not fail: each call takes a non-empty prefix of what it is offered.\<close>

locale byte_sink =
  fixes wr :: "'w sink_write" and written_to :: "'w \<Rightarrow> u8 list"
  assumes write_law: "bytes \<noteq> [] \<Longrightarrow> \<exists>n w'. wr w bytes = (Inr n, w') \<and> 0 < n \<and> n \<le> length bytes
    \<and> written_to w' = written_to w @ take n bytes"
begin

lemma write_all_spec: "\<exists>w'. write_all wr w bytes = Inr w' \<and> written_to w' = written_to w @ bytes"
proof (induction "length bytes" arbitrary: w bytes rule: less_induct)
  case less
  show ?case
  proof (cases "bytes = []")
    case False
    with write_law obtain n w1 where w1: "wr w bytes = (Inr n, w1)" "0 < n" "n \<le> length bytes"
      "written_to w1 = written_to w @ take n bytes" by blast
    with less [of "drop n bytes" w1] False obtain w' where "write_all wr w1 (drop n bytes) = Inr w'"
      "written_to w' = written_to w1 @ drop n bytes" by auto
    with w1 False show ?thesis by (simp add: write_all.simps [of wr w])
  qed (simp add: write_all.simps)
qed

end

text \<open>\<open>Read\<close> of a byte slice and \<open>Write\<close> of a vector, whole and in pieces of at most \<open>Suc c\<close> bytes.\<close>

definition slice_read :: "u8 list reader" where
  "slice_read s n = (Inr (take n s), drop n s)"

definition chunk_read :: "nat \<Rightarrow> u8 list reader" where
  "chunk_read c s n = slice_read s (min (Suc c) n)"

definition chunk_write :: "nat \<Rightarrow> u8 list sink_write" where
  "chunk_write c w bytes = (let n = min (Suc c) (length bytes) in (Inr n, w @ take n bytes))"

interpretation slice: byte_reader slice_read "\<lambda>s. s"
  by unfold_locales (auto simp: slice_read_def)

interpretation chunks: byte_reader "chunk_read c" "\<lambda>s. s" for c
  by unfold_locales (auto simp: slice_read_def chunk_read_def)

interpretation pieces: byte_sink "chunk_write c" "\<lambda>w. w" for c
  by unfold_locales (auto simp: chunk_write_def Let_def)

lemma slice_read_exactly:
  "read_exactly slice_read s n = (if n \<le> length s then Inr (take n s, drop n s) else Inl FrameTruncated)"
  using slice.read_exactly_spec [of n s] by auto

section \<open>Little-endian integers\<close>

lemma length_le_bytes [simp]: "length (le_bytes k v) = k"
  by (induction k arbitrary: v) simp_all

lemma from_le_bytes_less: "from_le_bytes bs < 256 ^ length bs"
proof (induction bs)
  case (Cons b bs)
  then have "Suc (from_le_bytes bs) \<le> 256 ^ length bs" by simp
  then have "256 * Suc (from_le_bytes bs) \<le> 256 * 256 ^ length bs" by simp
  moreover have "unat b < 256" by (rule unat_u8_less)
  ultimately show ?case by simp
qed simp

lemma from_le_bytes_le_bytes [simp]: "from_le_bytes (le_bytes k v) = v mod 256 ^ k"
  by (induction k arbitrary: v) (simp_all add: unat_of_nat mod_mult2_eq)

lemma le_bytes_from_le_bytes [simp]: "le_bytes (length bs) (from_le_bytes bs) = bs"
proof (induction bs)
  case (Cons b bs)
  have "unat b < 256" by (rule unat_u8_less)
  moreover from this have "(unat b + 256 * from_le_bytes bs) div 256 = from_le_bytes bs" by simp
  moreover have "of_nat (unat b + 256 * n) = b" for n
    by (rule word_unat_eq_iff [THEN iffD2]) (simp only: unat_of_nat, simp add: unat_u8_less)
  ultimately show ?case using Cons.IH by simp
qed simp

section \<open>The frame as a function of its entries\<close>

datatype FrameEntry =
    FrameDirectory (entry_path: "u8 list") u32
  | FrameRegular (entry_path: "u8 list") u32 "u8 list"
  | FrameSymlink (entry_path: "u8 list") "u8 list"

fun entry_is_directory :: "FrameEntry \<Rightarrow> bool" where
  "entry_is_directory (FrameDirectory _ _) = True"
| "entry_is_directory _ = False"

fun entry_content :: "FrameEntry \<Rightarrow> u8 list" where
  "entry_content (FrameRegular _ _ content) = content"
| "entry_content _ = []"

abbreviation entry_key :: "FrameEntry \<Rightarrow> u8 list \<times> bool" where
  "entry_key e \<equiv> (entry_path e, entry_is_directory e)"

fun entry_valid :: "FrameEntry \<Rightarrow> bool" where
  "entry_valid (FrameDirectory path mode) \<longleftrightarrow> valid_path path \<and> is_ok (encode_mode mode)"
| "entry_valid (FrameRegular path mode content) \<longleftrightarrow> valid_path path \<and> is_ok (encode_mode mode)"
| "entry_valid (FrameSymlink path target) \<longleftrightarrow> valid_path path \<and> is_ok (validate_symlink_target target)"

abbreviation prefix_bytes :: "u8 \<Rightarrow> u8 list \<Rightarrow> u8 list" where
  "prefix_bytes tag path \<equiv> [tag] @ le_bytes 2 (length path) @ path"

fun entry_bytes :: "(u8 list \<Rightarrow> u8 list) \<Rightarrow> FrameEntry \<Rightarrow> u8 list" where
  "entry_bytes sha (FrameDirectory path mode) = prefix_bytes TAG_DIRECTORY_V1 path @ le_bytes 2 (unat mode)"
| "entry_bytes sha (FrameRegular path mode content) =
     prefix_bytes TAG_REGULAR_V1 path @ le_bytes 2 (unat mode) @ le_bytes 8 (length content) @ content @ sha content"
| "entry_bytes sha (FrameSymlink path target) =
     prefix_bytes TAG_SYMLINK_V1 path @ le_bytes 2 (length target) @ target"

definition header_bytes :: "CustodyFrameHeaderV1 \<Rightarrow> u8 list" where
  "header_bytes h = MAGIC_V1 @ [VERSION_V1] @ [header_code h] @ le_bytes 2 (length (generation_id h)) @ generation_id h"

definition entries_bytes :: "(u8 list \<Rightarrow> u8 list) \<Rightarrow> CustodyFrameHeaderV1 \<Rightarrow> FrameEntry list \<Rightarrow> u8 list" where
  "entries_bytes sha h es = header_bytes h @ concat (map (entry_bytes sha) es)"

definition content_total :: "FrameEntry list \<Rightarrow> nat" where
  "content_total es = sum_list (map (length \<circ> entry_content) es)"

definition trailer_bytes :: "FrameEntry list \<Rightarrow> u8 list" where
  "trailer_bytes es = [TAG_TRAILER_V1] @ le_bytes 8 (length es) @ le_bytes 8 (content_total es)"

definition frame_of :: "(u8 list \<Rightarrow> u8 list) \<Rightarrow> CustodyFrameHeaderV1 \<Rightarrow> FrameEntry list \<Rightarrow> u8 list" where
  "frame_of sha h es = (let body = entries_bytes sha h es @ trailer_bytes es in body @ sha body)"

text \<open>What a header, a budget and the entries must satisfy. A digest has 32 bytes.\<close>

definition header_valid :: "CustodyFrameHeaderV1 \<Rightarrow> bool" where
  "header_valid h \<longleftrightarrow> header_new (header_class h) (generation_id h) = Inr h \<and> utf8_valid (generation_id h)"

definition digest32 :: "(u8 list \<Rightarrow> u8 list) \<Rightarrow> bool" where
  "digest32 sha \<longleftrightarrow> (\<forall>m. length (sha m) = 32)"

definition frame_ok :: "(u8 list \<Rightarrow> u8 list) \<Rightarrow> CustodyFrameBudgetV1 \<Rightarrow> CustodyFrameHeaderV1 \<Rightarrow> FrameEntry list \<Rightarrow> bool" where
  "frame_ok sha b h es \<longleftrightarrow>
     (\<forall>e\<in>set es. entry_valid e) \<and> is_ok (admit_all order_default (map entry_key es))
     \<and> length es \<le> unat (max_entries b) \<and> length (frame_of sha h es) \<le> unat (max_frame_bytes b)"

lemma length_header_bytes: "length (header_bytes h) = 12 + length (generation_id h)"
  by (simp add: header_bytes_def MAGIC_V1_def)

lemma length_frame_of: "digest32 sha \<Longrightarrow> length (frame_of sha h es) = length (entries_bytes sha h es) + 49"
  by (simp add: frame_of_def trailer_bytes_def digest32_def Let_def)

lemma entries_bytes_snoc: "entries_bytes sha h (es @ [e]) = entries_bytes sha h es @ entry_bytes sha e"
  by (simp add: entries_bytes_def)

lemma content_total_snoc: "content_total (es @ [e]) = content_total es + length (entry_content e)"
  by (simp add: content_total_def)

lemma content_total_le: "content_total es \<le> length (entries_bytes sha h es)"
proof (induction es rule: rev_induct)
  case (snoc e es)
  then show ?case by (cases e) (auto simp: entries_bytes_snoc content_total_snoc)
qed (simp add: content_total_def)

lemma admit_all_snoc:
  "admit_all ord (xs @ [x]) = rbind (admit_all ord xs) (\<lambda>ord. order_admit ord (fst x) (snd x))"
proof (induction xs arbitrary: ord)
  case Nil
  show ?case by (cases x; cases "order_admit ord (fst x) (snd x)") auto
next
  case (Cons y xs)
  then show ?case by (cases y; cases "order_admit ord (fst y) (snd y)") auto
qed

lemma frame_ok_snoc:
  assumes "digest32 sha"
  shows "frame_ok sha b h (es @ [e]) \<longleftrightarrow> frame_ok sha b h es \<and> entry_valid e
    \<and> is_ok (rbind (admit_all order_default (map entry_key es)) (\<lambda>ord. order_admit ord (entry_path e) (entry_is_directory e)))
    \<and> length es < unat (max_entries b)
    \<and> length (entries_bytes sha h es) + length (entry_bytes sha e) + 49 \<le> unat (max_frame_bytes b)"
  using assms by (cases "admit_all order_default (map entry_key es)")
    (auto simp: frame_ok_def length_frame_of entries_bytes_snoc admit_all_snoc)

lemma frame_ok_append: "digest32 sha \<Longrightarrow> frame_ok sha b h (es @ xs) \<Longrightarrow> frame_ok sha b h es"
proof (induction xs rule: rev_induct)
  case (snoc x xs)
  then show ?case using frame_ok_snoc [of sha b h "es @ xs" x] by simp
qed simp

text \<open>The modes of a valid entry are the permission bits, in both directions.\<close>

lemma encode_mode_iff: "encode_mode m = Inr w \<longleftrightarrow> unat m \<le> 511 \<and> w = ucast m"
proof -
  have "and m (not PERMISSION_BITS_V1) = 0 \<longleftrightarrow> take_bit 9 m = m"
  proof -
    have "PERMISSION_BITS_V1 = mask 9" by (simp add: PERMISSION_BITS_V1_def mask_eq_exp_minus_1)
    then have "and m PERMISSION_BITS_V1 = take_bit 9 m" by (simp add: take_bit_eq_mask)
    moreover have "and m (not PERMISSION_BITS_V1) = 0 \<longleftrightarrow> and m PERMISSION_BITS_V1 = m"
      by (auto simp: bit_eq_iff bit_simps)
    ultimately show ?thesis by simp
  qed
  also have "\<dots> \<longleftrightarrow> unat m \<le> 511"
    by (simp add: word_unat_eq_iff unsigned_take_bit_eq take_bit_nat_eq_self_iff less_Suc_eq_le [symmetric])
  finally show ?thesis by (auto simp: encode_mode_def)
qed

lemma decode_mode_iff: "decode_mode w = Inr m \<longleftrightarrow> encode_mode m = Inr w"
proof -
  have "unat w < 2 ^ 32" using unsigned_less [of w, where ?'a = nat] by simp
  then have w: "unat (ucast w :: u32) = unat w" by (simp add: unsigned_ucast_eq take_bit_nat_eq_self_iff)
  have "decode_mode w = Inr m \<longleftrightarrow> unat w \<le> 511 \<and> m = ucast w"
    by (auto simp: decode_mode_def Let_def PERMISSION_BITS_V1_def word_less_nat_alt w)
  also have "\<dots> \<longleftrightarrow> unat m \<le> 511 \<and> w = ucast m"
    by (auto simp: word_unat_eq_iff unsigned_ucast_eq take_bit_eq_mod)
  finally show ?thesis by (simp add: encode_mode_iff)
qed

end
