(* ===== verification/Custody_Encoder.thy ===== *)
theory Custody_Encoder
  imports Custody_Stream
begin

text \<open>
  The streaming encoder of the coverage frame (\<open>custody_frame.rs\<close>). An operation takes the encoder and returns its outcome
  with the encoder it leaves; a refusal leaves the encoder poisoned. What a refused operation already gave to the sink is
  the caller's to discard and is not tracked. SHA-256, the reader of a file's content and the sink are arguments.
\<close>

section \<open>The encoder\<close>

record CustodyFrameFileReceiptV1 =
  receipt_length :: u64
  receipt_sha256 :: "u8 list"

record CustodyFrameSummaryV1 =
  summary_entries :: u64
  summary_content_bytes :: u64
  summary_frame_bytes :: u64
  frame_sha256 :: "u8 list"

record 'w CustodyFrameEncoderV1 =
  out :: "'w FrameSinkV1"
  budget :: CustodyFrameBudgetV1
  enc_record_limit :: u64
  enc_order :: CanonicalOrderV1
  enc_entries :: u64
  enc_content_bytes :: u64
  poisoned :: bool

definition admit_bytes :: "'w CustodyFrameEncoderV1 \<Rightarrow> u64 \<Rightarrow> CustodyFrameErrorV1 + unit" where
  "admit_bytes self sz =
     (case checked_add (frame_bytes (out self)) sz of
        None \<Rightarrow> Inl ByteBudget
      | Some e \<Rightarrow> if enc_record_limit self < e then Inl ByteBudget else Inr ())"

definition admit_record :: "'w CustodyFrameEncoderV1 \<Rightarrow> u64 \<Rightarrow> CustodyFrameErrorV1 + unit" where
  "admit_record self sz =
     (if max_entries (budget self) \<le> enc_entries self then Inl EntryLimit else admit_bytes self sz)"

definition encoder_new ::
  "'w sink_write \<Rightarrow> 'w \<Rightarrow> CustodyFrameHeaderV1 \<Rightarrow> CustodyFrameBudgetV1 \<Rightarrow> CustodyFrameErrorV1 + 'w CustodyFrameEncoderV1" where
  "encoder_new wr w header b =
     rbind (record_limit b) (\<lambda>limit.
     rbind (header_encode header) (\<lambda>bytes.
     let encoder = \<lparr>out = \<lparr>sink = w, frame = [], frame_bytes = 0\<rparr>, budget = b, enc_record_limit = limit,
                    enc_order = order_default, enc_entries = 0, enc_content_bytes = 0, poisoned = False\<rparr> in
     rbind (admit_bytes encoder (of_nat (length bytes))) (\<lambda>_.
     rbind (emit wr (out encoder) bytes) (\<lambda>fs. Inr (encoder\<lparr>out := fs\<rparr>)))))"

definition guarded ::
  "('w CustodyFrameEncoderV1 \<Rightarrow> CustodyFrameErrorV1 + 'a \<times> 'w CustodyFrameEncoderV1) \<Rightarrow> 'w CustodyFrameEncoderV1
   \<Rightarrow> (CustodyFrameErrorV1 + 'a) \<times> 'w CustodyFrameEncoderV1" where
  "guarded step self =
     (if poisoned self then (Inl Poisoned, self)
      else case step self of
          Inl e \<Rightarrow> (Inl e, self\<lparr>poisoned := True\<rparr>)
        | Inr (a, self) \<Rightarrow> (Inr a, self))"

definition directory_step ::
  "'w sink_write \<Rightarrow> u8 list \<Rightarrow> u32 \<Rightarrow> 'w CustodyFrameEncoderV1 \<Rightarrow> CustodyFrameErrorV1 + unit \<times> 'w CustodyFrameEncoderV1" where
  "directory_step wr path mode self =
     rbind (encode_mode mode) (\<lambda>mode.
     rbind (order_admit (enc_order self) path True) (\<lambda>ord.
     rbind (record_prefix TAG_DIRECTORY_V1 path) (\<lambda>prefix.
     let bytes = prefix @ le_bytes 2 (unat mode) in
     rbind (admit_record self (of_nat (length bytes))) (\<lambda>_.
     rbind (emit wr (out self) bytes) (\<lambda>fs.
     Inr ((), self\<lparr>out := fs, enc_order := ord, enc_entries := enc_entries self + 1\<rparr>))))))"

definition encode_directory where
  "encode_directory wr self path mode = guarded (directory_step wr path mode) self"

definition symlink_step ::
  "'w sink_write \<Rightarrow> u8 list \<Rightarrow> u8 list \<Rightarrow> 'w CustodyFrameEncoderV1 \<Rightarrow> CustodyFrameErrorV1 + unit \<times> 'w CustodyFrameEncoderV1" where
  "symlink_step wr path target self =
     rbind (validate_symlink_target target) (\<lambda>_.
     rbind (order_admit (enc_order self) path False) (\<lambda>ord.
     case u16_try_from (length target) of
       None \<Rightarrow> Inl InvalidSymlinkTarget
     | Some n \<Rightarrow>
         rbind (record_prefix TAG_SYMLINK_V1 path) (\<lambda>prefix.
         let bytes = prefix @ le_bytes 2 n @ target in
         rbind (admit_record self (of_nat (length bytes))) (\<lambda>_.
         rbind (emit wr (out self) bytes) (\<lambda>fs.
         Inr ((), self\<lparr>out := fs, enc_order := ord, enc_entries := enc_entries self + 1\<rparr>))))))"

definition encode_symlink where
  "encode_symlink wr self path target = guarded (symlink_step wr path target) self"

text \<open>Content goes through the fixed buffer in chunks; one probe byte proves the end of the reader.\<close>

function (sequential) stream_content ::
  "'w sink_write \<Rightarrow> 's reader \<Rightarrow> 'w FrameSinkV1 \<Rightarrow> 's \<Rightarrow> u64 \<Rightarrow> u8 list
   \<Rightarrow> CustodyFrameErrorV1 + u8 list \<times> 'w FrameSinkV1 \<times> 's" where
  "stream_content wr rd fs s left content =
     (if left = 0 then
        rbind (read_some rd s 1) (\<lambda>(probe, s).
        if probe \<noteq> [] then Inl (ContentLengthMismatch MismatchLong) else Inr (content, fs, s))
      else case read_some rd s (chunk_length left CONTENT_BUFFER_BYTES_V1) of
          Inl e \<Rightarrow> Inl e
        | Inr (chunk, s) \<Rightarrow>
            if chunk = [] then Inl (ContentLengthMismatch MismatchShort)
            else rbind (emit wr fs chunk) (\<lambda>fs.
              stream_content wr rd fs s (left - of_nat (length chunk)) (content @ chunk)))"
  by pat_completeness auto

lemma chunk_fits:
  assumes "length chunk \<le> chunk_length left c"
  shows "unat (of_nat (length chunk) :: u64) = length chunk" and "of_nat (length chunk) \<le> left"
    and "unat (left - of_nat (length chunk)) = unat left - length chunk"
proof -
  have le: "length chunk \<le> unat left" using assms by (simp add: chunk_length_def)
  then have "length chunk < 2 ^ 64" using unat_u64_less [of left] by simp
  then show n: "unat (of_nat (length chunk) :: u64) = length chunk" by (simp add: unat_of_nat)
  with le show "of_nat (length chunk) \<le> left" by (simp add: word_le_nat_alt)
  with n show "unat (left - of_nat (length chunk)) = unat left - length chunk" by (simp add: unat_sub)
qed

termination stream_content
proof (relation "measure (\<lambda>(wr, rd, fs, s, left, content). unat left)")
  fix wr :: "'w sink_write" and rd :: "'s reader" and fs :: "'w FrameSinkV1" and s left content r chunk s' fs'
  assume "left \<noteq> 0" "read_some rd s (chunk_length left CONTENT_BUFFER_BYTES_V1) = Inr r" "(chunk, s') = r" "\<not> chunk = []"
  then have "length chunk \<le> chunk_length left CONTENT_BUFFER_BYTES_V1" "chunk \<noteq> []" by (auto dest: read_some_length)
  then have "unat (left - of_nat (length chunk)) < unat left"
    using \<open>left \<noteq> 0\<close> by (simp add: chunk_fits unat_gt_0)
  then show "((wr, rd, fs', s', left - of_nat (length chunk), content @ chunk), wr, rd, fs, s, left, content)
      \<in> measure (\<lambda>(wr, rd, fs, s, left, content). unat left)" by simp
qed simp

declare stream_content.simps [simp del]

definition regular_file_step ::
  "'w sink_write \<Rightarrow> 's reader \<Rightarrow> (u8 list \<Rightarrow> u8 list) \<Rightarrow> u8 list \<Rightarrow> u32 \<Rightarrow> u64 \<Rightarrow> 's \<Rightarrow> 'w CustodyFrameEncoderV1
   \<Rightarrow> CustodyFrameErrorV1 + (CustodyFrameFileReceiptV1 \<times> 's) \<times> 'w CustodyFrameEncoderV1" where
  "regular_file_step wr rd sha path mode declared s self =
     rbind (encode_mode mode) (\<lambda>mode.
     rbind (order_admit (enc_order self) path False) (\<lambda>ord.
     rbind (record_prefix TAG_REGULAR_V1 path) (\<lambda>prefix.
     let bytes = prefix @ le_bytes 2 (unat mode) @ le_bytes 8 (unat declared) in
     case checked_add (of_nat (length bytes + DIGEST_BYTES_V1)) declared of
       None \<Rightarrow> Inl ByteBudget
     | Some sz \<Rightarrow>
         rbind (admit_record self sz) (\<lambda>_.
         case checked_add (enc_content_bytes self) declared of
           None \<Rightarrow> Inl ByteBudget
         | Some content_bytes \<Rightarrow>
             rbind (emit wr (out self) bytes) (\<lambda>fs.
             rbind (stream_content wr rd fs s declared []) (\<lambda>(content, fs, s).
             rbind (emit wr fs (sha content)) (\<lambda>fs.
             Inr ((\<lparr>receipt_length = declared, receipt_sha256 = sha content\<rparr>, s),
                  self\<lparr>out := fs, enc_order := ord, enc_entries := enc_entries self + 1,
                       enc_content_bytes := content_bytes\<rparr>))))))))"

definition encode_regular_file where
  "encode_regular_file wr rd sha self path mode declared s = guarded (regular_file_step wr rd sha path mode declared s) self"

definition finish_step ::
  "'w sink_write \<Rightarrow> ('w \<Rightarrow> string + 'w) \<Rightarrow> (u8 list \<Rightarrow> u8 list) \<Rightarrow> 'w CustodyFrameEncoderV1
   \<Rightarrow> CustodyFrameErrorV1 + (CustodyFrameSummaryV1 \<times> 'w) \<times> 'w CustodyFrameEncoderV1" where
  "finish_step wr flush sha self =
     (let trailer = [TAG_TRAILER_V1] @ le_bytes 8 (unat (enc_entries self)) @ le_bytes 8 (unat (enc_content_bytes self)) in
      rbind (emit wr (out self) trailer) (\<lambda>fs.
      rbind (emit wr fs (sha (frame fs))) (\<lambda>fs.
      case flush (sink fs) of
        Inl kind \<Rightarrow> Inl (FrameIo kind)
      | Inr w \<Rightarrow>
          Inr ((\<lparr>summary_entries = enc_entries self, summary_content_bytes = enc_content_bytes self,
                 summary_frame_bytes = frame_bytes fs, frame_sha256 = sha (frame fs)\<rparr>, w), self\<lparr>out := fs\<lparr>sink := w\<rparr>\<rparr>))))"

definition encode_finish where
  "encode_finish wr flush sha self = fst (guarded (finish_step wr flush sha) self)"

section \<open>Emitting and streaming\<close>

definition emitted :: "('w \<Rightarrow> u8 list) \<Rightarrow> 'w FrameSinkV1 \<Rightarrow> u8 list \<Rightarrow> 'w FrameSinkV1 \<Rightarrow> bool" where
  "emitted written_to fs bytes fs' \<longleftrightarrow>
     written_to (sink fs') = written_to (sink fs) @ bytes \<and> frame fs' = frame fs @ bytes
     \<and> unat (frame_bytes fs') = unat (frame_bytes fs) + length bytes"

lemma emitted_trans: "emitted wt a x b \<Longrightarrow> emitted wt b y c \<Longrightarrow> emitted wt a (x @ y) c"
  by (simp add: emitted_def)

context byte_sink
begin

lemma emit_spec:
  assumes "unat (frame_bytes fs) + length bytes < 2 ^ 64"
  shows "\<exists>fs'. emit wr fs bytes = Inr fs' \<and> emitted written_to fs bytes fs'"
proof -
  obtain w where w: "write_all wr (sink fs) bytes = Inr w" "written_to w = written_to (sink fs) @ bytes"
    using write_all_spec by blast
  have n: "unat (of_nat (length bytes) :: u64) = length bytes" using assms by (simp add: unat_of_nat)
  then obtain fb where fb: "checked_add (frame_bytes fs) (of_nat (length bytes)) = Some fb"
    using assms by (simp add: checked_add_def)
  from checked_add_SomeD [OF fb] n have "unat fb = unat (frame_bytes fs) + length bytes" by simp
  with w fb show ?thesis by (simp add: emit_def emitted_def)
qed

end

locale frame_channel = byte_reader rd remaining + byte_sink wr written_to
  for rd :: "'s reader" and remaining and wr :: "'w sink_write" and written_to
begin

lemma stream_content_spec:
  assumes "unat (frame_bytes fs) + unat left < 2 ^ 64"
  shows "if length (remaining s) = unat left
    then \<exists>fs' s'. stream_content wr rd fs s left content = Inr (content @ remaining s, fs', s') \<and> emitted written_to fs (remaining s) fs'
    else \<exists>e. stream_content wr rd fs s left content = Inl e"
  using assms
proof (induction "unat left" arbitrary: left fs s content rule: less_induct)
  case less
  show ?case
  proof (cases "left = 0")
    case True
    with probe_spec [of s] show ?thesis
      by (cases "remaining s = []") (auto simp: stream_content.simps [of wr rd fs] emitted_def)
  next
    case False
    let ?n = "chunk_length left CONTENT_BUFFER_BYTES_V1"
    have pos: "0 < ?n" using False by (simp add: chunk_length_def CONTENT_BUFFER_BYTES_V1_def unat_gt_0)
    obtain chunk s' where chunk: "read_some rd s ?n = Inr (chunk, s')" "remaining s = chunk @ remaining s'" "length chunk \<le> ?n"
      "0 < ?n \<longrightarrow> remaining s \<noteq> [] \<longrightarrow> chunk \<noteq> []" using read_some_ex [of s ?n] by (elim exE conjE)
    have left: "unat (left - of_nat (length chunk)) = unat left - length chunk" using chunk(3) by (rule chunk_fits)
    have le: "length chunk \<le> unat left" using chunk(3) by (simp add: chunk_length_def)
    show ?thesis
    proof (cases "chunk = []")
      case True
      with chunk pos False show ?thesis by (auto simp: stream_content.simps [of wr rd fs] unat_gt_0)
    next
      case nonempty: False
      from less.prems le obtain fs1 where fs1: "emit wr fs chunk = Inr fs1" "emitted written_to fs chunk fs1"
        using emit_spec [of fs chunk] by auto
      have less_left: "unat (left - of_nat (length chunk)) < unat left" using left le nonempty by (cases chunk) auto
      have room: "unat (frame_bytes fs1) + unat (left - of_nat (length chunk)) < 2 ^ 64"
        using fs1(2) less.prems left le by (simp add: emitted_def)
      note IH = less.hyps [OF less_left room, of s' "content @ chunk", unfolded left]
      have unfold: "stream_content wr rd fs s left content =
          stream_content wr rd fs1 s' (left - of_nat (length chunk)) (content @ chunk)"
        using False chunk(1) fs1(1) nonempty by (simp add: stream_content.simps [of wr rd fs])
      have same: "length (remaining s) = unat left \<longleftrightarrow> length (remaining s') = unat left - length chunk"
        using chunk(2) le by auto
      show ?thesis
      proof (cases "length (remaining s') = unat left - length chunk")
        case True
        with IH obtain fs' s'' where
          "stream_content wr rd fs1 s' (left - of_nat (length chunk)) (content @ chunk) = Inr ((content @ chunk) @ remaining s', fs', s'')"
          "emitted written_to fs1 (remaining s') fs'" by auto
        with emitted_trans [OF fs1(2)] True same chunk(2) unfold show ?thesis by simp
      qed (use IH same unfold in simp)
    qed
  qed
qed

end

section \<open>The encoder follows the specification\<close>

text \<open>What the client offers: a regular file with its declared length and the reader of its content.\<close>

datatype 's FrameInput =
    InDirectory "u8 list" u32
  | InRegular "u8 list" u32 u64 's
  | InSymlink "u8 list" "u8 list"

fun encode_input ::
  "'w sink_write \<Rightarrow> 's reader \<Rightarrow> (u8 list \<Rightarrow> u8 list) \<Rightarrow> 'w CustodyFrameEncoderV1 \<Rightarrow> 's FrameInput \<Rightarrow> 'w CustodyFrameEncoderV1" where
  "encode_input wr rd sha enc (InDirectory path mode) = snd (encode_directory wr enc path mode)"
| "encode_input wr rd sha enc (InRegular path mode declared s) = snd (encode_regular_file wr rd sha enc path mode declared s)"
| "encode_input wr rd sha enc (InSymlink path target) = snd (encode_symlink wr enc path target)"

text \<open>A client that offers its inputs one after the other, whatever each call returns, and finishes.\<close>

definition encode_all ::
  "'w sink_write \<Rightarrow> ('w \<Rightarrow> string + 'w) \<Rightarrow> 's reader \<Rightarrow> (u8 list \<Rightarrow> u8 list) \<Rightarrow> 'w \<Rightarrow> CustodyFrameHeaderV1 \<Rightarrow> CustodyFrameBudgetV1
   \<Rightarrow> 's FrameInput list \<Rightarrow> CustodyFrameErrorV1 + CustodyFrameSummaryV1 \<times> 'w" where
  "encode_all wr flush rd sha w h b inputs =
     rbind (encoder_new wr w h b) (\<lambda>enc. encode_finish wr flush sha (foldl (encode_input wr rd sha) enc inputs))"

fun input_entry :: "('s \<Rightarrow> u8 list) \<Rightarrow> 's FrameInput \<Rightarrow> FrameEntry" where
  "input_entry remaining (InDirectory path mode) = FrameDirectory path mode"
| "input_entry remaining (InRegular path mode declared s) = FrameRegular path mode (remaining s)"
| "input_entry remaining (InSymlink path target) = FrameSymlink path target"

text \<open>Paths come from a constructor that validates them; a declared length may be wrong.\<close>

fun input_typed :: "'s FrameInput \<Rightarrow> bool" where
  "input_typed (InDirectory path _) \<longleftrightarrow> valid_path path"
| "input_typed (InRegular path _ _ _) \<longleftrightarrow> valid_path path"
| "input_typed (InSymlink path _) \<longleftrightarrow> valid_path path"

fun input_declared :: "('s \<Rightarrow> u8 list) \<Rightarrow> 's FrameInput \<Rightarrow> bool" where
  "input_declared remaining (InRegular _ _ declared s) \<longleftrightarrow> unat declared = length (remaining s)"
| "input_declared remaining _ \<longleftrightarrow> True"

definition enc_rel ::
  "('w \<Rightarrow> u8 list) \<Rightarrow> (u8 list \<Rightarrow> u8 list) \<Rightarrow> CustodyFrameHeaderV1 \<Rightarrow> CustodyFrameBudgetV1 \<Rightarrow> u8 list \<Rightarrow> FrameEntry list
   \<Rightarrow> 'w CustodyFrameEncoderV1 \<Rightarrow> bool" where
  "enc_rel written_to sha h b before es enc \<longleftrightarrow>
     \<not> poisoned enc \<and> budget enc = b \<and> unat (enc_record_limit enc) + 49 = unat (max_frame_bytes b)
     \<and> frame (out enc) = entries_bytes sha h es
     \<and> written_to (sink (out enc)) = before @ entries_bytes sha h es
     \<and> unat (frame_bytes (out enc)) = length (entries_bytes sha h es)
     \<and> admit_all order_default (map entry_key es) = Inr (enc_order enc)
     \<and> unat (enc_entries enc) = length es \<and> unat (enc_content_bytes enc) = content_total es
     \<and> frame_ok sha b h es"

lemma enc_relD:
  assumes "enc_rel written_to sha h b before es enc"
  shows "\<not> poisoned enc" and "budget enc = b" and "unat (enc_record_limit enc) + 49 = unat (max_frame_bytes b)"
    and "unat (frame_bytes (out enc)) = length (entries_bytes sha h es)"
    and "admit_all order_default (map entry_key es) = Inr (enc_order enc)"
    and "unat (enc_entries enc) = length es" and "unat (enc_content_bytes enc) = content_total es" and "frame_ok sha b h es"
  using assms by (simp_all add: enc_rel_def)

lemma admit_bytes_iff:
  assumes "enc_rel written_to sha h b before es enc"
  shows "admit_bytes enc sz = Inr u \<longleftrightarrow> length (entries_bytes sha h es) + unat sz + 49 \<le> unat (max_frame_bytes b)"
proof (cases "checked_add (frame_bytes (out enc)) sz")
  case None
  then have "2 ^ 64 \<le> unat (frame_bytes (out enc)) + unat sz" by (simp add: checked_add_def split: if_splits)
  moreover have "unat (enc_record_limit enc) < 2 ^ 64" using unat_u64_less [of "enc_record_limit enc"] by simp
  ultimately show ?thesis using None enc_relD(3,4) [OF assms] by (simp add: admit_bytes_def)
next
  case (Some e)
  then have "unat e = unat (frame_bytes (out enc)) + unat sz" by (rule checked_add_SomeD)
  with Some enc_relD(3,4) [OF assms] show ?thesis by (simp add: admit_bytes_def word_less_nat_alt not_less) arith
qed

lemma admit_record_iff:
  assumes "enc_rel written_to sha h b before es enc"
  shows "admit_record enc sz = Inr u \<longleftrightarrow> length es < unat (max_entries b)
    \<and> length (entries_bytes sha h es) + unat sz + 49 \<le> unat (max_frame_bytes b)"
  using enc_relD(2,6) [OF assms] admit_bytes_iff [OF assms]
  by (auto simp: admit_record_def word_le_nat_alt)

lemma valid_path_short: "valid_path p \<Longrightarrow> length p \<le> 4096"
  by (auto simp: valid_path_def path_from_bytes_def path_length_admitted_def MAX_PATH_BYTES_V1_def split: if_splits)

lemma record_prefix_valid: "valid_path p \<Longrightarrow> record_prefix tag p = Inr (prefix_bytes tag p)"
  using valid_path_short [of p] by (simp add: record_prefix_def u16_try_from_def)

lemma enc_rel_snoc:
  assumes rel: "enc_rel written_to sha h b before es enc" and sha: "digest32 sha" and e: "entry_valid e"
    and ord: "order_admit (enc_order enc) (entry_path e) (entry_is_directory e) = Inr ord"
    and out: "emitted written_to (out enc) (entry_bytes sha e) fs"
    and n: "length es < unat (max_entries b)"
    and size: "length (entries_bytes sha h es) + length (entry_bytes sha e) + 49 \<le> unat (max_frame_bytes b)"
    and content: "unat content = content_total es + length (entry_content e)"
  shows "enc_rel written_to sha h b before (es @ [e])
    (enc\<lparr>out := fs, enc_order := ord, enc_entries := enc_entries enc + 1, enc_content_bytes := content\<rparr>)"
proof -
  have "frame_ok sha b h (es @ [e])"
    using enc_relD(5,8) [OF rel] sha e ord n size by (simp add: frame_ok_snoc)
  moreover have "unat (enc_entries enc + 1) = Suc (length es)"
    using enc_relD(6) [OF rel] n unat_u64_less [of "max_entries b"] by (simp add: unat_word_ariths)
  ultimately show ?thesis
    using rel ord out content by (simp add: enc_rel_def emitted_def admit_all_snoc entries_bytes_snoc content_total_snoc)
qed

lemma encode_mode_unat: "encode_mode mode = Inr m \<Longrightarrow> unat m = unat mode"
  by (auto simp: encode_mode_iff unsigned_ucast_eq take_bit_eq_mod)

lemma guarded_cases:
  assumes "\<not> poisoned enc"
  shows "step enc = Inr (a, enc') \<Longrightarrow> snd (guarded step enc) = enc'"
    and "step enc = Inl e \<Longrightarrow> poisoned (snd (guarded step enc))"
  using assms by (simp_all add: guarded_def)

lemma not_Inr_unit: "(r :: 'e + unit) \<noteq> Inr () \<Longrightarrow> \<exists>e. r = Inl e"
  by (cases r) auto

context frame_channel
begin

lemma emit_record:
  assumes "enc_rel written_to sha h b before es enc" and "length (entries_bytes sha h es) + length bytes + 49 \<le> unat (max_frame_bytes b)"
  shows "\<exists>fs. emit wr (out enc) bytes = Inr fs \<and> emitted written_to (out enc) bytes fs"
  using assms(2) enc_relD(4) [OF assms(1)] unat_u64_less [of "max_frame_bytes b"] by (intro emit_spec) simp

text \<open>Directories and symlinks end alike: their whole record is admitted and emitted.\<close>

lemma record_follows:
  assumes rel: "enc_rel written_to sha h b before es enc" and sha: "digest32 sha" and e: "entry_valid e" "entry_content e = []"
    and ord: "order_admit (enc_order enc) (entry_path e) (entry_is_directory e) = Inr ord"
    and bytes: "bytes = entry_bytes sha e" "length bytes < 2 ^ 64"
    and tail: "tail = rbind (admit_record enc (of_nat (length bytes))) (\<lambda>_. rbind (emit wr (out enc) bytes) (\<lambda>fs.
        Inr ((), enc\<lparr>out := fs, enc_order := ord, enc_entries := enc_entries enc + 1\<rparr>)))"
  shows "if frame_ok sha b h (es @ [e]) then \<exists>enc'. tail = Inr ((), enc') \<and> enc_rel written_to sha h b before (es @ [e]) enc'
    else \<exists>x. tail = Inl x"
proof -
  have small: "unat (of_nat (length bytes) :: u64) = length bytes" using bytes(2) by (simp add: unat_of_nat)
  note ok = frame_ok_snoc [OF sha, of b h es e]
  have iff: "frame_ok sha b h (es @ [e]) \<longleftrightarrow> admit_record enc (of_nat (length bytes)) = Inr ()"
    using enc_relD(5,8) [OF rel] e ord by (simp add: ok admit_record_iff [OF rel] small [unfolded bytes(1)] bytes(1))
  show ?thesis
  proof (cases "frame_ok sha b h (es @ [e])")
    case True
    then have room: "length es < unat (max_entries b)"
      "length (entries_bytes sha h es) + length bytes + 49 \<le> unat (max_frame_bytes b)"
      using ok bytes(1) by simp_all
    from emit_record [OF rel room(2)] obtain fs where fs: "emit wr (out enc) bytes = Inr fs"
      "emitted written_to (out enc) bytes fs" by blast
    have "enc_rel written_to sha h b before (es @ [e])
        (enc\<lparr>out := fs, enc_order := ord, enc_entries := enc_entries enc + 1, enc_content_bytes := enc_content_bytes enc\<rparr>)"
      using rel sha e(1) ord fs(2) [unfolded bytes(1)] room [unfolded bytes(1)]
      by (rule enc_rel_snoc) (use e(2) enc_relD(7) [OF rel] in simp)
    with True iff fs(1) show ?thesis by (simp add: tail)
  next
    case False
    with iff not_Inr_unit [of "admit_record enc (of_nat (length bytes))"] show ?thesis by (auto simp: tail)
  qed
qed

lemma directory_follows:
  assumes rel: "enc_rel written_to sha h b before es enc" and sha: "digest32 sha" and path: "valid_path path"
  shows "if frame_ok sha b h (es @ [FrameDirectory path mode])
    then \<exists>enc'. directory_step wr path mode enc = Inr ((), enc') \<and> enc_rel written_to sha h b before (es @ [FrameDirectory path mode]) enc'
    else \<exists>e. directory_step wr path mode enc = Inl e"
proof (cases "is_ok (encode_mode mode) \<and> is_ok (order_admit (enc_order enc) path True)")
  case False
  with enc_relD(5) [OF rel] sha show ?thesis
    by (cases "encode_mode mode"; cases "order_admit (enc_order enc) path True") (auto simp: directory_step_def frame_ok_snoc)
next
  case True
  then obtain m ord where m: "encode_mode mode = Inr m" and ord: "order_admit (enc_order enc) path True = Inr ord"
    by (auto simp: is_ok_def split: sum.splits)
  have bytes: "prefix_bytes TAG_DIRECTORY_V1 path @ le_bytes 2 (unat m) = entry_bytes sha (FrameDirectory path mode)"
    using encode_mode_unat [OF m] by simp
  show ?thesis
    using rel sha _ _ _ refl
  proof (rule record_follows)
    show "directory_step wr path mode enc = rbind (admit_record enc (of_nat (length (entry_bytes sha (FrameDirectory path mode)))))
        (\<lambda>_. rbind (emit wr (out enc) (entry_bytes sha (FrameDirectory path mode))) (\<lambda>fs.
          Inr ((), enc\<lparr>out := fs, enc_order := ord, enc_entries := enc_entries enc + 1\<rparr>)))"
      by (simp only: directory_step_def m ord rbind_simps record_prefix_valid [OF path] Let_def bytes)
  qed (use valid_path_short [OF path] path m ord in simp_all)
qed

lemma symlink_follows:
  assumes rel: "enc_rel written_to sha h b before es enc" and sha: "digest32 sha" and path: "valid_path path"
  shows "if frame_ok sha b h (es @ [FrameSymlink path target])
    then \<exists>enc'. symlink_step wr path target enc = Inr ((), enc') \<and> enc_rel written_to sha h b before (es @ [FrameSymlink path target]) enc'
    else \<exists>e. symlink_step wr path target enc = Inl e"
proof (cases "validate_symlink_target target = Inr () \<and> is_ok (order_admit (enc_order enc) path False)")
  case False
  with enc_relD(5) [OF rel] sha show ?thesis
    by (cases "validate_symlink_target target"; cases "order_admit (enc_order enc) path False") (auto simp: symlink_step_def frame_ok_snoc)
next
  case True
  then obtain ord where t: "validate_symlink_target target = Inr ()" and ord: "order_admit (enc_order enc) path False = Inr ord"
    by (auto simp: is_ok_def split: sum.splits)
  then have short: "length target \<le> 4095"
    by (auto simp: validate_symlink_target_def symlink_target_length_admitted_def MAX_SYMLINK_TARGET_BYTES_V1_def split: if_splits)
  then have u16: "u16_try_from (length target) = Some (length target)" by (simp add: u16_try_from_def)
  have bytes: "prefix_bytes TAG_SYMLINK_V1 path @ le_bytes 2 (length target) @ target = entry_bytes sha (FrameSymlink path target)" by simp
  show ?thesis
    using rel sha _ _ _ refl
  proof (rule record_follows)
    show "symlink_step wr path target enc = rbind (admit_record enc (of_nat (length (entry_bytes sha (FrameSymlink path target)))))
        (\<lambda>_. rbind (emit wr (out enc) (entry_bytes sha (FrameSymlink path target))) (\<lambda>fs.
          Inr ((), enc\<lparr>out := fs, enc_order := ord, enc_entries := enc_entries enc + 1\<rparr>)))"
      by (simp only: symlink_step_def t ord rbind_simps u16 option.case record_prefix_valid [OF path] Let_def bytes)
  qed (use valid_path_short [OF path] short path t ord in simp_all)
qed

text \<open>A regular file is admitted with its declared content before a byte of it is written.\<close>

lemma streamed_record:
  assumes rel: "enc_rel written_to sha h b before es enc" and sha: "digest32 sha"
    and room: "length (entries_bytes sha h es) + (length bytes + 32 + unat declared) + 49 \<le> unat (max_frame_bytes b)"
    and run: "run = rbind (emit wr (out enc) bytes) (\<lambda>fs. rbind (stream_content wr rd fs s declared []) (\<lambda>(content, fs, s).
        rbind (emit wr fs (sha content)) (\<lambda>fs. Inr (f content fs s))))"
  shows "if unat declared = length (remaining s)
    then \<exists>fs s'. run = Inr (f (remaining s) fs s') \<and> emitted written_to (out enc) (bytes @ remaining s @ sha (remaining s)) fs
    else \<exists>e. run = Inl e"
proof -
  have max: "unat (max_frame_bytes b) < 2 ^ 64" using unat_u64_less [of "max_frame_bytes b"] by simp
  from room have "length (entries_bytes sha h es) + length bytes + 49 \<le> unat (max_frame_bytes b)" by simp
  from emit_record [OF rel this] obtain fs where fs: "emit wr (out enc) bytes = Inr fs" "emitted written_to (out enc) bytes fs" by blast
  then have fb: "unat (frame_bytes fs) = length (entries_bytes sha h es) + length bytes"
    using enc_relD(4) [OF rel] by (simp add: emitted_def)
  then have "unat (frame_bytes fs) + unat declared < 2 ^ 64" using room max by simp
  note stream = stream_content_spec [OF this, of s "[]"]
  show ?thesis
  proof (cases "unat declared = length (remaining s)")
    case True
    with stream obtain fs1 s1 where fs1: "stream_content wr rd fs s declared [] = Inr (remaining s, fs1, s1)"
      "emitted written_to fs (remaining s) fs1" by auto
    then have "unat (frame_bytes fs1) + length (sha (remaining s)) < 2 ^ 64"
      using fb room max sha True by (simp add: emitted_def digest32_def)
    from emit_spec [OF this] obtain fs2 where fs2: "emit wr fs1 (sha (remaining s)) = Inr fs2"
      "emitted written_to fs1 (sha (remaining s)) fs2" by blast
    with True fs fs1 emitted_trans [OF fs(2) emitted_trans [OF fs1(2) fs2(2)]] show ?thesis by (auto simp: run)
  next
    case False
    with stream fs show ?thesis by (auto simp: run)
  qed
qed

lemma regular_admitted:
  assumes rel: "enc_rel written_to sha h b before es enc" and fits: "length es < unat (max_entries b)"
      "length (entries_bytes sha h es) + (n + unat declared) + 49 \<le> unat (max_frame_bytes b)"
    and small: "unat (len :: u64) = n"
  shows "\<exists>sz c. checked_add len declared = Some sz \<and> admit_record enc sz = Inr () \<and> checked_add (enc_content_bytes enc) declared = Some c
    \<and> unat c = content_total es + unat declared"
proof -
  have max: "unat (max_frame_bytes b) < 2 ^ 64" using unat_u64_less [of "max_frame_bytes b"] by simp
  obtain sz where sz: "checked_add len declared = Some sz" using fits(2) max small by (simp add: checked_add_def)
  have "unat sz = n + unat declared" using checked_add_SomeD [OF sz] small by simp
  with fits have "admit_record enc sz = Inr ()" by (simp add: admit_record_iff [OF rel])
  moreover obtain c where c: "checked_add (enc_content_bytes enc) declared = Some c"
    using fits(2) max enc_relD(7) [OF rel] content_total_le [of es sha h] by (simp add: checked_add_def)
  moreover have "unat c = content_total es + unat declared" using checked_add_SomeD [OF c] enc_relD(7) [OF rel] by simp
  ultimately show ?thesis using sz by blast
qed

lemma regular_emitted:
  assumes rel: "enc_rel written_to sha h b before es enc" and sha: "digest32 sha" and e: "e = FrameRegular path mode content" "entry_valid e"
    and ord: "order_admit (enc_order enc) path False = Inr ord" and bytes: "bytes @ content @ sha content = entry_bytes sha e"
    and out: "emitted written_to (out enc) (bytes @ content @ sha content) fs"
    and fits: "length es < unat (max_entries b)"
      "length (entries_bytes sha h es) + (length bytes + 32 + length content) + 49 \<le> unat (max_frame_bytes b)"
    and c: "unat c = content_total es + length content"
  shows "enc_rel written_to sha h b before (es @ [e])
      (enc\<lparr>out := fs, enc_order := ord, enc_entries := enc_entries enc + 1, enc_content_bytes := c\<rparr>)"
proof -
  have "length (entry_bytes sha e) = length bytes + 32 + length content"
    using arg_cong [OF bytes, of length] sha by (simp add: digest32_def)
  with fits have "length es < unat (max_entries b)"
    "length (entries_bytes sha h es) + length (entry_bytes sha e) + 49 \<le> unat (max_frame_bytes b)" by simp_all
  with rel sha e(2) _ out [unfolded bytes] show ?thesis by (rule enc_rel_snoc) (use e(1) ord c in simp_all)
qed

lemma regular_follows:
  assumes rel: "enc_rel written_to sha h b before es enc" and sha: "digest32 sha" and path: "valid_path path"
  shows "if frame_ok sha b h (es @ [FrameRegular path mode (remaining s)]) \<and> unat declared = length (remaining s)
    then \<exists>r enc'. regular_file_step wr rd sha path mode declared s enc = Inr (r, enc')
      \<and> enc_rel written_to sha h b before (es @ [FrameRegular path mode (remaining s)]) enc'
      \<and> fst r = \<lparr>receipt_length = declared, receipt_sha256 = sha (remaining s)\<rparr>
    else \<exists>e. regular_file_step wr rd sha path mode declared s enc = Inl e"
proof (cases "is_ok (encode_mode mode) \<and> is_ok (order_admit (enc_order enc) path False)")
  case False
  with enc_relD(5) [OF rel] sha show ?thesis
    by (cases "encode_mode mode"; cases "order_admit (enc_order enc) path False") (auto simp: regular_file_step_def frame_ok_snoc)
next
  case True
  then obtain m ord where m: "encode_mode mode = Inr m" and ord: "order_admit (enc_order enc) path False = Inr ord"
    by (auto simp: is_ok_def split: sum.splits)
  let ?e = "FrameRegular path mode (remaining s)"
  define bytes where "bytes = prefix_bytes TAG_REGULAR_V1 path @ le_bytes 2 (unat m) @ le_bytes 8 (unat declared)"
  define run where "run = (\<lambda>content_bytes. rbind (emit wr (out enc) bytes) (\<lambda>fs. rbind (stream_content wr rd fs s declared []) (\<lambda>(content, fs, s).
      rbind (emit wr fs (sha content)) (\<lambda>fs. Inr ((\<lparr>receipt_length = declared, receipt_sha256 = sha content\<rparr>, s),
        enc\<lparr>out := fs, enc_order := ord, enc_entries := enc_entries enc + 1, enc_content_bytes := content_bytes\<rparr>)))))"
  have len: "length bytes = length path + 13" by (simp add: bytes_def)
  then have small: "unat (of_nat (length bytes + DIGEST_BYTES_V1) :: u64) = length bytes + 32"
    using valid_path_short [OF path] by (simp only: unat_of_nat DIGEST_BYTES_V1_def) simp
  have step: "regular_file_step wr rd sha path mode declared s enc =
      (case checked_add (of_nat (length bytes + DIGEST_BYTES_V1)) declared of None \<Rightarrow> Inl ByteBudget
       | Some sz \<Rightarrow> rbind (admit_record enc sz) (\<lambda>_. case checked_add (enc_content_bytes enc) declared of
           None \<Rightarrow> Inl ByteBudget | Some c \<Rightarrow> run c))"
    by (simp only: regular_file_step_def m ord rbind_simps record_prefix_valid [OF path] Let_def bytes_def run_def)
  let ?P = "length es < unat (max_entries b)
    \<and> length (entries_bytes sha h es) + (length bytes + 32 + unat declared) + 49 \<le> unat (max_frame_bytes b)"
  have ok: "frame_ok sha b h (es @ [?e]) \<longleftrightarrow> ?P" if "unat declared = length (remaining s)"
    using that enc_relD(5,8) [OF rel] path m ord sha len by (auto simp: frame_ok_snoc [OF sha] digest32_def)
  show ?thesis
  proof (cases ?P)
    case True
    then obtain sz c where sz: "checked_add (of_nat (length bytes + DIGEST_BYTES_V1)) declared = Some sz" "admit_record enc sz = Inr ()"
      and c: "checked_add (enc_content_bytes enc) declared = Some c" "unat c = content_total es + unat declared"
      using regular_admitted [OF rel _ _ small, of declared] by auto
    note streamed = streamed_record [OF rel sha conjunct2 [OF True] run_def [THEN fun_cong, of c]]
    have step_run: "regular_file_step wr rd sha path mode declared s enc = run c" by (simp only: step sz c(1) option.case rbind_simps)
    show ?thesis
    proof (cases "unat declared = length (remaining s)")
      case declared: True
      with streamed obtain fs s' where fs: "run c = Inr ((\<lparr>receipt_length = declared, receipt_sha256 = sha (remaining s)\<rparr>, s'),
          enc\<lparr>out := fs, enc_order := ord, enc_entries := enc_entries enc + 1, enc_content_bytes := c\<rparr>)"
        "emitted written_to (out enc) (bytes @ remaining s @ sha (remaining s)) fs" by auto
      have "bytes @ remaining s @ sha (remaining s) = entry_bytes sha ?e"
        using encode_mode_unat [OF m] declared by (simp add: bytes_def)
      then have "enc_rel written_to sha h b before (es @ [?e])
          (enc\<lparr>out := fs, enc_order := ord, enc_entries := enc_entries enc + 1, enc_content_bytes := c\<rparr>)"
        using True path m c(2) declared by (intro regular_emitted [OF rel sha refl _ ord _ fs(2)]) simp_all
      with fs(1) step_run ok [OF declared] True declared show ?thesis by simp
    qed (use streamed step_run in simp)
  next
    case False
    then have "admit_record enc sz \<noteq> Inr ()" if "checked_add (of_nat (length bytes + DIGEST_BYTES_V1)) declared = Some sz" for sz
      using checked_add_SomeD [OF that] small by (simp add: admit_record_iff [OF rel])
    then have "\<exists>e. regular_file_step wr rd sha path mode declared s enc = Inl e"
      unfolding step using not_Inr_unit by (fastforce split: option.split)
    with False ok show ?thesis by auto
  qed
qed

lemma input_follows:
  assumes rel: "enc_rel written_to sha h b before es enc" and sha: "digest32 sha" and typed: "input_typed i"
  shows "if frame_ok sha b h (es @ [input_entry remaining i]) \<and> input_declared remaining i
    then enc_rel written_to sha h b before (es @ [input_entry remaining i]) (encode_input wr rd sha enc i)
    else poisoned (encode_input wr rd sha enc i)"
proof (cases i)
  case (InDirectory path mode)
  with directory_follows [OF rel sha, of path mode] typed enc_relD(1) [OF rel] show ?thesis
    by (auto simp: encode_directory_def guarded_cases)
next
  case (InRegular path mode declared s)
  with regular_follows [OF rel sha, of path mode s declared] typed enc_relD(1) [OF rel] show ?thesis
    by (auto simp: encode_regular_file_def guarded_cases)
next
  case (InSymlink path target)
  with symlink_follows [OF rel sha, of path target] typed enc_relD(1) [OF rel] show ?thesis
    by (auto simp: encode_symlink_def guarded_cases)
qed

end

lemma poisoned_stays: "poisoned enc \<Longrightarrow> poisoned (foldl (encode_input wr rd sha) enc inputs)"
proof (induction inputs arbitrary: enc)
  case (Cons i inputs)
  then have "poisoned (encode_input wr rd sha enc i)"
    by (cases i) (simp_all add: encode_directory_def encode_regular_file_def encode_symlink_def guarded_def)
  with Cons.IH show ?case by simp
qed simp

context frame_channel
begin

lemma inputs_follow:
  assumes "enc_rel written_to sha h b before es enc" and "digest32 sha" and "\<forall>i\<in>set inputs. input_typed i"
  shows "if frame_ok sha b h (es @ map (input_entry remaining) inputs) \<and> (\<forall>i\<in>set inputs. input_declared remaining i)
    then enc_rel written_to sha h b before (es @ map (input_entry remaining) inputs) (foldl (encode_input wr rd sha) enc inputs)
    else poisoned (foldl (encode_input wr rd sha) enc inputs)"
  using assms
proof (induction inputs arbitrary: es enc)
  case Nil
  then show ?case by (simp add: enc_relD(8))
next
  case (Cons i inputs)
  show ?case
  proof (cases "frame_ok sha b h (es @ [input_entry remaining i]) \<and> input_declared remaining i")
    case True
    with input_follows [OF Cons.prems(1,2), of i] Cons.prems(3)
    have "enc_rel written_to sha h b before (es @ [input_entry remaining i]) (encode_input wr rd sha enc i)" by simp
    from Cons.IH [OF this Cons.prems(2)] Cons.prems(3) True show ?thesis by (auto split: if_splits)
  next
    case False
    then have "\<not> (frame_ok sha b h (es @ map (input_entry remaining) (i # inputs)) \<and> (\<forall>i\<in>set (i # inputs). input_declared remaining i))"
      using frame_ok_append [OF Cons.prems(2), of b h "es @ [input_entry remaining i]" "map (input_entry remaining) inputs"] by auto
    moreover from False input_follows [OF Cons.prems(1,2), of i] Cons.prems(3)
    have "poisoned (encode_input wr rd sha enc i)" by (auto split: if_splits)
    ultimately show ?thesis using poisoned_stays by auto
  qed
qed

lemma encoder_new_follows:
  assumes "header_valid h" and sha: "digest32 sha"
  shows "if frame_ok sha b h []
    then \<exists>enc. encoder_new wr w h b = Inr enc \<and> enc_rel written_to sha h b (written_to w) [] enc
    else \<exists>e. encoder_new wr w h b = Inl e"
proof -
  have gen: "length (generation_id h) \<le> 1024"
    using assms(1) by (auto simp: header_valid_def header_new_def generation_length_admitted_def MAX_GENERATION_BYTES_V1_def
      rbind_Inr_iff split: if_splits)
  then have hb: "header_encode h = Inr (header_bytes h)" by (simp add: header_encode_def header_bytes_def u16_try_from_def)
  have small: "unat (of_nat (length (header_bytes h)) :: u64) = length (header_bytes h)"
    using gen by (simp only: unat_of_nat length_header_bytes) simp
  have ok: "frame_ok sha b h [] \<longleftrightarrow> length (header_bytes h) + 49 \<le> unat (max_frame_bytes b)"
    using length_frame_of [OF sha, of h "[]"] by (simp add: frame_ok_def entries_bytes_def)
  show ?thesis
  proof (cases "TRAILER_BYTES_V1 \<le> max_frame_bytes b")
    case False
    then have "unat (max_frame_bytes b) < 49" by (simp add: TRAILER_BYTES_V1_def word_le_nat_alt)
    with False ok show ?thesis by (simp add: encoder_new_def record_limit_def)
  next
    case True
    define limit where "limit = max_frame_bytes b - TRAILER_BYTES_V1"
    have limit: "unat limit + 49 = unat (max_frame_bytes b)"
      using True by (simp add: limit_def unat_sub TRAILER_BYTES_V1_def word_le_nat_alt)
    define enc0 where "enc0 = \<lparr>out = \<lparr>sink = w, frame = [], frame_bytes = 0\<rparr>, budget = b, enc_record_limit = limit,
      enc_order = order_default, enc_entries = 0, enc_content_bytes = 0, poisoned = False\<rparr>"
    have new: "encoder_new wr w h b = rbind (admit_bytes enc0 (of_nat (length (header_bytes h)))) (\<lambda>_.
        rbind (emit wr (out enc0) (header_bytes h)) (\<lambda>fs. Inr (enc0\<lparr>out := fs\<rparr>)))"
      using True by (simp add: encoder_new_def record_limit_def hb Let_def enc0_def limit_def)
    have admitted: "admit_bytes enc0 (of_nat (length (header_bytes h))) = Inr () \<longleftrightarrow> frame_ok sha b h []"
      using limit small unat_u64_less [of limit]
      by (auto simp: admit_bytes_def enc0_def checked_add_def word_less_nat_alt not_less ok)
    show ?thesis
    proof (cases "frame_ok sha b h []")
      case ok: True
      have "unat (frame_bytes (out enc0)) + length (header_bytes h) < 2 ^ 64"
        using gen by (simp add: enc0_def length_header_bytes)
      from emit_spec [OF this] obtain fs where fs: "emit wr (out enc0) (header_bytes h) = Inr fs"
        "emitted written_to (out enc0) (header_bytes h) fs" by blast
      then have "enc_rel written_to sha h b (written_to w) [] (enc0\<lparr>out := fs\<rparr>)"
        using ok limit by (simp add: enc_rel_def enc0_def emitted_def entries_bytes_def content_total_def)
      with ok fs(1) admitted new show ?thesis by simp
    next
      case False
      with admitted not_Inr_unit have "\<exists>e. admit_bytes enc0 (of_nat (length (header_bytes h))) = Inl e" by blast
      with False new show ?thesis by auto
    qed
  qed
qed

lemma finish_follows:
  assumes rel: "enc_rel written_to sha h b before es enc" and sha: "digest32 sha"
    and flush: "\<And>w. \<exists>w'. flush w = Inr w' \<and> written_to w' = written_to w"
  shows "\<exists>w'. encode_finish wr flush sha enc =
      Inr (\<lparr>summary_entries = of_nat (length es), summary_content_bytes = of_nat (content_total es),
            summary_frame_bytes = of_nat (length (frame_of sha h es)), frame_sha256 = sha (frame_of sha h es)\<rparr>, w')
    \<and> written_to w' = before @ frame_of sha h es"
proof -
  have counts: "enc_entries enc = of_nat (length es)" "enc_content_bytes enc = of_nat (content_total es)"
    by (simp_all flip: enc_relD(6,7) [OF rel])
  have trailer: "[TAG_TRAILER_V1] @ le_bytes 8 (unat (enc_entries enc)) @ le_bytes 8 (unat (enc_content_bytes enc)) = trailer_bytes es"
    using enc_relD(6,7) [OF rel] by (simp add: trailer_bytes_def)
  have len: "length (frame_of sha h es) \<le> unat (max_frame_bytes b)" using enc_relD(8) [OF rel] by (simp add: frame_ok_def)
  have parts: "length (frame_of sha h es) = length (entries_bytes sha h es) + length (trailer_bytes es) + 32"
    using sha by (simp add: frame_of_def Let_def digest32_def)
  have "length (entries_bytes sha h es) + length (trailer_bytes es) < 2 ^ 64"
    using len parts unat_u64_less [of "max_frame_bytes b"] by simp
  then obtain fs where fs: "emit wr (out enc) (trailer_bytes es) = Inr fs" "emitted written_to (out enc) (trailer_bytes es) fs"
    using emit_spec [of "out enc" "trailer_bytes es"] enc_relD(4) [OF rel] by auto
  then have body: "frame fs = entries_bytes sha h es @ trailer_bytes es"
    "written_to (sink fs) = before @ entries_bytes sha h es @ trailer_bytes es"
    "unat (frame_bytes fs) = length (entries_bytes sha h es) + length (trailer_bytes es)"
    using rel by (auto simp: emitted_def enc_rel_def)
  have "unat (frame_bytes fs) + length (sha (frame fs)) < 2 ^ 64"
    using body(3) len parts sha unat_u64_less [of "max_frame_bytes b"] by (simp add: digest32_def)
  from emit_spec [OF this] obtain fs2 where fs2: "emit wr fs (sha (frame fs)) = Inr fs2" "emitted written_to fs (sha (frame fs)) fs2"
    by blast
  then have whole: "frame fs2 = frame_of sha h es" "written_to (sink fs2) = before @ frame_of sha h es"
    "unat (frame_bytes fs2) = length (frame_of sha h es)"
    using body sha parts by (auto simp: emitted_def frame_of_def Let_def digest32_def)
  have fb: "frame_bytes fs2 = of_nat (length (frame_of sha h es))" by (simp flip: whole(3))
  obtain w' where w': "flush (sink fs2) = Inr w'" "written_to w' = written_to (sink fs2)" using flush [of "sink fs2"] by blast
  have "finish_step wr flush sha enc =
      Inr ((\<lparr>summary_entries = enc_entries enc, summary_content_bytes = enc_content_bytes enc,
             summary_frame_bytes = frame_bytes fs2, frame_sha256 = sha (frame fs2)\<rparr>, w'), enc\<lparr>out := fs2\<lparr>sink := w'\<rparr>\<rparr>)"
    by (simp only: finish_step_def Let_def trailer fs(1) fs2(1) w'(1) rbind_simps sum.case)
  with w'(2) whole(2) enc_relD(1) [OF rel] show ?thesis
    by (simp add: encode_finish_def guarded_def counts fb whole(1))
qed

lemma encode_all_follows:
  assumes flush: "\<And>w. \<exists>w'. flush w = Inr w' \<and> written_to w' = written_to w"
    and sha: "digest32 sha" and h: "header_valid h" and typed: "\<forall>i\<in>set inputs. input_typed i"
    and es: "es = map (input_entry remaining) inputs"
  shows "if frame_ok sha b h es \<and> (\<forall>i\<in>set inputs. input_declared remaining i)
    then \<exists>w'. encode_all wr flush rd sha w h b inputs =
        Inr (\<lparr>summary_entries = of_nat (length es), summary_content_bytes = of_nat (content_total es),
              summary_frame_bytes = of_nat (length (frame_of sha h es)), frame_sha256 = sha (frame_of sha h es)\<rparr>, w')
      \<and> written_to w' = written_to w @ frame_of sha h es
    else \<exists>e. encode_all wr flush rd sha w h b inputs = Inl e"
proof -
  note new = encoder_new_follows [OF h sha, of b w]
  show ?thesis
  proof (cases "frame_ok sha b h []")
    case False
    with frame_ok_append [OF sha, of b h "[]" es] have "\<not> frame_ok sha b h es" by auto
    with False new show ?thesis by (auto simp: encode_all_def)
  next
    case True
    with new obtain enc where enc: "encoder_new wr w h b = Inr enc" "enc_rel written_to sha h b (written_to w) [] enc" by auto
    let ?last = "foldl (encode_input wr rd sha) enc inputs"
    note follow = inputs_follow [OF enc(2) sha typed]
    show ?thesis
    proof (cases "frame_ok sha b h es \<and> (\<forall>i\<in>set inputs. input_declared remaining i)")
      case ok: True
      with follow have "enc_rel written_to sha h b (written_to w) es ?last" by (simp add: es)
      from finish_follows [OF this sha, of flush] flush ok enc(1) show ?thesis by (simp add: encode_all_def)
    next
      case False
      with follow have "poisoned ?last" by (auto simp: es split: if_splits)
      with False enc(1) show ?thesis by (auto simp: encode_all_def encode_finish_def guarded_def)
    qed
  qed
qed

end

interpretation channel: frame_channel "chunk_read c" "\<lambda>s. s" "chunk_write d" "\<lambda>w. w" for c d
  by unfold_locales

text \<open>
  C15: The encoder writes the frame of the entries it was offered, or it refuses. Whatever pieces the readers and the sink
  work in, and even for a client that goes on after a refusal, finishing succeeds exactly when every entry is valid,
  the paths are in canonical order, every declared length is the length of its content, and the frame fits the budget; then
  exactly the specified frame was appended to the sink, and the summary states its entries, its content bytes, its length and its digest.
\<close>

theorem encoder_writes_exact_frame:
  assumes "byte_reader rd remaining" and "byte_sink wr written_to"
    and "\<And>w. \<exists>w'. flush w = Inr w' \<and> written_to w' = written_to w"
    and "digest32 sha" and "header_valid h" and "\<forall>i\<in>set inputs. input_typed i" and "es = map (input_entry remaining) inputs"
  shows "if frame_ok sha b h es \<and> (\<forall>i\<in>set inputs. input_declared remaining i)
    then \<exists>w'. encode_all wr flush rd sha w h b inputs =
        Inr (\<lparr>summary_entries = of_nat (length es), summary_content_bytes = of_nat (content_total es),
              summary_frame_bytes = of_nat (length (frame_of sha h es)), frame_sha256 = sha (frame_of sha h es)\<rparr>, w')
      \<and> written_to w' = written_to w @ frame_of sha h es
    else \<exists>e. encode_all wr flush rd sha w h b inputs = Inl e"
proof -
  have "frame_channel rd remaining wr written_to" using assms(1,2) by (simp add: frame_channel_def)
  then show ?thesis by (rule frame_channel.encode_all_follows) (use assms in auto)
qed

definition example_header :: CustodyFrameHeaderV1 where
  "example_header = \<lparr>header_class = CovIndex, header_code = 3, generation_id = [103, 49]\<rparr>"

definition example_inputs :: "u8 list FrameInput list" where
  "example_inputs = [InDirectory [97] 493, InRegular [97, 47, 98] 420 3 [1, 2, 3], InSymlink [99] [97, 47, 98]]"

definition example_sha :: "u8 list \<Rightarrow> u8 list" where
  "example_sha m = of_nat (length m) # replicate 31 (foldl (+) 0 m)"

lemma example_sha_digest: "digest32 example_sha"
  by (simp add: digest32_def example_sha_def)

theorem encoder_writes_exact_frame_witness:
  "\<exists>summary. encode_all (chunk_write 4) Inr (chunk_read 1) example_sha [] example_header \<lparr>max_entries = 10, max_frame_bytes = 1000\<rparr> example_inputs
     = Inr (summary, frame_of example_sha example_header (map (input_entry (\<lambda>s. s)) example_inputs))"
proof -
  have "header_valid example_header" by code_simp
  moreover have "\<forall>i\<in>set example_inputs. input_typed i" by code_simp
  moreover have "\<forall>i\<in>set example_inputs. input_declared (\<lambda>s. s) i" by code_simp
  moreover have "frame_ok example_sha \<lparr>max_entries = 10, max_frame_bytes = 1000\<rparr> example_header (map (input_entry (\<lambda>s. s)) example_inputs)"
    by code_simp
  ultimately show ?thesis
    using encoder_writes_exact_frame [OF chunks.byte_reader_axioms pieces.byte_sink_axioms _ example_sha_digest,
        of Inr example_header example_inputs "map (input_entry (\<lambda>s. s)) example_inputs" "\<lparr>max_entries = 10, max_frame_bytes = 1000\<rparr>" 4 1 "[]"]
    by auto
qed

end
