(* ===== verification/Custody_Decoder.thy ===== *)
theory Custody_Decoder
  imports Custody_Encoder
begin

text \<open>
  The streaming decoder of the coverage frame (\<open>custody_frame.rs\<close>). The decoder state and the source are passed
  along; a refusal of an operation leaves the decoder poisoned and its other fields are not read again. The decoder yields
  records; the content of a regular file is read through the decoder in buffers the consumer chooses, or skipped.
\<close>

section \<open>The decoder\<close>

datatype DecoderPhaseV1 = PhaseOpen | PhaseComplete | PhasePoisoned

record PendingContentV1 =
  pending_remaining :: u64
  pending_content :: "u8 list"

datatype RecordV1 =
    RecordDirectory "u8 list" u32
  | RecordRegular "u8 list" u32 u64
  | RecordSymlink "u8 list" "u8 list"

record DecoderStateV1 =
  dec_budget :: CustodyFrameBudgetV1
  dec_record_limit :: u64
  admitted :: u64
  dec_frame :: "u8 list"
  dec_order :: CanonicalOrderV1
  dec_entries :: u64
  dec_content_bytes :: u64
  pending :: "PendingContentV1 option"
  phase :: DecoderPhaseV1

type_synonym ('a, 's) decoded = "CustodyFrameErrorV1 + 'a \<times> DecoderStateV1 \<times> 's"

definition dec_admit :: "DecoderStateV1 \<Rightarrow> u64 \<Rightarrow> CustodyFrameErrorV1 + DecoderStateV1" where
  "dec_admit self sz =
     (case checked_add (admitted self) sz of
        None \<Rightarrow> Inl ByteBudget
      | Some e \<Rightarrow> if dec_record_limit self < e then Inl ByteBudget else Inr (self\<lparr>admitted := e\<rparr>))"

definition read_frame_bytes :: "'s reader \<Rightarrow> DecoderStateV1 \<Rightarrow> 's \<Rightarrow> nat \<Rightarrow> (u8 list, 's) decoded" where
  "read_frame_bytes rd self s n =
     rbind (read_exactly rd s n) (\<lambda>(bytes, s). Inr (bytes, self\<lparr>dec_frame := dec_frame self @ bytes\<rparr>, s))"

definition read_u8 :: "'s reader \<Rightarrow> DecoderStateV1 \<Rightarrow> 's \<Rightarrow> (u8, 's) decoded" where
  "read_u8 rd self s = rbind (read_frame_bytes rd self s 1) (\<lambda>(bytes, self, s). Inr (bytes ! 0, self, s))"

definition read_u16 :: "'s reader \<Rightarrow> DecoderStateV1 \<Rightarrow> 's \<Rightarrow> (u16, 's) decoded" where
  "read_u16 rd self s = rbind (read_frame_bytes rd self s 2) (\<lambda>(bytes, self, s). Inr (of_nat (from_le_bytes bytes), self, s))"

definition read_u64 :: "'s reader \<Rightarrow> DecoderStateV1 \<Rightarrow> 's \<Rightarrow> (u64, 's) decoded" where
  "read_u64 rd self s = rbind (read_frame_bytes rd self s 8) (\<lambda>(bytes, self, s). Inr (of_nat (from_le_bytes bytes), self, s))"

definition read_header :: "'s reader \<Rightarrow> DecoderStateV1 \<Rightarrow> 's \<Rightarrow> CustodyFrameHeaderV1 \<Rightarrow> (unit, 's) decoded" where
  "read_header rd self s expected =
     rbind (dec_admit self HEADER_FIXED_BYTES_V1) (\<lambda>self.
     rbind (read_frame_bytes rd self s 8) (\<lambda>(magic, self, s).
     if magic \<noteq> MAGIC_V1 then Inl BadMagic
     else rbind (read_u8 rd self s) (\<lambda>(version, self, s).
     if version \<noteq> VERSION_V1 then Inl UnsupportedVersion
     else rbind (read_u8 rd self s) (\<lambda>(code, self, s).
     rbind (class_from_code code) (\<lambda>cls.
     if cls \<noteq> header_class expected then Inl ClassMismatch
     else rbind (read_u16 rd self s) (\<lambda>(n, self, s).
     if \<not> generation_length_admitted (unat n) then Inl InvalidGeneration
     else rbind (dec_admit self (ucast n)) (\<lambda>self.
     rbind (read_frame_bytes rd self s (unat n)) (\<lambda>(generation, self, s).
     if \<not> utf8_valid generation then Inl InvalidGeneration
     else if generation \<noteq> generation_id expected then Inl GenerationMismatch
     else Inr ((), self, s)))))))))"

definition read_path :: "'s reader \<Rightarrow> DecoderStateV1 \<Rightarrow> 's \<Rightarrow> (u8 list, 's) decoded" where
  "read_path rd self s =
     rbind (dec_admit self 2) (\<lambda>self.
     rbind (read_u16 rd self s) (\<lambda>(n, self, s).
     if \<not> path_length_admitted (unat n) then Inl PathTooLong
     else rbind (dec_admit self (ucast n)) (\<lambda>self.
     rbind (read_frame_bytes rd self s (unat n)) (\<lambda>(bytes, self, s).
     rbind (path_from_bytes bytes) (\<lambda>path. Inr (path, self, s))))))"

definition read_trailer :: "'s reader \<Rightarrow> (u8 list \<Rightarrow> u8 list) \<Rightarrow> DecoderStateV1 \<Rightarrow> 's \<Rightarrow> (unit, 's) decoded" where
  "read_trailer rd sha self s =
     rbind (read_u64 rd self s) (\<lambda>(n, self, s).
     rbind (read_u64 rd self s) (\<lambda>(content, self, s).
     let expected = sha (dec_frame self) in
     rbind (read_exactly rd s 32) (\<lambda>(digest, s).
     if n \<noteq> dec_entries self then Inl CountMismatch
     else if content \<noteq> dec_content_bytes self then Inl TotalMismatch
     else if digest \<noteq> expected then Inl FrameDigestMismatch
     else rbind (read_some rd s 1) (\<lambda>(probe, s).
     if probe \<noteq> [] then Inl TrailingBytes
     else Inr ((), self\<lparr>phase := PhaseComplete\<rparr>, s)))))"

definition read_content_bytes :: "'s reader \<Rightarrow> DecoderStateV1 \<Rightarrow> 's \<Rightarrow> nat \<Rightarrow> (u8 list, 's) decoded" where
  "read_content_bytes rd self s capacity =
     (case pending self of
        None \<Rightarrow> Inr ([], self, s)
      | Some p \<Rightarrow>
          let want = chunk_length (pending_remaining p) capacity in
          if want = 0 then Inr ([], self, s)
          else rbind (read_some rd s want) (\<lambda>(chunk, s).
            if chunk = [] then Inl FrameTruncated
            else Inr (chunk, self\<lparr>pending := Some \<lparr>pending_remaining = pending_remaining p - of_nat (length chunk),
                                                   pending_content = pending_content p @ chunk\<rparr>,
                                 dec_frame := dec_frame self @ chunk\<rparr>, s)))"

definition finish_content :: "'s reader \<Rightarrow> (u8 list \<Rightarrow> u8 list) \<Rightarrow> DecoderStateV1 \<Rightarrow> 's \<Rightarrow> (unit, 's) decoded" where
  "finish_content rd sha self s =
     (case pending self of
        None \<Rightarrow> Inr ((), self, s)
      | Some p \<Rightarrow>
          rbind (read_frame_bytes rd (self\<lparr>pending := None\<rparr>) s 32) (\<lambda>(stored, self, s).
          if sha (pending_content p) \<noteq> stored then Inl ContentDigestMismatch else Inr ((), self, s)))"

definition unread :: "DecoderStateV1 \<Rightarrow> nat" where
  "unread self = (case pending self of None \<Rightarrow> 0 | Some p \<Rightarrow> unat (pending_remaining p))"

lemma read_content_progress:
  assumes "read_content_bytes rd self s capacity = Inr (chunk, self', s')" and "0 < unread self" and "0 < capacity"
  shows "unread self' < unread self"
proof -
  obtain p where p: "pending self = Some p" "0 < unat (pending_remaining p)"
    using assms(2) by (cases "pending self") (auto simp: unread_def)
  have "chunk_length (pending_remaining p) capacity \<noteq> 0" using p(2) assms(3) by (simp add: chunk_length_def)
  with assms(1) p have "read_some rd s (chunk_length (pending_remaining p) capacity) = Inr (chunk, s')" and chunk: "chunk \<noteq> []"
    and self': "pending self' = Some \<lparr>pending_remaining = pending_remaining p - of_nat (length chunk),
      pending_content = pending_content p @ chunk\<rparr>"
    by (auto simp: read_content_bytes_def Let_def rbind_Inr_iff split: if_splits)
  then have "length chunk \<le> chunk_length (pending_remaining p) capacity" by (auto dest: read_some_length)
  from chunk_fits(3) [OF this] chunk p self' show ?thesis by (cases chunk) (simp_all add: unread_def)
qed

function (sequential) discard_content :: "'s reader \<Rightarrow> DecoderStateV1 \<Rightarrow> 's \<Rightarrow> (unit, 's) decoded" where
  "discard_content rd self s =
     (if (case pending self of None \<Rightarrow> False | Some p \<Rightarrow> 0 < pending_remaining p) then
        (case read_content_bytes rd self s CONTENT_BUFFER_BYTES_V1 of
           Inl e \<Rightarrow> Inl e
         | Inr (_, self, s) \<Rightarrow> discard_content rd self s)
      else Inr ((), self, s))"
  by pat_completeness auto
termination
proof (relation "measure (\<lambda>(rd, self, s). unread self)")
  fix rd :: "'s reader" and self :: DecoderStateV1 and s r chunk r' self' s'
  assume "case pending self of None \<Rightarrow> False | Some p \<Rightarrow> 0 < pending_remaining p"
    and "read_content_bytes rd self s CONTENT_BUFFER_BYTES_V1 = Inr r" and "(chunk, r') = r" and "(self', s') = r'"
  moreover from this(1) have "0 < unread self" by (auto simp: unread_def word_less_nat_alt split: option.splits)
  ultimately show "((rd, self', s'), rd, self, s) \<in> measure (\<lambda>(rd, self, s). unread self)"
    using read_content_progress [of rd self s CONTENT_BUFFER_BYTES_V1 chunk self' s'] by (auto simp: CONTENT_BUFFER_BYTES_V1_def)
qed simp

declare discard_content.simps [simp del]

definition drain_pending :: "'s reader \<Rightarrow> (u8 list \<Rightarrow> u8 list) \<Rightarrow> DecoderStateV1 \<Rightarrow> 's \<Rightarrow> (unit, 's) decoded" where
  "drain_pending rd sha self s = rbind (discard_content rd self s) (\<lambda>(_, self, s). finish_content rd sha self s)"

datatype RecordKindV1 = KindDirectory | KindRegular | KindSymlink

definition record_kind :: "u8 \<Rightarrow> CustodyFrameErrorV1 + RecordKindV1" where
  "record_kind tag =
     (if tag = TAG_DIRECTORY_V1 then Inr KindDirectory
      else if tag = TAG_REGULAR_V1 then Inr KindRegular
      else if tag = TAG_SYMLINK_V1 then Inr KindSymlink
      else Inl UnknownTag)"

fun read_body :: "'s reader \<Rightarrow> DecoderStateV1 \<Rightarrow> 's \<Rightarrow> RecordKindV1 \<Rightarrow> u8 list \<Rightarrow> (RecordV1, 's) decoded" where
  "read_body rd self s KindDirectory path =
     rbind (dec_admit self 2) (\<lambda>self.
     rbind (read_u16 rd self s) (\<lambda>(m, self, s).
     rbind (decode_mode m) (\<lambda>mode. Inr (RecordDirectory path mode, self, s))))"
| "read_body rd self s KindRegular path =
     rbind (dec_admit self (2 + 8)) (\<lambda>self.
     rbind (read_u16 rd self s) (\<lambda>(m, self, s).
     rbind (decode_mode m) (\<lambda>mode.
     rbind (read_u64 rd self s) (\<lambda>(n, self, s).
     case checked_add n 32 of
       None \<Rightarrow> Inl ByteBudget
     | Some sz \<Rightarrow>
         rbind (dec_admit self sz) (\<lambda>self.
         case checked_add (dec_content_bytes self) n of
           None \<Rightarrow> Inl ByteBudget
         | Some content \<Rightarrow>
             Inr (RecordRegular path mode n,
                  self\<lparr>dec_content_bytes := content,
                       pending := Some \<lparr>pending_remaining = n, pending_content = []\<rparr>\<rparr>, s))))))"
| "read_body rd self s KindSymlink path =
     rbind (dec_admit self 2) (\<lambda>self.
     rbind (read_u16 rd self s) (\<lambda>(n, self, s).
     if \<not> symlink_target_length_admitted (unat n) then Inl InvalidSymlinkTarget
     else rbind (dec_admit self (ucast n)) (\<lambda>self.
     rbind (read_frame_bytes rd self s (unat n)) (\<lambda>(target, self, s).
     rbind (validate_symlink_target target) (\<lambda>_. Inr (RecordSymlink path target, self, s))))))"

text \<open>What \<open>next_record\<close> does once the pending content is drained.\<close>

definition tagged_record :: "'s reader \<Rightarrow> (u8 list \<Rightarrow> u8 list) \<Rightarrow> DecoderStateV1 \<Rightarrow> 's \<Rightarrow> (RecordV1 option, 's) decoded" where
  "tagged_record rd sha self s =
     rbind (read_u8 rd self s) (\<lambda>(tag, self, s).
     if tag = TAG_TRAILER_V1 then rbind (read_trailer rd sha self s) (\<lambda>(_, self, s). Inr (None, self, s))
     else rbind (record_kind tag) (\<lambda>kind.
     if max_entries (dec_budget self) \<le> dec_entries self then Inl EntryLimit
     else rbind (dec_admit self 1) (\<lambda>self.
     rbind (read_path rd self s) (\<lambda>(path, self, s).
     rbind (order_admit (dec_order self) path (kind = KindDirectory)) (\<lambda>ord.
     rbind (read_body rd (self\<lparr>dec_order := ord\<rparr>) s kind path) (\<lambda>(record, self, s).
     Inr (Some record, self\<lparr>dec_entries := dec_entries self + 1\<rparr>, s)))))))"

definition next_record :: "'s reader \<Rightarrow> (u8 list \<Rightarrow> u8 list) \<Rightarrow> DecoderStateV1 \<Rightarrow> 's \<Rightarrow> (RecordV1 option, 's) decoded" where
  "next_record rd sha self s = rbind (drain_pending rd sha self s) (\<lambda>(_, self, s). tagged_record rd sha self s)"

definition decoder_new ::
  "'s reader \<Rightarrow> 's \<Rightarrow> CustodyFrameHeaderV1 \<Rightarrow> CustodyFrameBudgetV1 \<Rightarrow> CustodyFrameErrorV1 + DecoderStateV1 \<times> 's" where
  "decoder_new rd s expected b =
     rbind (record_limit b) (\<lambda>limit.
     rbind (read_header rd \<lparr>dec_budget = b, dec_record_limit = limit, admitted = 0, dec_frame = [], dec_order = order_default,
              dec_entries = 0, dec_content_bytes = 0, pending = None, phase = PhaseOpen\<rparr> s expected) (\<lambda>(_, self, s).
     Inr (self, s)))"

definition next_entry ::
  "'s reader \<Rightarrow> (u8 list \<Rightarrow> u8 list) \<Rightarrow> DecoderStateV1 \<Rightarrow> 's \<Rightarrow> (CustodyFrameErrorV1 + RecordV1 option) \<times> DecoderStateV1 \<times> 's" where
  "next_entry rd sha self s =
     (case phase self of
        PhasePoisoned \<Rightarrow> (Inl Poisoned, self, s)
      | PhaseComplete \<Rightarrow> (Inr None, self, s)
      | PhaseOpen \<Rightarrow>
          (case next_record rd sha self s of
             Inl e \<Rightarrow> (Inl e, self\<lparr>phase := PhasePoisoned\<rparr>, s)
           | Inr (record, self, s) \<Rightarrow> (Inr record, self, s)))"

definition read_yielded_content ::
  "'s reader \<Rightarrow> (u8 list \<Rightarrow> u8 list) \<Rightarrow> DecoderStateV1 \<Rightarrow> 's \<Rightarrow> nat \<Rightarrow> (u8 list, 's) decoded" where
  "read_yielded_content rd sha self s capacity =
     rbind (read_content_bytes rd self s capacity) (\<lambda>(bytes, self, s).
     if (case pending self of None \<Rightarrow> False | Some p \<Rightarrow> pending_remaining p = 0)
     then rbind (finish_content rd sha self s) (\<lambda>(_, self, s). Inr (bytes, self, s))
     else Inr (bytes, self, s))"

definition consumer_read ::
  "'s reader \<Rightarrow> (u8 list \<Rightarrow> u8 list) \<Rightarrow> DecoderStateV1 \<Rightarrow> 's \<Rightarrow> nat \<Rightarrow> (CustodyFrameErrorV1 + u8 list) \<times> DecoderStateV1 \<times> 's" where
  "consumer_read rd sha self s capacity =
     (if phase self = PhasePoisoned then (Inl Poisoned, self, s)
      else case read_yielded_content rd sha self s capacity of
          Inl e \<Rightarrow> (Inl e, self\<lparr>phase := PhasePoisoned\<rparr>, s)
        | Inr (bytes, self, s) \<Rightarrow> (Inr bytes, self, s))"

section \<open>A consumer\<close>

text \<open>The consumer reads the content of a file in buffers of its choice, whatever a read returns.\<close>

fun consume ::
  "'s reader \<Rightarrow> (u8 list \<Rightarrow> u8 list) \<Rightarrow> DecoderStateV1 \<Rightarrow> 's \<Rightarrow> nat list \<Rightarrow> u8 list \<times> DecoderStateV1 \<times> 's" where
  "consume rd sha self s [] = ([], self, s)"
| "consume rd sha self s (n # ns) =
     (case consumer_read rd sha self s n of (outcome, self, s) \<Rightarrow>
      case consume rd sha self s ns of (rest, self, s) \<Rightarrow>
      ((case outcome of Inl _ \<Rightarrow> rest | Inr bytes \<Rightarrow> bytes @ rest), self, s))"

text \<open>No operation changes the budget, and only a record counts as an entry.\<close>

definition same_count :: "DecoderStateV1 \<Rightarrow> DecoderStateV1 \<Rightarrow> bool" where
  "same_count self self' \<longleftrightarrow> dec_budget self' = dec_budget self \<and> dec_entries self' = dec_entries self"

lemma same_count_refl [simp]: "same_count d d"
  by (simp add: same_count_def)

lemma same_count_trans: "same_count d d' \<Longrightarrow> same_count d' d'' \<Longrightarrow> same_count d d''"
  by (simp add: same_count_def)

lemma same_count_admit: "dec_admit d n = Inr d' \<Longrightarrow> same_count d d'"
  by (auto simp: dec_admit_def same_count_def split: option.splits if_splits)

lemma same_count_bytes: "read_frame_bytes rd d s n = Inr (x, d', s') \<Longrightarrow> same_count d d'"
  by (auto simp: read_frame_bytes_def same_count_def rbind_Inr_iff)

lemma same_count_u8: "read_u8 rd d s = Inr (x, d', s') \<Longrightarrow> same_count d d'"
  by (auto simp: read_u8_def rbind_Inr_iff dest!: same_count_bytes)

lemma same_count_u16: "read_u16 rd d s = Inr (x, d', s') \<Longrightarrow> same_count d d'"
  by (auto simp: read_u16_def rbind_Inr_iff dest!: same_count_bytes)

lemma same_count_u64: "read_u64 rd d s = Inr (x, d', s') \<Longrightarrow> same_count d d'"
  by (auto simp: read_u64_def rbind_Inr_iff dest!: same_count_bytes)

lemmas same_count_reads = same_count_admit same_count_bytes same_count_u8 same_count_u16 same_count_u64

lemma same_count_path: "read_path rd d s = Inr (x, d', s') \<Longrightarrow> same_count d d'"
  by (auto simp: read_path_def rbind_Inr_iff same_count_def split: if_splits dest!: same_count_reads)

lemma same_count_body: "read_body rd d s kind path = Inr (x, d', s') \<Longrightarrow> same_count d d'"
  by (cases kind) (auto simp: rbind_Inr_iff same_count_def split: if_splits option.splits dest!: same_count_reads)

lemma same_count_content: "read_content_bytes rd d s n = Inr (x, d', s') \<Longrightarrow> same_count d d'"
  by (auto simp: read_content_bytes_def Let_def rbind_Inr_iff same_count_def split: option.splits if_splits)

lemma same_count_finish: "finish_content rd sha d s = Inr (x, d', s') \<Longrightarrow> same_count d d'"
  by (auto simp: finish_content_def rbind_Inr_iff same_count_def split: option.splits if_splits dest!: same_count_bytes)

lemma same_count_discard: "discard_content rd d s = Inr (x, d', s') \<Longrightarrow> same_count d d'"
proof (induction rd d s rule: discard_content.induct)
  case (1 rd self s)
  show ?case
  proof (cases "case pending self of None \<Rightarrow> False | Some p \<Rightarrow> 0 < pending_remaining p")
    case True
    with 1(2) obtain b d1 s1 where r: "read_content_bytes rd self s CONTENT_BUFFER_BYTES_V1 = Inr (b, d1, s1)"
      "discard_content rd d1 s1 = Inr (x, d', s')"
      by (auto simp: discard_content.simps [of rd self] split: sum.splits prod.splits)
    from 1(1) [OF True r(1) refl refl r(2)] same_count_content [OF r(1)] show ?thesis by (auto intro: same_count_trans)
  next
    case False
    with 1(2) show ?thesis by (simp add: discard_content.simps [of rd self])
  qed
qed

lemma same_count_drain: "drain_pending rd sha d s = Inr (x, d', s') \<Longrightarrow> same_count d d'"
  by (auto simp: drain_pending_def rbind_Inr_iff dest!: same_count_discard same_count_finish intro: same_count_trans)

lemma next_record_counts:
  assumes "next_record rd sha d s = Inr (Some r, d', s')"
  shows "dec_budget d' = dec_budget d" and "dec_entries d' = dec_entries d + 1" and "dec_entries d < max_entries (dec_budget d)"
  using assms
  by (auto simp: next_record_def tagged_record_def rbind_Inr_iff same_count_def not_le split: if_splits
      dest!: same_count_drain same_count_u8 same_count_admit same_count_path same_count_body)

lemma same_count_consumer_read: "consumer_read rd sha d s n = (x, d', s') \<Longrightarrow> same_count d d'"
  by (auto simp: consumer_read_def read_yielded_content_def rbind_Inr_iff same_count_def
      split: if_splits sum.splits dest!: same_count_content same_count_finish)

lemma same_count_consume: "consume rd sha d s ns = (x, d', s') \<Longrightarrow> same_count d d'"
  by (induction ns arbitrary: d s x) (auto split: prod.splits dest!: same_count_consumer_read intro: same_count_trans)

text \<open>A consumer that asks for entries until the decoder reports the end; \<open>plan\<close> says how it reads the content of a record.\<close>

function (sequential) decode_entries ::
  "'s reader \<Rightarrow> (u8 list \<Rightarrow> u8 list) \<Rightarrow> (RecordV1 \<Rightarrow> nat list) \<Rightarrow> DecoderStateV1 \<Rightarrow> 's
   \<Rightarrow> CustodyFrameErrorV1 + (RecordV1 \<times> u8 list) list" where
  "decode_entries rd sha plan self s =
     (case next_entry rd sha self s of
        (Inl e, _) \<Rightarrow> Inl e
      | (Inr None, _) \<Rightarrow> Inr []
      | (Inr (Some record), self, s) \<Rightarrow>
          (case consume rd sha self s (plan record) of (bytes, self, s) \<Rightarrow>
           rbind (decode_entries rd sha plan self s) (\<lambda>rest. Inr ((record, bytes) # rest))))"
  by pat_completeness auto
termination
proof (relation "measure (\<lambda>(rd, sha, plan, self, s). unat (max_entries (dec_budget self)) - unat (dec_entries self))")
  fix rd :: "'s reader" and sha :: "u8 list \<Rightarrow> u8 list" and plan and self :: DecoderStateV1
    and s x y z r self1 s1 bytes v self2 s2
  assume "(x, y) = next_entry rd sha self s" "x = Inr z" "z = Some r" "(self1, s1) = y"
    and "(bytes, v) = consume rd sha self1 s1 (plan r)" "(self2, s2) = v"
  then have nx: "next_record rd sha self s = Inr (Some r, self1, s1)"
    and "consume rd sha self1 s1 (plan r) = (bytes, self2, s2)"
    by (auto simp: next_entry_def split: DecoderPhaseV1.splits sum.splits prod.splits)
  from this(2) have "same_count self1 self2" by (rule same_count_consume)
  moreover have "unat (dec_entries self + 1) = Suc (unat (dec_entries self))"
    using next_record_counts(3) [OF nx] unat_u64_less [of "max_entries (dec_budget self)"]
    by (simp add: unat_word_ariths word_less_nat_alt)
  ultimately show "((rd, sha, plan, self2, s2), rd, sha, plan, self, s)
      \<in> measure (\<lambda>(rd, sha, plan, self, s). unat (max_entries (dec_budget self)) - unat (dec_entries self))"
    using next_record_counts [OF nx] by (auto simp: same_count_def word_less_nat_alt)
qed simp

declare decode_entries.simps [simp del]

definition decode_all ::
  "'s reader \<Rightarrow> (u8 list \<Rightarrow> u8 list) \<Rightarrow> (RecordV1 \<Rightarrow> nat list) \<Rightarrow> 's \<Rightarrow> CustodyFrameHeaderV1 \<Rightarrow> CustodyFrameBudgetV1
   \<Rightarrow> CustodyFrameErrorV1 + (RecordV1 \<times> u8 list) list" where
  "decode_all rd sha plan s h b = rbind (decoder_new rd s h b) (\<lambda>(self, s). decode_entries rd sha plan self s)"

section \<open>The pieces of the source do not matter\<close>

definition map_source :: "('s \<Rightarrow> 't) \<Rightarrow> ('a, 's) decoded \<Rightarrow> ('a, 't) decoded" where
  "map_source f = map_sum id (map_prod id (map_prod id f))"

lemma map_source_simps [simp]:
  "map_source f (Inl e) = Inl e" "map_source f (Inr (a, p)) = Inr (a, fst p, f (snd p))"
  "map_source f (rbind r k) = rbind r (\<lambda>x. map_source f (k x))"
  "map_source f (if c then x else y) = (if c then map_source f x else map_source f y)"
  "rbind (map_source f q) g = rbind q (\<lambda>x. g (fst x, fst (snd x), f (snd (snd x))))"
  by (cases r; simp add: map_source_def; fail | cases q; simp add: map_source_def map_prod_def case_prod_unfold; fail
     | cases p; simp add: map_source_def; fail | simp add: map_source_def)+

lemma rbind_map_pair: "rbind (map_sum id (map_prod id f) q) g = rbind q (\<lambda>x. g (fst x, f (snd x)))"
  by (cases q) (simp_all add: map_prod_def case_prod_unfold)

text \<open>Content after a piece of it was read, and the whole result of skipping content.\<close>

definition after_chunk :: "DecoderStateV1 \<Rightarrow> PendingContentV1 \<Rightarrow> u8 list \<Rightarrow> DecoderStateV1" where
  "after_chunk d p chunk =
     d\<lparr>pending := Some \<lparr>pending_remaining = pending_remaining p - of_nat (length chunk), pending_content = pending_content p @ chunk\<rparr>,
       dec_frame := dec_frame d @ chunk\<rparr>"

definition discarded :: "DecoderStateV1 \<Rightarrow> u8 list \<Rightarrow> (unit, u8 list) decoded" where
  "discarded d r =
     (case pending d of
        None \<Rightarrow> Inr ((), d, r)
      | Some p \<Rightarrow>
          if unread d \<le> length r
          then Inr ((), d\<lparr>pending := Some \<lparr>pending_remaining = 0, pending_content = pending_content p @ take (unread d) r\<rparr>,
                          dec_frame := dec_frame d @ take (unread d) r\<rparr>, drop (unread d) r)
          else Inl FrameTruncated)"

lemma unread_after_chunk:
  assumes "pending d = Some p" and "length chunk \<le> unread d"
  shows "unread (after_chunk d p chunk) = unread d - length chunk"
proof -
  have "length chunk \<le> chunk_length (pending_remaining p) (length chunk)"
    using assms by (simp add: unread_def chunk_length_def)
  from chunk_fits(3) [OF this] assms(1) show ?thesis by (simp add: unread_def after_chunk_def)
qed

lemma discarded_chunk:
  assumes "pending d = Some p" and "length chunk \<le> unread d"
  shows "discarded (after_chunk d p chunk) r = discarded d (chunk @ r)"
proof -
  have "unread d - length chunk \<le> length r \<longleftrightarrow> unread d \<le> length (chunk @ r)" using assms(2) by auto
  moreover have "take (unread d) (chunk @ r) = chunk @ take (unread d - length chunk) r" using assms(2) by simp
  ultimately show ?thesis
    using assms(1) unread_after_chunk [OF assms] by (simp add: discarded_def) (simp add: after_chunk_def)
qed

context byte_reader
begin

lemma sim_read_exactly: "read_exactly slice_read (remaining s) n = map_sum id (map_prod id remaining) (read_exactly rd s n)"
  using read_exactly_spec [of n s] by (auto simp: slice_read_exactly split: if_splits)

lemma sim_read_frame_bytes: "read_frame_bytes slice_read d (remaining s) n = map_source remaining (read_frame_bytes rd d s n)"
  using sim_read_exactly [of s n] by (cases "read_exactly rd s n") (auto simp: read_frame_bytes_def)

lemma sim_read_u8: "read_u8 slice_read d (remaining s) = map_source remaining (read_u8 rd d s)"
  by (simp add: read_u8_def sim_read_frame_bytes case_prod_unfold)

lemma sim_read_u16: "read_u16 slice_read d (remaining s) = map_source remaining (read_u16 rd d s)"
  by (simp add: read_u16_def sim_read_frame_bytes case_prod_unfold)

lemma sim_read_u64: "read_u64 slice_read d (remaining s) = map_source remaining (read_u64 rd d s)"
  by (simp add: read_u64_def sim_read_frame_bytes case_prod_unfold)

lemmas sim_reads = sim_read_frame_bytes sim_read_u8 sim_read_u16 sim_read_u64

lemma sim_read_header: "read_header slice_read d (remaining s) h = map_source remaining (read_header rd d s h)"
  by (simp add: read_header_def sim_reads case_prod_unfold cong: if_cong)

lemma sim_read_path: "read_path slice_read d (remaining s) = map_source remaining (read_path rd d s)"
  by (simp add: read_path_def sim_reads case_prod_unfold cong: if_cong)

lemma sim_read_body: "read_body slice_read d (remaining s) kind path = map_source remaining (read_body rd d s kind path)"
  by (cases kind) (simp_all add: sim_reads case_prod_unfold option.case_distrib [of "map_source remaining"] cong: if_cong option.case_cong)

lemma sim_probe:
  "rbind (read_some slice_read (remaining s) 1) (\<lambda>x. if fst x \<noteq> [] then Inl e else Inr (a, d, snd x)) =
   map_source remaining (rbind (read_some rd s 1) (\<lambda>x. if fst x \<noteq> [] then Inl e else Inr (a, d, snd x)))"
  using probe_spec [of s] slice.probe_spec [of "remaining s"] by (auto split: if_splits)

lemma sim_read_trailer: "read_trailer slice_read sha d (remaining s) = map_source remaining (read_trailer rd sha d s)"
  by (simp add: read_trailer_def sim_reads sim_probe [simplified] sim_read_exactly rbind_map_pair Let_def case_prod_unfold cong: if_cong)

lemma sim_finish_content: "finish_content slice_read sha d (remaining s) = map_source remaining (finish_content rd sha d s)"
  by (cases "pending d") (simp_all add: finish_content_def sim_reads case_prod_unfold cong: if_cong)

text \<open>One read of content: it takes a piece, or the source is at its end.\<close>

lemma content_chunk:
  assumes p: "pending d = Some p" and n: "chunk_length (pending_remaining p) n \<noteq> 0"
  shows "read_content_bytes rd d s n = Inl FrameTruncated \<and> remaining s = [] \<and> 0 < unread d
    \<or> (\<exists>chunk s'. read_content_bytes rd d s n = Inr (chunk, after_chunk d p chunk, s') \<and> chunk \<noteq> []
        \<and> length chunk \<le> unread d \<and> remaining s = chunk @ remaining s')"
proof -
  let ?n = "chunk_length (pending_remaining p) n"
  obtain chunk s' where chunk: "read_some rd s ?n = Inr (chunk, s')" "remaining s = chunk @ remaining s'" "length chunk \<le> ?n"
    "0 < ?n \<longrightarrow> remaining s \<noteq> [] \<longrightarrow> chunk \<noteq> []" using read_some_ex [of s ?n] by (elim exE conjE)
  show ?thesis
  proof (cases "chunk = []")
    case True
    then have "remaining s = []" "0 < unread d" using n chunk(4) p by (auto simp: unread_def chunk_length_def)
    with True chunk(1) p n show ?thesis by (simp add: read_content_bytes_def Let_def)
  next
    case False
    then have "read_content_bytes rd d s n = Inr (chunk, after_chunk d p chunk, s')"
      using p n chunk(1) by (simp add: read_content_bytes_def Let_def after_chunk_def)
    moreover have "length chunk \<le> unread d" using chunk(3) p by (simp add: unread_def chunk_length_def)
    ultimately show ?thesis using False chunk(2) by blast
  qed
qed

lemma discard_content_spec: "map_source remaining (discard_content rd d s) = discarded d (remaining s)"
proof (induction "unread d" arbitrary: d s rule: less_induct)
  case less
  show ?case
  proof (cases "\<exists>p. pending d = Some p \<and> pending_remaining p \<noteq> 0")
    case False
    then show ?thesis
      by (cases "pending d") (auto simp: discard_content.simps [of rd d] discarded_def unread_def intro: DecoderStateV1.equality)
  next
    case True
    then obtain p where p: "pending d = Some p" "pending_remaining p \<noteq> 0" by blast
    then have loop: "case pending d of None \<Rightarrow> False | Some p \<Rightarrow> 0 < pending_remaining p" by (simp add: word_neq_0_conv)
    have "chunk_length (pending_remaining p) CONTENT_BUFFER_BYTES_V1 \<noteq> 0"
      using p(2) by (simp add: chunk_length_def CONTENT_BUFFER_BYTES_V1_def unat_gt_0)
    from content_chunk [OF p(1) this, of s] show ?thesis
    proof (elim disjE exE conjE)
      assume "read_content_bytes rd d s CONTENT_BUFFER_BYTES_V1 = Inl FrameTruncated" "remaining s = []" "0 < unread d"
      with loop p(1) show ?thesis by (simp add: discard_content.simps [of rd d] discarded_def)
    next
      fix chunk s'
      assume c: "read_content_bytes rd d s CONTENT_BUFFER_BYTES_V1 = Inr (chunk, after_chunk d p chunk, s')" "chunk \<noteq> []"
        "length chunk \<le> unread d" "remaining s = chunk @ remaining s'"
      then have "unread (after_chunk d p chunk) < unread d" using unread_after_chunk [OF p(1) c(3)] by (cases chunk) auto
      from less [OF this, of s'] loop c(1) show ?thesis
        by (simp add: discard_content.simps [of rd d] discarded_chunk [OF p(1) c(3)] c(4))
    qed
  qed
qed

end

lemma map_source_id [simp]: "map_source (\<lambda>s. s) r = r"
  by (cases r) (auto simp: map_source_def)

lemma map_source_Inl_iff [simp]: "map_source f r = Inl e \<longleftrightarrow> r = Inl e"
  by (cases r) (auto simp: map_source_def)

lemma map_source_Inr_iff: "map_source f r = Inr (a, d, t) \<longleftrightarrow> (\<exists>s. r = Inr (a, d, s) \<and> f s = t)"
  by (cases r) (auto simp: map_source_def)

context byte_reader
begin

lemma sim_discard_content: "discard_content slice_read d (remaining s) = map_source remaining (discard_content rd d s)"
  using slice.discard_content_spec [of d "remaining s"] discard_content_spec [of d s] by simp

lemma sim_drain_pending: "drain_pending slice_read sha d (remaining s) = map_source remaining (drain_pending rd sha d s)"
  by (simp add: drain_pending_def sim_discard_content sim_finish_content case_prod_unfold)

lemma sim_tagged_record: "tagged_record slice_read sha d (remaining s) = map_source remaining (tagged_record rd sha d s)"
  by (simp add: tagged_record_def sim_reads sim_read_trailer sim_read_path sim_read_body case_prod_unfold cong: if_cong)

text \<open>Reading content by hand is part of draining it.\<close>

lemma read_content_spec:
  "case read_content_bytes rd d s n of
     Inl e \<Rightarrow> discard_content rd d s = Inl FrameTruncated
   | Inr (bytes, d1, s1) \<Rightarrow> phase d1 = phase d
       \<and> take (unread d) (remaining s) = bytes @ take (unread d1) (remaining s1)
       \<and> map_source remaining (discard_content rd d1 s1) = map_source remaining (discard_content rd d s)"
proof (cases "\<exists>p. pending d = Some p \<and> chunk_length (pending_remaining p) n \<noteq> 0")
  case False
  then have "read_content_bytes rd d s n = Inr ([], d, s)" by (auto simp: read_content_bytes_def split: option.splits)
  then show ?thesis by simp
next
  case True
  then obtain p where p: "pending d = Some p" "chunk_length (pending_remaining p) n \<noteq> 0" by blast
  from content_chunk [OF p, of s] show ?thesis
  proof (elim disjE exE conjE)
    assume c: "read_content_bytes rd d s n = Inl FrameTruncated" "remaining s = []" "0 < unread d"
    then have "map_source remaining (discard_content rd d s) = Inl FrameTruncated"
      unfolding discard_content_spec using p(1) by (simp add: discarded_def)
    with c(1) show ?thesis by simp
  next
    fix chunk s'
    assume c: "read_content_bytes rd d s n = Inr (chunk, after_chunk d p chunk, s')" "length chunk \<le> unread d"
      "remaining s = chunk @ remaining s'"
    then have "take (unread d) (remaining s) = chunk @ take (unread (after_chunk d p chunk)) (remaining s')"
      using unread_after_chunk [OF p(1) c(2)] by simp
    moreover have "map_source remaining (discard_content rd (after_chunk d p chunk) s') = map_source remaining (discard_content rd d s)"
      unfolding discard_content_spec c(3) by (rule discarded_chunk [OF p(1) c(2)])
    ultimately show ?thesis using c(1) by (simp add: after_chunk_def)
  qed
qed

lemma drain_cong:
  assumes "map_source remaining (discard_content rd d1 s1) = map_source remaining (discard_content rd d s)"
  shows "map_source remaining (drain_pending rd sha d1 s1) = map_source remaining (drain_pending rd sha d s)"
proof -
  have "discard_content slice_read d1 (remaining s1) = discard_content slice_read d (remaining s)"
    using assms by (simp add: sim_discard_content)
  then have "drain_pending slice_read sha d1 (remaining s1) = drain_pending slice_read sha d (remaining s)"
    by (simp add: drain_pending_def)
  then show ?thesis by (simp add: sim_drain_pending)
qed

lemma read_yielded_spec:
  "case read_yielded_content rd sha d s n of
     Inl e \<Rightarrow> \<exists>e. drain_pending rd sha d s = Inl e
   | Inr (bytes, d', s') \<Rightarrow> phase d' = phase d
       \<and> take (unread d) (remaining s) = bytes @ take (unread d') (remaining s')
       \<and> map_source remaining (drain_pending rd sha d' s') = map_source remaining (drain_pending rd sha d s)"
proof (cases "read_content_bytes rd d s n")
  case (Inl e)
  with read_content_spec [of d s n] show ?thesis by (simp add: read_yielded_content_def drain_pending_def)
next
  case (Inr r)
  then obtain bytes d1 s1 where r: "read_content_bytes rd d s n = Inr (bytes, d1, s1)" by (cases r) auto
  with read_content_spec [of d s n] have spec: "phase d1 = phase d"
    "take (unread d) (remaining s) = bytes @ take (unread d1) (remaining s1)"
    "map_source remaining (drain_pending rd sha d1 s1) = map_source remaining (drain_pending rd sha d s)"
    by (auto intro: drain_cong)
  show ?thesis
  proof (cases "\<exists>p. pending d1 = Some p \<and> pending_remaining p = 0")
    case False
    with r spec show ?thesis by (auto simp: read_yielded_content_def split: option.splits)
  next
    case True
    then obtain p where p: "pending d1 = Some p" "pending_remaining p = 0" by blast
    then have drain: "drain_pending rd sha d1 s1 = finish_content rd sha d1 s1"
      by (simp add: drain_pending_def discard_content.simps [of rd d1])
    have yielded: "read_yielded_content rd sha d s n = rbind (finish_content rd sha d1 s1) (\<lambda>(_, d', s'). Inr (bytes, d', s'))"
      using p r by (simp add: read_yielded_content_def)
    show ?thesis
    proof (cases "finish_content rd sha d1 s1")
      case (Inl e)
      with spec(3) drain have "map_source remaining (drain_pending rd sha d s) = Inl e" by simp
      with Inl yielded show ?thesis by simp
    next
      case (Inr q)
      then obtain d' s' where q: "finish_content rd sha d1 s1 = Inr ((), d', s')" by (cases q) auto
      with p have d': "pending d' = None" "phase d' = phase d1"
        by (auto simp: finish_content_def read_frame_bytes_def rbind_Inr_iff split: if_splits)
      then have "drain_pending rd sha d' s' = Inr ((), d', s')"
        by (simp add: drain_pending_def discard_content.simps [of rd d'] finish_content_def)
      with q d' p spec drain yielded show ?thesis by (auto simp: unread_def)
    qed
  qed
qed

lemma consume_poisoned: "phase d = PhasePoisoned \<Longrightarrow> consume rd sha d s ns = ([], d, s)"
  by (induction ns) (simp_all add: consumer_read_def)

lemma consume_spec:
  assumes "phase d = PhaseOpen" and "consume rd sha d s ns = (bytes, d', s')"
  shows "(\<exists>rest. take (unread d) (remaining s) = bytes @ rest)
    \<and> (phase d' = PhasePoisoned \<and> (\<exists>e. drain_pending rd sha d s = Inl e)
      \<or> phase d' = PhaseOpen \<and> map_source remaining (drain_pending rd sha d' s') = map_source remaining (drain_pending rd sha d s))"
  using assms
proof (induction ns arbitrary: d s bytes)
  case (Cons n ns)
  show ?case
  proof (cases "read_yielded_content rd sha d s n")
    case (Inl e)
    with Cons.prems have "bytes = []" "phase d' = PhasePoisoned" by (auto simp: consumer_read_def consume_poisoned)
    with Inl read_yielded_spec [of sha d s n] show ?thesis by auto
  next
    case (Inr q)
    then obtain bs d1 s1 where q: "read_yielded_content rd sha d s n = Inr (bs, d1, s1)" by (cases q) auto
    with Cons.prems obtain rest where rest: "consume rd sha d1 s1 ns = (rest, d', s')" "bytes = bs @ rest"
      by (auto simp: consumer_read_def split: prod.splits)
    from q read_yielded_spec [of sha d s n] have spec: "phase d1 = phase d"
      "take (unread d) (remaining s) = bs @ take (unread d1) (remaining s1)"
      "map_source remaining (drain_pending rd sha d1 s1) = map_source remaining (drain_pending rd sha d s)" by simp_all
    from Cons.IH [OF _ rest(1)] spec(1) Cons.prems(1)
    have IH: "(\<exists>r. take (unread d1) (remaining s1) = rest @ r)
      \<and> (phase d' = PhasePoisoned \<and> (\<exists>e. drain_pending rd sha d1 s1 = Inl e)
        \<or> phase d' = PhaseOpen \<and> map_source remaining (drain_pending rd sha d' s') = map_source remaining (drain_pending rd sha d1 s1))"
      by simp
    have "\<exists>e. drain_pending rd sha d s = Inl e" if "drain_pending rd sha d1 s1 = Inl e" for e
      using spec(3) that by (metis map_source_Inl_iff)
    with IH spec(2,3) rest(2) show ?thesis by auto
  qed
qed simp

end

end
