(* ===== verification/Custody_Roundtrip.thy ===== *)
theory Custody_Roundtrip
  imports Custody_Decoder "HOL-Library.Sublist"
begin

text \<open>
  The decoder of the coverage frame against its specification: what the decoder reads from a slice is, record by record, what
  the specification writes, so that the decoder accepts exactly the frames of the entries that fit the budget, and
  encoding followed by decoding gives the entries back.
\<close>

section \<open>Parsing a slice\<close>

lemma slice_bytes_iff:
  "read_frame_bytes slice_read d t n = Inr (bytes, d', t') \<longleftrightarrow>
     t = bytes @ t' \<and> length bytes = n \<and> d' = d\<lparr>dec_frame := dec_frame d @ bytes\<rparr>"
  by (auto simp: read_frame_bytes_def slice_read_exactly)

lemma slice_u8_iff: "read_u8 slice_read d t = Inr (x, d', t') \<longleftrightarrow> t = x # t' \<and> d' = d\<lparr>dec_frame := dec_frame d @ [x]\<rparr>"
  by (auto simp: read_u8_def rbind_Inr_iff slice_bytes_iff length_Suc_conv)

lemma le_bytes_from: "length bs = k \<Longrightarrow> le_bytes k (from_le_bytes bs) = bs"
  by auto

lemma le_bytes_word:
  assumes "k = 2 \<and> LENGTH('a) = 16 \<or> k = 8 \<and> LENGTH('a) = 64"
  shows "length bs = k \<and> x = of_nat (from_le_bytes bs) \<longleftrightarrow> bs = le_bytes k (unat (x :: 'a::len word))"
proof
  assume l: "length bs = k \<and> x = of_nat (from_le_bytes bs)"
  with assms have "from_le_bytes bs < 2 ^ LENGTH('a)" using from_le_bytes_less [of bs] by auto
  with l have "unat x = from_le_bytes bs" by (simp add: unat_of_nat)
  with l show "bs = le_bytes k (unat x)" by (simp add: le_bytes_from)
next
  assume "bs = le_bytes k (unat x)"
  moreover have "(256 :: nat) ^ k = 2 ^ LENGTH('a)" using assms by auto
  then have "unat x < 256 ^ k" by (simp only: unsigned_less)
  ultimately show "length bs = k \<and> x = of_nat (from_le_bytes bs)" by simp
qed

lemma slice_u16_iff:
  "read_u16 slice_read d t = Inr (x, d', t') \<longleftrightarrow>
     t = le_bytes 2 (unat x) @ t' \<and> d' = d\<lparr>dec_frame := dec_frame d @ le_bytes 2 (unat x)\<rparr>"
proof -
  have "read_u16 slice_read d t = Inr (x, d', t') \<longleftrightarrow>
      (\<exists>bs. t = bs @ t' \<and> d' = d\<lparr>dec_frame := dec_frame d @ bs\<rparr> \<and> (length bs = 2 \<and> x = of_nat (from_le_bytes bs)))"
    by (auto simp: read_u16_def rbind_Inr_iff slice_bytes_iff)
  also have "\<dots> \<longleftrightarrow> t = le_bytes 2 (unat x) @ t' \<and> d' = d\<lparr>dec_frame := dec_frame d @ le_bytes 2 (unat x)\<rparr>"
    by (subst le_bytes_word) auto
  finally show ?thesis .
qed

lemma slice_u64_iff:
  "read_u64 slice_read d t = Inr (x, d', t') \<longleftrightarrow>
     t = le_bytes 8 (unat x) @ t' \<and> d' = d\<lparr>dec_frame := dec_frame d @ le_bytes 8 (unat x)\<rparr>"
proof -
  have "read_u64 slice_read d t = Inr (x, d', t') \<longleftrightarrow>
      (\<exists>bs. t = bs @ t' \<and> d' = d\<lparr>dec_frame := dec_frame d @ bs\<rparr> \<and> (length bs = 8 \<and> x = of_nat (from_le_bytes bs)))"
    by (auto simp: read_u64_def rbind_Inr_iff slice_bytes_iff)
  also have "\<dots> \<longleftrightarrow> t = le_bytes 8 (unat x) @ t' \<and> d' = d\<lparr>dec_frame := dec_frame d @ le_bytes 8 (unat x)\<rparr>"
    by (subst le_bytes_word) auto
  finally show ?thesis .
qed

text \<open>Admitting \<open>n\<close> more bytes of a frame that has room for them.\<close>

definition room :: "DecoderStateV1 \<Rightarrow> nat \<Rightarrow> bool" where
  "room d n \<longleftrightarrow> unat (admitted d) + n \<le> unat (dec_record_limit d)"

lemma dec_admit_iff: "dec_admit d n = Inr d' \<longleftrightarrow> room d (unat n) \<and> d' = d\<lparr>admitted := admitted d + n\<rparr>"
proof (cases "checked_add (admitted d) n")
  case None
  then show ?thesis using unat_u64_less [of "dec_record_limit d"] by (auto simp: dec_admit_def room_def checked_add_def split: if_splits)
next
  case (Some e)
  then have "unat e = unat (admitted d) + unat n" "e = admitted d + n"
    by (auto simp: checked_add_SomeD) (auto simp: checked_add_def split: if_splits)
  with Some show ?thesis by (auto simp: dec_admit_def room_def word_less_nat_alt)
qed

lemma room_after:
  assumes "room d (unat n)"
  shows "room (d\<lparr>admitted := admitted d + n\<rparr>) k \<longleftrightarrow> room d (unat n + k)"
  using assms unat_u64_less [of "dec_record_limit d"] by (auto simp: room_def unat_word_ariths)

lemma room_after_num:
  "unat n = k \<Longrightarrow> room d k \<Longrightarrow> room (d\<lparr>admitted := admitted d + n\<rparr>) j \<longleftrightarrow> room d (k + j)"
  using room_after [of d n j] by simp

lemma unat_of_room: "room d k \<Longrightarrow> unat (of_nat k :: u64) = k"
  using unat_u64_less [of "dec_record_limit d"] by (simp add: room_def unat_of_nat)

lemma path_from_bytes_iff: "path_from_bytes bytes = Inr p \<longleftrightarrow> valid_path p \<and> p = bytes"
  by (auto simp: valid_path_def path_from_bytes_def rbind_Inr_iff split: if_splits)

lemma unat_u16: "n < 65536 \<Longrightarrow> unat (of_nat n :: u16) = n" "n < 65536 \<Longrightarrow> unat (of_nat n :: u64) = n"
  by (simp_all add: unat_of_nat)

lemma ucast_u16: "(ucast (x :: u16) :: u64) = of_nat (unat x)" "unat (ucast (x :: u16) :: u64) = unat x"
  using unsigned_less [of x, where ?'a = nat] by (simp_all add: unsigned_ucast_eq take_bit_nat_eq_self_iff)

text \<open>Each read of a slice as a rule for what follows it.\<close>

lemma admit_bind: "rbind (dec_admit d n) k = Inr y \<longleftrightarrow> room d (unat n) \<and> k (d\<lparr>admitted := admitted d + n\<rparr>) = Inr y"
  by (simp only: rbind_Inr_iff dec_admit_iff) blast

lemma bytes_bind:
  "rbind (read_frame_bytes slice_read d t n) k = Inr y \<longleftrightarrow>
     n \<le> length t \<and> k (take n t, d\<lparr>dec_frame := dec_frame d @ take n t\<rparr>, drop n t) = Inr y"
  by (simp add: read_frame_bytes_def slice_read_exactly)

lemma u8_bind:
  "rbind (read_u8 slice_read d t) k = Inr y \<longleftrightarrow> (\<exists>x t'. t = x # t' \<and> k (x, d\<lparr>dec_frame := dec_frame d @ [x]\<rparr>, t') = Inr y)"
  by (simp only: rbind_Inr_iff split_paired_Ex slice_u8_iff) blast

lemma u16_bind:
  "rbind (read_u16 slice_read d t) k = Inr y \<longleftrightarrow>
     (\<exists>x t'. t = le_bytes 2 (unat x) @ t' \<and> k (x, d\<lparr>dec_frame := dec_frame d @ le_bytes 2 (unat x)\<rparr>, t') = Inr y)"
  by (simp only: rbind_Inr_iff split_paired_Ex slice_u16_iff) blast

lemma u64_bind:
  "rbind (read_u64 slice_read d t) k = Inr y \<longleftrightarrow>
     (\<exists>x t'. t = le_bytes 8 (unat x) @ t' \<and> k (x, d\<lparr>dec_frame := dec_frame d @ le_bytes 8 (unat x)\<rparr>, t') = Inr y)"
  by (simp only: rbind_Inr_iff split_paired_Ex slice_u64_iff) blast

lemmas slice_binds = admit_bind bytes_bind u8_bind u16_bind u64_bind

lemma if_Inl_iff: "(if c then Inl e else r) = Inr y \<longleftrightarrow> \<not> c \<and> r = Inr y"
  by simp

lemma room_frame [simp]: "room (d\<lparr>dec_frame := x\<rparr>) n = room d n" "room (d\<lparr>dec_order := ord\<rparr>) n = room d n"
  by (simp_all add: room_def)

lemma record_swap: "d\<lparr>admitted := a, dec_frame := x\<rparr> = d\<lparr>dec_frame := x, admitted := a\<rparr>"
  by simp

text \<open>A field with a two-byte length, as the generation, a path and a symlink target have it.\<close>

lemma short_field:
  "rbind (read_u16 slice_read d t) (\<lambda>(n, d, t). if \<not> ok (unat n) then Inl e
     else rbind (dec_admit d (ucast n)) (\<lambda>d. rbind (read_frame_bytes slice_read d t (unat n)) k)) = Inr y
   \<longleftrightarrow> (\<exists>b t'. t = le_bytes 2 (length b) @ b @ t' \<and> length b < 65536 \<and> ok (length b) \<and> room d (length b)
     \<and> k (b, d\<lparr>dec_frame := dec_frame d @ le_bytes 2 (length b) @ b, admitted := admitted d + of_nat (length b)\<rparr>, t') = Inr y)"
  (is "?l \<longleftrightarrow> ?r")
proof
  assume ?l
  then obtain x :: u16 and t1 where x: "t = le_bytes 2 (unat x) @ t1" "ok (unat x)" "room d (unat x)" "unat x \<le> length t1"
    "k (take (unat x) t1, d\<lparr>admitted := admitted d + ucast x, dec_frame := dec_frame d @ le_bytes 2 (unat x) @ take (unat x) t1\<rparr>,
      drop (unat x) t1) = Inr y"
    by (auto simp: slice_binds if_Inl_iff ucast_u16(2))
  define b t' where "b = take (unat x) t1" and "t' = drop (unat x) t1"
  then have b: "length b = unat x" "t1 = b @ t'" "take (unat x) t1 = b" "drop (unat x) t1 = t'" using x(4) by simp_all
  have "(ucast x :: u64) = of_nat (length b)" by (simp only: ucast_u16(1) b(1))
  with x(5) have "k (b, d\<lparr>dec_frame := dec_frame d @ le_bytes 2 (length b) @ b, admitted := admitted d + of_nat (length b)\<rparr>, t') = Inr y"
    by (simp only: b(1,3,4) record_swap)
  moreover have "unat x < 65536" using unsigned_less [of x, where ?'a = nat] by simp
  ultimately show ?r using x(1,2,3) b(1,2) by (intro exI [of _ b] exI [of _ t']) simp
next
  assume ?r
  then obtain b t' where b: "t = le_bytes 2 (length b) @ b @ t'" "length b < 65536" "ok (length b)" "room d (length b)"
    "k (b, d\<lparr>dec_frame := dec_frame d @ le_bytes 2 (length b) @ b, admitted := admitted d + of_nat (length b)\<rparr>, t') = Inr y" by blast
  define x where "x = (of_nat (length b) :: u16)"
  have x: "unat x = length b" using b(2) by (simp add: x_def unat_u16)
  have ux: "(ucast x :: u64) = of_nat (length b)" by (simp only: ucast_u16(1) x)
  have "room d (unat (of_nat (length b) :: u64))" using b(2,4) by (simp add: unat_u16)
  moreover have "read_u16 slice_read d t = Inr (x, d\<lparr>dec_frame := dec_frame d @ le_bytes 2 (length b)\<rparr>, b @ t')"
    by (simp add: slice_u16_iff x b(1))
  ultimately show ?l using b(3,5) x ux by (simp add: admit_bind bytes_bind record_swap)
qed

lemma slice_path_iff:
  "read_path slice_read d t = Inr (p, d', t') \<longleftrightarrow>
     valid_path p \<and> t = le_bytes 2 (length p) @ p @ t' \<and> room d (2 + length p)
     \<and> d' = d\<lparr>dec_frame := dec_frame d @ le_bytes 2 (length p) @ p, admitted := admitted d + of_nat (2 + length p)\<rparr>"
proof -
  have short: "valid_path p \<Longrightarrow> length p \<le> 4096" by (rule valid_path_short)
  show ?thesis
    unfolding read_path_def admit_bind short_field
    using room_after [of d 2] short
    by (auto simp: rbind_Inr_iff path_from_bytes_iff path_length_admitted_def MAX_PATH_BYTES_V1_def add.assoc room_def)
qed

text \<open>The parts of a record.\<close>

fun kind_tag :: "RecordKindV1 \<Rightarrow> u8" where
  "kind_tag KindDirectory = TAG_DIRECTORY_V1"
| "kind_tag KindRegular = TAG_REGULAR_V1"
| "kind_tag KindSymlink = TAG_SYMLINK_V1"

lemmas tag_defs = TAG_DIRECTORY_V1_def TAG_REGULAR_V1_def TAG_SYMLINK_V1_def TAG_TRAILER_V1_def

lemma record_kind_iff: "record_kind tag = Inr kind \<longleftrightarrow> tag = kind_tag kind"
  by (cases kind) (auto simp: record_kind_def tag_defs)

lemma kind_tag_not_trailer: "kind_tag kind \<noteq> TAG_TRAILER_V1"
  by (cases kind) (simp_all add: tag_defs)

lemma read_path_bind:
  "rbind (read_path slice_read d t) k = Inr y \<longleftrightarrow>
     (\<exists>p t'. valid_path p \<and> t = le_bytes 2 (length p) @ p @ t' \<and> room d (2 + length p)
       \<and> k (p, d\<lparr>dec_frame := dec_frame d @ le_bytes 2 (length p) @ p, admitted := admitted d + of_nat (2 + length p)\<rparr>, t') = Inr y)"
  by (simp only: rbind_Inr_iff split_paired_Ex slice_path_iff) blast

definition after_prefix :: "DecoderStateV1 \<Rightarrow> u8 \<Rightarrow> u8 list \<Rightarrow> CanonicalOrderV1 \<Rightarrow> DecoderStateV1" where
  "after_prefix d tag path ord =
     d\<lparr>dec_frame := dec_frame d @ prefix_bytes tag path, admitted := admitted d + of_nat (3 + length path), dec_order := ord\<rparr>"

lemma after_prefix_room:
  "room d (1 :: nat) \<and> room (d\<lparr>dec_frame := x, admitted := admitted d + 1\<rparr>) (2 + n) \<longleftrightarrow> room d (3 + n)"
proof -
  have "unat (admitted d + 1) = unat (admitted d) + 1" if "room d 1"
    using that unat_u64_less [of "dec_record_limit d"] by (simp add: room_def unat_word_ariths)
  then show ?thesis by (auto simp: room_def)
qed

lemma tagged_iff:
  "tagged_record slice_read sha d t = Inr (Some r, d1, t1) \<longleftrightarrow>
     (\<exists>kind path ord t2 d3. t = prefix_bytes (kind_tag kind) path @ t2 \<and> valid_path path
        \<and> dec_entries d < max_entries (dec_budget d) \<and> room d (3 + length path)
        \<and> order_admit (dec_order d) path (kind = KindDirectory) = Inr ord
        \<and> read_body slice_read (after_prefix d (kind_tag kind) path ord) t2 kind path = Inr (r, d3, t1)
        \<and> d1 = d3\<lparr>dec_entries := dec_entries d3 + 1\<rparr>)"
proof -
  have split_if_trailer: "(if c then rbind (read_trailer slice_read sha x y) (\<lambda>(_, d, t). Inr (None, d, t)) else q) = Inr (Some r, d1, t1)
      \<longleftrightarrow> \<not> c \<and> q = Inr (Some r, d1, t1)" for c x y q
    by (cases "read_trailer slice_read sha x y") auto
  have state: "d\<lparr>dec_frame := dec_frame d @ [tag], admitted := admitted d + 1, dec_frame := (dec_frame d @ [tag]) @ le_bytes 2 (length p) @ p,
      admitted := (admitted d + 1) + of_nat (2 + length p), dec_order := ord\<rparr> = after_prefix d tag p ord" for tag p ord
    by (simp add: after_prefix_def)
  have "tagged_record slice_read sha d t = Inr (Some r, d1, t1) \<longleftrightarrow>
     (\<exists>tag t0. t = tag # t0 \<and> tag \<noteq> TAG_TRAILER_V1 \<and> (\<exists>kind. record_kind tag = Inr kind
        \<and> dec_entries d < max_entries (dec_budget d) \<and> room d 1
        \<and> (\<exists>path t2. valid_path path \<and> t0 = le_bytes 2 (length path) @ path @ t2
          \<and> room (d\<lparr>dec_frame := dec_frame d @ [tag], admitted := admitted d + 1\<rparr>) (2 + length path)
          \<and> (\<exists>ord. order_admit (dec_order d) path (kind = KindDirectory) = Inr ord
            \<and> (\<exists>d3. read_body slice_read (after_prefix d tag path ord) t2 kind path = Inr (r, d3, t1)
                \<and> d1 = d3\<lparr>dec_entries := dec_entries d3 + 1\<rparr>)))))"
    unfolding tagged_record_def u8_bind case_prod_conv split_if_trailer rbind_Inr_iff [of "record_kind _"] if_Inl_iff not_le
      admit_bind read_path_bind rbind_Inr_iff [of "order_admit _ _ _"] rbind_Inr_iff [of "read_body _ _ _ _ _"] split_paired_Ex
    by (simp add: state [simplified] eq_commute [of d1])
  also have "\<dots> \<longleftrightarrow> (\<exists>kind path ord t2 d3. t = prefix_bytes (kind_tag kind) path @ t2 \<and> valid_path path
        \<and> dec_entries d < max_entries (dec_budget d) \<and> room d (3 + length path)
        \<and> order_admit (dec_order d) path (kind = KindDirectory) = Inr ord
        \<and> read_body slice_read (after_prefix d (kind_tag kind) path ord) t2 kind path = Inr (r, d3, t1)
        \<and> d1 = d3\<lparr>dec_entries := dec_entries d3 + 1\<rparr>)"
  proof -
    have room: "room d (3 + n) \<longleftrightarrow> room d 1 \<and> room (d\<lparr>dec_frame := dec_frame d @ [tag], admitted := admitted d + 1\<rparr>) (2 + n)" for tag n
      using after_prefix_room by blast
    have pre: "prefix_bytes tag path @ t2 = tag # le_bytes 2 (length path) @ path @ t2" for tag path t2 by simp
    show ?thesis unfolding record_kind_iff pre
      apply (rule iffI)
       apply (elim exE conjE)
       subgoal for tag t0 kind path t2 ord d3
         by (rule exI [of _ kind], rule exI [of _ path], rule exI [of _ ord], rule exI [of _ t2], rule exI [of _ d3])
           (simp add: room [of _ "kind_tag kind"])
      apply (elim exE conjE)
      subgoal for kind path ord t2 d3
        by (rule exI [of _ "kind_tag kind"], rule exI [of _ "le_bytes 2 (length path) @ path @ t2"], intro conjI,
            assumption, rule kind_tag_not_trailer, rule exI [of _ kind], intro conjI, rule refl, assumption,
            simp add: room [of _ "kind_tag kind"], rule exI [of _ path], rule exI [of _ t2], intro conjI, assumption, rule refl,
            simp add: room [of _ "kind_tag kind"], rule exI [of _ ord], intro conjI, assumption,
            rule exI [of _ d3], intro conjI)
      done
  qed
  finally show ?thesis .
qed

lemma mode_bind:
  "rbind (read_u16 slice_read d t) (\<lambda>(m, d, t). rbind (decode_mode m) (\<lambda>mode. k mode d t)) = Inr y \<longleftrightarrow>
     (\<exists>mode t'. is_ok (encode_mode mode) \<and> t = le_bytes 2 (unat mode) @ t'
        \<and> k mode (d\<lparr>dec_frame := dec_frame d @ le_bytes 2 (unat mode)\<rparr>) t' = Inr y)"
  (is "?l \<longleftrightarrow> ?r")
proof
  assume ?l
  then obtain x t' mode where x: "t = le_bytes 2 (unat x) @ t'" "encode_mode mode = Inr x"
    "k mode (d\<lparr>dec_frame := dec_frame d @ le_bytes 2 (unat x)\<rparr>) t' = Inr y"
    unfolding u16_bind case_prod_conv rbind_Inr_iff [of "decode_mode _"] decode_mode_iff by (elim exE conjE)
  have "unat x = unat mode" using x(2) by (rule encode_mode_unat)
  with x show ?r by (intro exI [of _ mode] exI [of _ t']) simp
next
  assume ?r
  then obtain mode t' where m: "is_ok (encode_mode mode)" "t = le_bytes 2 (unat mode) @ t'"
    "k mode (d\<lparr>dec_frame := dec_frame d @ le_bytes 2 (unat mode)\<rparr>) t' = Inr y" by (elim exE conjE)
  from m(1) obtain x where x: "encode_mode mode = Inr x" by (cases "encode_mode mode") auto
  have "unat x = unat mode" using x by (rule encode_mode_unat)
  with m x show ?l
    unfolding u16_bind case_prod_conv rbind_Inr_iff [of "decode_mode _"] decode_mode_iff
    by (intro exI [of _ x] exI [of _ t'] conjI exI [of _ mode]) simp_all
qed

lemma slice_directory_iff:
  "read_body slice_read d t KindDirectory path = Inr (r, d', t') \<longleftrightarrow>
     (\<exists>mode. is_ok (encode_mode mode) \<and> r = RecordDirectory path mode \<and> t = le_bytes 2 (unat mode) @ t' \<and> room d 2
       \<and> d' = d\<lparr>dec_frame := dec_frame d @ le_bytes 2 (unat mode), admitted := admitted d + 2\<rparr>)"
  unfolding read_body.simps admit_bind mode_bind by auto

lemma slice_symlink_iff:
  "read_body slice_read d t KindSymlink path = Inr (r, d', t') \<longleftrightarrow>
     (\<exists>target. validate_symlink_target target = Inr () \<and> r = RecordSymlink path target
       \<and> t = le_bytes 2 (length target) @ target @ t' \<and> room d (2 + length target)
       \<and> d' = d\<lparr>dec_frame := dec_frame d @ le_bytes 2 (length target) @ target,
               admitted := admitted d + of_nat (2 + length target)\<rparr>)"
proof -
  have short: "length target < 65536 \<and> symlink_target_length_admitted (length target)"
    if "validate_symlink_target target = Inr ()" for target
    using that by (auto simp: validate_symlink_target_def symlink_target_length_admitted_def MAX_SYMLINK_TARGET_BYTES_V1_def split: if_splits)
  have "room (d\<lparr>admitted := admitted d + 2\<rparr>) n \<longleftrightarrow> room d (2 + n)" if "room d 2" for n using room_after [of d 2 n] that by simp
  moreover have "room d 2" if "room d (2 + n)" for n using that by (simp add: room_def)
  ultimately have room: "room d 2 \<and> room (d\<lparr>admitted := admitted d + 2\<rparr>) n \<longleftrightarrow> room d (2 + n)" for n by blast
  have "read_body slice_read d t KindSymlink path = Inr (r, d', t') \<longleftrightarrow>
     (\<exists>target t1. t = le_bytes 2 (length target) @ target @ t1 \<and> length target < 65536 \<and> symlink_target_length_admitted (length target)
        \<and> (room d 2 \<and> room (d\<lparr>admitted := admitted d + 2\<rparr>) (length target)) \<and> validate_symlink_target target = Inr ()
        \<and> r = RecordSymlink path target \<and> t' = t1
        \<and> d' = d\<lparr>dec_frame := dec_frame d @ le_bytes 2 (length target) @ target, admitted := admitted d + of_nat (2 + length target)\<rparr>)"
    unfolding read_body.simps admit_bind short_field by (auto simp: rbind_Inr_iff add.assoc)
  then show ?thesis unfolding room using short by blast
qed

lemma slice_regular_iff:
  "read_body slice_read d t KindRegular path = Inr (r, d', t') \<longleftrightarrow>
     (\<exists>mode n. is_ok (encode_mode mode) \<and> r = RecordRegular path mode n \<and> t = le_bytes 2 (unat mode) @ le_bytes 8 (unat n) @ t'
       \<and> room d (42 + unat n) \<and> unat (dec_content_bytes d) + unat n < 2 ^ 64
       \<and> d' = d\<lparr>dec_frame := dec_frame d @ le_bytes 2 (unat mode) @ le_bytes 8 (unat n), admitted := admitted d + (42 + n),
               dec_content_bytes := dec_content_bytes d + n, pending := Some \<lparr>pending_remaining = n, pending_content = []\<rparr>\<rparr>)"
proof -
  have room: "room d 10 \<and> unat n + 32 < 2 ^ 64 \<and> room (d\<lparr>admitted := admitted d + 10\<rparr>) (unat (n + 32)) \<longleftrightarrow> room d (42 + unat n)" for n :: u64
  proof (cases "room d 10 \<and> unat n + 32 < 2 ^ 64")
    case True
    then have "unat (n + 32) = unat n + 32" by (simp add: unat_word_ariths)
    moreover have "room (d\<lparr>admitted := admitted d + 10\<rparr>) (unat n + 32) \<longleftrightarrow> room d (10 + (unat n + 32))"
      using True by (intro room_after_num) simp_all
    ultimately show ?thesis using True by (simp add: add.commute)
  next
    case False
    then show ?thesis using unat_u64_less [of "dec_record_limit d"] by (auto simp: room_def)
  qed
  have u10: "unat (2 + 8 :: u64) = 10" and u32: "unat (32 :: u64) = 32" by simp_all
  have add: "(case checked_add a n of None \<Rightarrow> Inl e | Some z \<Rightarrow> k z) = Inr y \<longleftrightarrow> unat a + unat n < 2 ^ 64 \<and> k (a + n) = Inr y"
    for a n :: u64 and e k and y :: "RecordV1 \<times> DecoderStateV1 \<times> u8 list"
    by (simp add: checked_add_def)
  have "read_body slice_read d t KindRegular path = Inr (r, d', t') \<longleftrightarrow>
     (\<exists>mode t1. is_ok (encode_mode mode) \<and> t = le_bytes 2 (unat mode) @ t1
       \<and> (\<exists>n. t1 = le_bytes 8 (unat n) @ t' \<and> (room d 10 \<and> unat n + 32 < 2 ^ 64 \<and> room (d\<lparr>admitted := admitted d + 10\<rparr>) (unat (n + 32)))
         \<and> unat (dec_content_bytes d) + unat n < 2 ^ 64 \<and> r = RecordRegular path mode n
         \<and> d' = d\<lparr>dec_frame := dec_frame d @ le_bytes 2 (unat mode) @ le_bytes 8 (unat n), admitted := admitted d + (42 + n),
               dec_content_bytes := dec_content_bytes d + n, pending := Some \<lparr>pending_remaining = n, pending_content = []\<rparr>\<rparr>))"
    unfolding read_body.simps admit_bind mode_bind u64_bind case_prod_conv add u10 u32
    by (auto simp: admit_bind add u10 u32 algebra_simps)
  then show ?thesis unfolding room by blast
qed

text \<open>The content of a regular file with its digest, read or skipped.\<close>

lemma slice_drain_none: "pending d = None \<Longrightarrow> drain_pending slice_read sha d t = Inr ((), d, t)"
  by (simp add: drain_pending_def discard_content.simps [of slice_read d] finish_content_def)

lemma slice_drain_iff:
  assumes "digest32 sha" and "pending d = Some \<lparr>pending_remaining = n, pending_content = []\<rparr>"
  shows "drain_pending slice_read sha d t = Inr ((), d', t') \<longleftrightarrow>
    (\<exists>c. length c = unat n \<and> t = c @ sha c @ t' \<and> d' = d\<lparr>pending := None, dec_frame := dec_frame d @ c @ sha c\<rparr>)"
  (is "?l \<longleftrightarrow> ?r")
proof -
  have unread: "unread d = unat n" using assms(2) by (simp add: unread_def)
  have discard: "discard_content slice_read d t =
      (if unat n \<le> length t then Inr ((), d\<lparr>pending := Some \<lparr>pending_remaining = 0, pending_content = take (unat n) t\<rparr>,
        dec_frame := dec_frame d @ take (unat n) t\<rparr>, drop (unat n) t) else Inl FrameTruncated)"
    using slice.discard_content_spec [of d t] assms(2) unread by (simp add: discarded_def)
  have drain: "drain_pending slice_read sha d t = Inr ((), d', t') \<longleftrightarrow>
      unat n \<le> length t \<and> drop (unat n) t = sha (take (unat n) t) @ t'
      \<and> d' = d\<lparr>pending := None, dec_frame := dec_frame d @ take (unat n) t @ sha (take (unat n) t)\<rparr>"
    using assms(1)
    by (auto simp: drain_pending_def discard finish_content_def rbind_Inr_iff slice_bytes_iff if_Inl_iff digest32_def)
  show ?thesis unfolding drain
  proof
    assume l: "unat n \<le> length t \<and> drop (unat n) t = sha (take (unat n) t) @ t'
      \<and> d' = d\<lparr>pending := None, dec_frame := dec_frame d @ take (unat n) t @ sha (take (unat n) t)\<rparr>"
    have "t = take (unat n) t @ drop (unat n) t" by (rule append_take_drop_id [symmetric])
    with l show ?r by (intro exI [of _ "take (unat n) t"]) simp
  next
    assume ?r
    then obtain c where "length c = unat n" "t = c @ sha c @ t'" "d' = d\<lparr>pending := None, dec_frame := dec_frame d @ c @ sha c\<rparr>"
      by (elim exE conjE)
    then show "unat n \<le> length t \<and> drop (unat n) t = sha (take (unat n) t) @ t'
      \<and> d' = d\<lparr>pending := None, dec_frame := dec_frame d @ take (unat n) t @ sha (take (unat n) t)\<rparr>" by simp
  qed
qed

lemma slice_trailer_iff:
  assumes "digest32 sha"
  shows "read_trailer slice_read sha d t = Inr (u, d', t') \<longleftrightarrow>
    (let f = dec_frame d @ le_bytes 8 (unat (dec_entries d)) @ le_bytes 8 (unat (dec_content_bytes d)) in
     t = le_bytes 8 (unat (dec_entries d)) @ le_bytes 8 (unat (dec_content_bytes d)) @ sha f \<and> t' = []
     \<and> d' = d\<lparr>dec_frame := f, phase := PhaseComplete\<rparr>)"
proof -
  have probe: "rbind (read_some slice_read t 1) (\<lambda>(x, s). if x \<noteq> [] then Inl e else Inr (a, d, s)) = Inr y \<longleftrightarrow> t = [] \<and> y = (a, d, [])"
    for t e a d and y :: "unit \<times> DecoderStateV1 \<times> u8 list"
    using slice.probe_spec [of t] by (auto split: if_splits)
  have exact: "rbind (read_exactly slice_read t n) k = Inr y \<longleftrightarrow> n \<le> length t \<and> k (take n t, drop n t) = Inr y"
    for t n k and y :: "unit \<times> DecoderStateV1 \<times> u8 list" by (simp add: slice_read_exactly)
  have "length (sha m) = 32" for m using assms by (simp add: digest32_def)
  then have digest: "32 \<le> length t \<and> take 32 t = sha m \<and> drop 32 t = [] \<longleftrightarrow> t = sha m" for t :: "u8 list" and m
    by (metis append_Nil2 append_take_drop_id append_eq_conv_conj order_refl)
  have "read_trailer slice_read sha d t = Inr (u, d', t') \<longleftrightarrow>
     (\<exists>t2. t = le_bytes 8 (unat (dec_entries d)) @ le_bytes 8 (unat (dec_content_bytes d)) @ t2
       \<and> (32 \<le> length t2 \<and> take 32 t2 = sha (dec_frame d @ le_bytes 8 (unat (dec_entries d)) @ le_bytes 8 (unat (dec_content_bytes d)))
         \<and> drop 32 t2 = [])
       \<and> t' = [] \<and> d' = d\<lparr>dec_frame := dec_frame d @ le_bytes 8 (unat (dec_entries d)) @ le_bytes 8 (unat (dec_content_bytes d)),
           phase := PhaseComplete\<rparr>)"
    unfolding read_trailer_def u64_bind case_prod_conv Let_def exact if_Inl_iff probe by auto
  then show ?thesis unfolding digest Let_def by blast
qed

lemma class_from_code_iff: "class_from_code code = Inr cls \<longleftrightarrow> class_code cls = Inr code"
  by (cases cls) (auto simp: class_from_code_def)

lemma magic_iff: "t = MAGIC_V1 @ r \<longleftrightarrow> 8 \<le> length t \<and> take 8 t = MAGIC_V1 \<and> drop 8 t = r"
proof
  assume "8 \<le> length t \<and> take 8 t = MAGIC_V1 \<and> drop 8 t = r"
  then show "t = MAGIC_V1 @ r" by (metis append_take_drop_id)
qed (auto simp: MAGIC_V1_def)

lemma slice_header_iff:
  assumes "header_valid h"
  shows "read_header slice_read d t h = Inr (u, d', t') \<longleftrightarrow>
    t = header_bytes h @ t' \<and> room d (length (header_bytes h))
    \<and> d' = d\<lparr>dec_frame := dec_frame d @ header_bytes h, admitted := admitted d + of_nat (length (header_bytes h))\<rparr>"
proof -
  let ?g = "generation_id h" and ?d = "d\<lparr>admitted := admitted d + HEADER_FIXED_BYTES_V1\<rparr>"
  have code: "class_code (header_class h) = Inr (header_code h)" and gen: "generation_length_admitted (length ?g)"
    and utf8: "utf8_valid ?g"
    using assms by (cases h, auto simp: header_valid_def header_new_def rbind_Inr_iff split: if_splits)+
  then have short: "length ?g < 65536" by (simp add: generation_length_admitted_def MAX_GENERATION_BYTES_V1_def)
  have u12: "unat HEADER_FIXED_BYTES_V1 = 12" by (simp add: HEADER_FIXED_BYTES_V1_def)
  have room: "room d 12 \<and> room ?d n \<longleftrightarrow> room d (12 + n)" for n
    using room_after_num [OF u12, of d n] by (auto simp: room_def)
  have "read_header slice_read d t h = Inr (u, d', t') \<longleftrightarrow>
      t = MAGIC_V1 @ [VERSION_V1, header_code h] @ le_bytes 2 (length ?g) @ ?g @ t' \<and> (room d 12 \<and> room ?d (length ?g))
      \<and> d' = d\<lparr>dec_frame := dec_frame d @ MAGIC_V1 @ [VERSION_V1, header_code h] @ le_bytes 2 (length ?g) @ ?g,
              admitted := admitted d + HEADER_FIXED_BYTES_V1 + of_nat (length ?g)\<rparr>"
    unfolding read_header_def admit_bind bytes_bind case_prod_conv u12 if_Inl_iff not_not u8_bind
      rbind_Inr_iff [of "class_from_code _"] class_from_code_iff short_field magic_iff
    using code gen utf8 short by auto
  moreover have "admitted d + HEADER_FIXED_BYTES_V1 + of_nat (length ?g) = admitted d + of_nat (12 + length ?g)"
    by (simp add: HEADER_FIXED_BYTES_V1_def)
  ultimately show ?thesis unfolding room length_header_bytes by (simp add: header_bytes_def)
qed

section \<open>One record\<close>

fun record_of :: "FrameEntry \<Rightarrow> RecordV1" where
  "record_of (FrameDirectory path mode) = RecordDirectory path mode"
| "record_of (FrameRegular path mode content) = RecordRegular path mode (of_nat (length content))"
| "record_of (FrameSymlink path target) = RecordSymlink path target"

fun entry_kind :: "FrameEntry \<Rightarrow> RecordKindV1" where
  "entry_kind (FrameDirectory _ _) = KindDirectory"
| "entry_kind (FrameRegular _ _ _) = KindRegular"
| "entry_kind (FrameSymlink _ _) = KindSymlink"

fun entry_body :: "(u8 list \<Rightarrow> u8 list) \<Rightarrow> FrameEntry \<Rightarrow> u8 list" where
  "entry_body sha (FrameDirectory path mode) = le_bytes 2 (unat mode)"
| "entry_body sha (FrameRegular path mode content) = le_bytes 2 (unat mode) @ le_bytes 8 (length content) @ content @ sha content"
| "entry_body sha (FrameSymlink path target) = le_bytes 2 (length target) @ target"

lemma entry_bytes_split: "entry_bytes sha e = prefix_bytes (kind_tag (entry_kind e)) (entry_path e) @ entry_body sha e"
  by (cases e) simp_all

lemma entry_kind_directory: "entry_kind e = KindDirectory \<longleftrightarrow> entry_is_directory e"
  by (cases e) simp_all

definition after_body :: "(u8 list \<Rightarrow> u8 list) \<Rightarrow> DecoderStateV1 \<Rightarrow> FrameEntry \<Rightarrow> DecoderStateV1" where
  "after_body sha d e =
     d\<lparr>dec_frame := dec_frame d @ entry_body sha e, admitted := admitted d + of_nat (length (entry_body sha e)),
       dec_content_bytes := dec_content_bytes d + of_nat (length (entry_content e)), dec_entries := dec_entries d + 1\<rparr>"

text \<open>What the decoder reads after a prefix is the body of one valid entry; its content is there for the consumer.\<close>

definition body_step ::
  "(u8 list \<Rightarrow> u8 list) \<Rightarrow> DecoderStateV1 \<Rightarrow> u8 list \<Rightarrow> RecordKindV1 \<Rightarrow> u8 list \<Rightarrow> RecordV1 \<Rightarrow> u8 list \<Rightarrow> DecoderStateV1 \<Rightarrow> u8 list \<Rightarrow> bool" where
  "body_step sha d t kind path r c d2 t2 \<longleftrightarrow>
     (\<exists>d1 t1. read_body slice_read d t kind path = Inr (r, d1, t1)
       \<and> drain_pending slice_read sha (d1\<lparr>dec_entries := dec_entries d1 + 1\<rparr>) t1 = Inr ((), d2, t2) \<and> take (unread d1) t1 = c)"

lemma body_step_directory:
  assumes "pending d = None"
  shows "body_step sha d t KindDirectory path r c d2 t2 \<longleftrightarrow>
    (\<exists>mode. is_ok (encode_mode mode) \<and> r = RecordDirectory path mode \<and> c = [] \<and> t = le_bytes 2 (unat mode) @ t2 \<and> room d 2
      \<and> d2 = after_body sha d (FrameDirectory path mode))"
  using assms unfolding body_step_def slice_directory_iff
  by (auto simp: after_body_def slice_drain_none unread_def)

lemma body_step_symlink:
  assumes "pending d = None"
  shows "body_step sha d t KindSymlink path r c d2 t2 \<longleftrightarrow>
    (\<exists>target. validate_symlink_target target = Inr () \<and> r = RecordSymlink path target \<and> c = []
      \<and> t = le_bytes 2 (length target) @ target @ t2 \<and> room d (2 + length target)
      \<and> d2 = after_body sha d (FrameSymlink path target))"
  using assms unfolding body_step_def slice_symlink_iff
  by (auto simp: after_body_def slice_drain_none unread_def)

lemma body_step_regular:
  assumes "digest32 sha" and "pending d = None"
  shows "body_step sha d t KindRegular path r c d2 t2 \<longleftrightarrow>
    (\<exists>mode. is_ok (encode_mode mode) \<and> r = RecordRegular path mode (of_nat (length c))
      \<and> t = le_bytes 2 (unat mode) @ le_bytes 8 (length c) @ c @ sha c @ t2 \<and> room d (42 + length c)
      \<and> unat (dec_content_bytes d) + length c < 2 ^ 64 \<and> d2 = after_body sha d (FrameRegular path mode c))"
  (is "?l \<longleftrightarrow> ?r")
proof
  define d1 where "d1 mode n = d\<lparr>dec_frame := dec_frame d @ le_bytes 2 (unat mode) @ le_bytes 8 (unat n), admitted := admitted d + (42 + n),
      dec_content_bytes := dec_content_bytes d + n, pending := Some \<lparr>pending_remaining = n, pending_content = []\<rparr>\<rparr>" for mode :: u32 and n :: u64
  assume ?l
  then obtain mode n t1 where m: "is_ok (encode_mode mode)" "r = RecordRegular path mode n"
    "t = le_bytes 2 (unat mode) @ le_bytes 8 (unat n) @ t1" "room d (42 + unat n)" "unat (dec_content_bytes d) + unat n < 2 ^ 64"
    "drain_pending slice_read sha ((d1 mode n)\<lparr>dec_entries := dec_entries (d1 mode n) + 1\<rparr>) t1 = Inr ((), d2, t2)"
    "take (unread (d1 mode n)) t1 = c"
    unfolding body_step_def slice_regular_iff d1_def by (elim exE conjE) blast
  from m(6) obtain c' where c': "length c' = unat n" "t1 = c' @ sha c' @ t2"
    "d2 = (d1 mode n)\<lparr>dec_entries := dec_entries (d1 mode n) + 1, pending := None, dec_frame := dec_frame (d1 mode n) @ c' @ sha c'\<rparr>"
    by (subst (asm) slice_drain_iff [OF assms(1), of _ n]) (auto simp: d1_def)
  have "c' = c" using m(7) c'(1,2) by (simp add: unread_def d1_def)
  moreover have "n = of_nat (length c')" using c'(1) by simp
  moreover have "length (sha c') = 32" using assms(1) by (simp add: digest32_def)
  ultimately show ?r using m(1-5) c' assms(2) by (intro exI [of _ mode]) (simp add: d1_def after_body_def ac_simps)
next
  assume ?r
  then obtain mode where m: "is_ok (encode_mode mode)" "r = RecordRegular path mode (of_nat (length c))"
      "t = le_bytes 2 (unat mode) @ le_bytes 8 (length c) @ c @ sha c @ t2" "room d (42 + length c)"
      "unat (dec_content_bytes d) + length c < 2 ^ 64" "d2 = after_body sha d (FrameRegular path mode c)" by (elim exE conjE)
  define n where "n = (of_nat (length c) :: u64)"
  have n: "unat n = length c" using m(5) by (simp add: n_def unat_of_nat)
  have sha: "length (sha c) = 32" using assms(1) by (simp add: digest32_def)
  define d1 where "d1 = d\<lparr>dec_frame := dec_frame d @ le_bytes 2 (unat mode) @ le_bytes 8 (unat n), admitted := admitted d + (42 + n),
      dec_content_bytes := dec_content_bytes d + n, pending := Some \<lparr>pending_remaining = n, pending_content = []\<rparr>\<rparr>"
  have "read_body slice_read d t KindRegular path = Inr (r, d1, c @ sha c @ t2)"
    unfolding slice_regular_iff using m(1-5) n by (intro exI [of _ mode] exI [of _ n]) (simp add: d1_def n_def)
  moreover have pd: "pending (d1\<lparr>dec_entries := dec_entries d1 + 1\<rparr>) = Some \<lparr>pending_remaining = n, pending_content = []\<rparr>"
    by (simp add: d1_def)
  have "drain_pending slice_read sha (d1\<lparr>dec_entries := dec_entries d1 + 1\<rparr>) (c @ sha c @ t2) = Inr ((), d2, t2)"
    unfolding slice_drain_iff [OF assms(1) pd] using m(6) n sha assms(2)
    by (intro exI [of _ c]) (simp add: d1_def after_body_def n_def ac_simps)
  moreover have "take (unread d1) (c @ sha c @ t2) = c" using n by (simp add: d1_def unread_def)
  ultimately show ?l unfolding body_step_def by (intro exI conjI)
qed

lemma body_step_iff:
  assumes "digest32 sha" and "pending d = None"
  shows "valid_path path \<and> body_step sha d t kind path r c d2 t2 \<longleftrightarrow>
    (\<exists>e. entry_kind e = kind \<and> entry_path e = path \<and> entry_valid e \<and> r = record_of e \<and> c = entry_content e
      \<and> t = entry_body sha e @ t2 \<and> room d (length (entry_body sha e))
      \<and> unat (dec_content_bytes d) + length (entry_content e) < 2 ^ 64 \<and> d2 = after_body sha d e)"
proof -
  have sha: "length (sha m) = 32" for m using assms(1) by (simp add: digest32_def)
  have unit: "is_ok (validate_symlink_target target) \<longleftrightarrow> validate_symlink_target target = Inr ()" for target
    by (cases "validate_symlink_target target") auto
  have ex: "(\<exists>e. P e) \<longleftrightarrow> (\<exists>p m. P (FrameDirectory p m)) \<or> (\<exists>p m x. P (FrameRegular p m x)) \<or> (\<exists>p x. P (FrameSymlink p x))" for P
    by (metis FrameEntry.exhaust)
  have small: "unat (dec_content_bytes d) < 2 ^ 64" using unat_u64_less by simp
  show ?thesis
  proof (cases kind)
    case KindDirectory
    show ?thesis unfolding KindDirectory body_step_directory [OF assms(2)] ex using small by auto
  next
    case KindRegular
    show ?thesis unfolding KindRegular body_step_regular [OF assms] ex by (auto simp: sha)
  next
    case KindSymlink
    show ?thesis unfolding KindSymlink body_step_symlink [OF assms(2)] ex using small by (auto simp: unit)
  qed
qed

text \<open>The decoder between two entries is a function of the entries it has read.\<close>

definition boundary :: "(u8 list \<Rightarrow> u8 list) \<Rightarrow> CustodyFrameHeaderV1 \<Rightarrow> CustodyFrameBudgetV1 \<Rightarrow> FrameEntry list \<Rightarrow> DecoderStateV1" where
  "boundary sha h b es =
     \<lparr>dec_budget = b, dec_record_limit = max_frame_bytes b - TRAILER_BYTES_V1, admitted = of_nat (length (entries_bytes sha h es)),
      dec_frame = entries_bytes sha h es,
      dec_order = (case admit_all order_default (map entry_key es) of Inl _ \<Rightarrow> order_default | Inr ord \<Rightarrow> ord),
      dec_entries = of_nat (length es), dec_content_bytes = of_nat (content_total es), pending = None, phase = PhaseOpen\<rparr>"

lemma boundary_simps [simp]:
  "dec_budget (boundary sha h b es) = b" "dec_frame (boundary sha h b es) = entries_bytes sha h es"
  "pending (boundary sha h b es) = None" "phase (boundary sha h b es) = PhaseOpen"
  by (simp_all add: boundary_def)

lemma boundary_exact:
  assumes "digest32 sha" and "frame_ok sha b h es"
  shows "unat (dec_entries (boundary sha h b es)) = length es"
    and "unat (dec_content_bytes (boundary sha h b es)) = content_total es"
    and "admit_all order_default (map entry_key es) = Inr (dec_order (boundary sha h b es))"
    and "room (boundary sha h b es) n \<longleftrightarrow> length (entries_bytes sha h es) + n + 49 \<le> unat (max_frame_bytes b)"
proof -
  let ?n = "length (entries_bytes sha h es)"
  have fits: "?n + 49 \<le> unat (max_frame_bytes b)" "length es \<le> unat (max_entries b)" "is_ok (admit_all order_default (map entry_key es))"
    using assms length_frame_of [OF assms(1), of h es] by (auto simp: frame_ok_def)
  then show "admit_all order_default (map entry_key es) = Inr (dec_order (boundary sha h b es))"
    by (cases "admit_all order_default (map entry_key es)") (auto simp: boundary_def)
  have small: "?n < 18446744073709551616" using fits(1) unat_u64_less [of "max_frame_bytes b"] by simp
  then have n: "unat (of_nat ?n :: u64) = ?n" by (simp add: unat_of_nat)
  show "unat (dec_entries (boundary sha h b es)) = length es"
    using fits(2) unat_u64_less [of "max_entries b"] by (simp add: boundary_def unat_of_nat)
  show "unat (dec_content_bytes (boundary sha h b es)) = content_total es"
    using content_total_le [of es sha h] small by (simp add: boundary_def unat_of_nat)
  have "unat (max_frame_bytes b - TRAILER_BYTES_V1) = unat (max_frame_bytes b) - 49"
    using fits(1) by (simp add: TRAILER_BYTES_V1_def unat_sub word_le_nat_alt)
  with n fits(1) show "room (boundary sha h b es) n \<longleftrightarrow> ?n + n + 49 \<le> unat (max_frame_bytes b)"
    by (auto simp: room_def boundary_def)
qed

lemma decoder_new_iff:
  assumes "digest32 sha" and "header_valid h"
  shows "decoder_new slice_read t h b = Inr (d, t') \<longleftrightarrow> frame_ok sha b h [] \<and> t = header_bytes h @ t' \<and> d = boundary sha h b []"
proof -
  have ok: "frame_ok sha b h [] \<longleftrightarrow> length (header_bytes h) + 49 \<le> unat (max_frame_bytes b)"
    using length_frame_of [OF assms(1), of h "[]"] by (simp add: frame_ok_def entries_bytes_def)
  have limit: "record_limit b = Inr limit \<longleftrightarrow> 49 \<le> unat (max_frame_bytes b) \<and> limit = max_frame_bytes b - TRAILER_BYTES_V1" for limit
    by (auto simp: record_limit_def TRAILER_BYTES_V1_def word_le_nat_alt)
  have sub: "unat (max_frame_bytes b - TRAILER_BYTES_V1) = unat (max_frame_bytes b) - 49" if "49 \<le> unat (max_frame_bytes b)"
    using that by (simp add: TRAILER_BYTES_V1_def unat_sub word_le_nat_alt)
  show ?thesis unfolding decoder_new_def rbind_Inr_iff limit split_paired_Ex slice_header_iff [OF assms(2)] ok
    using sub by (auto simp: room_def boundary_def entries_bytes_def content_total_def)
qed

lemma after_entry:
  assumes "digest32 sha" and "frame_ok sha b h es"
    and "order_admit (dec_order (boundary sha h b es)) (entry_path e) (entry_is_directory e) = Inr ord"
  shows "after_body sha (after_prefix (boundary sha h b es) (kind_tag (entry_kind e)) (entry_path e) ord) e = boundary sha h b (es @ [e])"
proof -
  have "admit_all order_default (map entry_key (es @ [e])) = Inr ord"
    using boundary_exact(3) [OF assms(1,2)] assms(3) by (simp add: admit_all_snoc)
  then show ?thesis
    by (simp add: after_body_def after_prefix_def boundary_def entries_bytes_snoc content_total_snoc entry_bytes_split)
qed

lemma entry_room:
  assumes "digest32 sha" and "frame_ok sha b h es"
  shows "room (boundary sha h b es) (3 + length (entry_path e))
      \<and> room (after_prefix (boundary sha h b es) tag (entry_path e) ord) (length (entry_body sha e))
    \<longleftrightarrow> length (entries_bytes sha h es) + length (entry_bytes sha e) + 49 \<le> unat (max_frame_bytes b)"
proof -
  let ?d = "boundary sha h b es" and ?k = "3 + length (entry_path e)"
  have "room ?d ?k \<and> room (after_prefix ?d tag (entry_path e) ord) n \<longleftrightarrow> room ?d (?k + n)" for n
    using room_after_num [OF unat_of_room [of ?d ?k], of ?d n] by (auto simp: after_prefix_def room_def)
  then show ?thesis by (simp add: boundary_exact(4) [OF assms] entry_bytes_split ac_simps)
qed

lemma prefix_simps [simp]:
  "pending (after_prefix d tag path ord) = pending d" "dec_content_bytes (after_prefix d tag path ord) = dec_content_bytes d"
  by (simp_all add: after_prefix_def)

lemma boundary_less:
  assumes "digest32 sha" and "frame_ok sha b h es"
  shows "dec_entries (boundary sha h b es) < max_entries b \<longleftrightarrow> length es < unat (max_entries b)"
  by (simp add: word_less_nat_alt boundary_exact(1) [OF assms])

lemma boundary_order:
  assumes "digest32 sha" and "frame_ok sha b h es"
  shows "is_ok (rbind (admit_all order_default (map entry_key es)) (\<lambda>ord. order_admit ord p q))
    \<longleftrightarrow> (\<exists>ord. order_admit (dec_order (boundary sha h b es)) p q = Inr ord)"
  unfolding boundary_exact(3) [OF assms] by (cases "order_admit (dec_order (boundary sha h b es)) p q") auto

lemma record_step_sound:
  assumes sha: "digest32 sha" and ok: "frame_ok sha b h es"
    and tagged: "tagged_record slice_read sha (boundary sha h b es) t = Inr (Some r, d1, t1)"
    and drain: "drain_pending slice_read sha d1 t1 = Inr ((), d2, t2)"
  shows "\<exists>e. frame_ok sha b h (es @ [e]) \<and> r = record_of e \<and> take (unread d1) t1 = entry_content e \<and> t = entry_bytes sha e @ t2
    \<and> d2 = boundary sha h b (es @ [e])"
proof -
  let ?d = "boundary sha h b es" and ?c = "take (unread d1) t1"
  let ?p = "\<lambda>kind path ord. after_prefix ?d (kind_tag kind) path ord"
  from tagged obtain kind path ord t0 d3 where step: "t = prefix_bytes (kind_tag kind) path @ t0" "valid_path path"
    "length es < unat (max_entries b)" "room ?d (3 + length path)" "order_admit (dec_order ?d) path (kind = KindDirectory) = Inr ord"
    and body: "read_body slice_read (?p kind path ord) t0 kind path = Inr (r, d3, t1)" "d1 = d3\<lparr>dec_entries := dec_entries d3 + 1\<rparr>"
    unfolding tagged_iff boundary_simps boundary_less [OF sha ok] by (elim exE conjE)
  from body drain step(2) have "valid_path path \<and> body_step sha (?p kind path ord) t0 kind path r ?c d2 t2"
    unfolding body_step_def by (intro conjI exI) (auto simp: unread_def)
  then obtain e where e: "entry_kind e = kind" "entry_path e = path" "entry_valid e" "r = record_of e" "?c = entry_content e"
    "t0 = entry_body sha e @ t2" "room (?p kind path ord) (length (entry_body sha e))" "d2 = after_body sha (?p kind path ord) e"
    by (subst (asm) body_step_iff [OF sha]) auto
  have ord: "order_admit (dec_order ?d) (entry_path e) (entry_is_directory e) = Inr ord"
    using step(5) e(1,2) by (simp add: entry_kind_directory [symmetric])
  have "frame_ok sha b h (es @ [e])"
    unfolding frame_ok_snoc [OF sha] boundary_order [OF sha ok]
      entry_room [OF sha ok, where ord = ord and tag = "kind_tag kind", symmetric]
    using ok e step ord by auto
  moreover have "d2 = boundary sha h b (es @ [e])" using after_entry [OF sha ok ord] e(1,2,8) by simp
  ultimately show ?thesis using e(1,2,4-6) step(1) by (intro exI [of _ e]) (simp add: entry_bytes_split)
qed

lemma record_step_complete:
  assumes sha: "digest32 sha" and ok: "frame_ok sha b h es" and e: "frame_ok sha b h (es @ [e])"
  shows "\<exists>d1 t1. tagged_record slice_read sha (boundary sha h b es) (entry_bytes sha e @ t2) = Inr (Some (record_of e), d1, t1)
    \<and> drain_pending slice_read sha d1 t1 = Inr ((), boundary sha h b (es @ [e]), t2) \<and> take (unread d1) t1 = entry_content e"
proof -
  let ?d = "boundary sha h b es" and ?d2 = "boundary sha h b (es @ [e])" and ?k = "entry_kind e" and ?path = "entry_path e"
  let ?p = "\<lambda>ord. after_prefix ?d (kind_tag ?k) ?path ord"
  from e obtain ord where ord: "order_admit (dec_order ?d) ?path (entry_is_directory e) = Inr ord"
    and valid: "entry_valid e" "length es < unat (max_entries b)"
    and fits: "length (entries_bytes sha h es) + length (entry_bytes sha e) + 49 \<le> unat (max_frame_bytes b)"
    unfolding frame_ok_snoc [OF sha] boundary_order [OF sha ok] by (elim conjE exE)
  from fits have room: "room ?d (3 + length ?path)" "room (?p ord) (length (entry_body sha e))"
    unfolding entry_room [OF sha ok, where ord = ord and tag = "kind_tag ?k", symmetric] by simp_all
  have "content_total es + length (entry_content e) < 2 ^ 64"
    using content_total_le [of "es @ [e]" sha h] fits unat_u64_less [of "max_frame_bytes b"]
    by (simp add: content_total_snoc entries_bytes_snoc)
  then have "valid_path ?path \<and> body_step sha (?p ord) (entry_body sha e @ t2) ?k ?path (record_of e) (entry_content e) ?d2 t2"
    using valid(1) room(2) after_entry [OF sha ok ord]
    by (subst body_step_iff [OF sha]) (auto simp: boundary_exact(2) [OF sha ok] intro!: exI [of _ e])
  then obtain d3 t1 where body: "valid_path ?path" "read_body slice_read (?p ord) (entry_body sha e @ t2) ?k ?path = Inr (record_of e, d3, t1)"
    and rest: "drain_pending slice_read sha (d3\<lparr>dec_entries := dec_entries d3 + 1\<rparr>) t1 = Inr ((), ?d2, t2)"
      "take (unread d3) t1 = entry_content e"
    unfolding body_step_def by (elim conjE exE)
  have "tagged_record slice_read sha ?d (entry_bytes sha e @ t2) = Inr (Some (record_of e), d3\<lparr>dec_entries := dec_entries d3 + 1\<rparr>, t1)"
    unfolding tagged_iff boundary_simps boundary_less [OF sha ok]
    using body valid(2) room(1) ord
    by (intro exI [of _ ?k] exI [of _ ?path] exI [of _ ord] exI [of _ "entry_body sha e @ t2"] exI [of _ d3])
      (simp add: entry_bytes_split entry_kind_directory)
  moreover have "unread (d3\<lparr>dec_entries := dec_entries d3 + 1\<rparr>) = unread d3" by (simp add: unread_def)
  ultimately show ?thesis using rest by (intro exI [of _ "d3\<lparr>dec_entries := dec_entries d3 + 1\<rparr>"] exI [of _ t1]) simp
qed

lemma read_body_phase: "read_body slice_read d t kind path = Inr (r, d', t') \<Longrightarrow> phase d' = phase d"
  by (cases kind) (auto simp only: slice_directory_iff slice_regular_iff slice_symlink_iff, simp_all)

lemma tagged_phase: "tagged_record slice_read sha d t = Inr (Some r, d', t') \<Longrightarrow> phase d' = phase d"
  unfolding tagged_iff by (auto simp: after_prefix_def dest!: read_body_phase)

text \<open>The trailer closes the frame of exactly the entries that were read.\<close>

lemma trailer_step_iff:
  assumes sha: "digest32 sha" and ok: "frame_ok sha b h es"
  shows "(\<exists>d1 t1. tagged_record slice_read sha (boundary sha h b es) t = Inr (None, d1, t1)) \<longleftrightarrow>
    t = trailer_bytes es @ sha (entries_bytes sha h es @ trailer_bytes es)"
proof -
  have split_if: "(if c then rbind (read_trailer slice_read sha x y) (\<lambda>(_, d, t). Inr (None, d, t)) else rbind (record_kind tag) (\<lambda>kind.
       if m \<le> n then Inl EntryLimit else rbind (p kind) (\<lambda>d. rbind (q kind d) (\<lambda>(path, d, s). rbind (f kind d path) (\<lambda>ord.
       rbind (g kind d s ord path) (\<lambda>(record, d, s). Inr (Some record, u d, s))))))) = Inr (None, d1, t1)
      \<longleftrightarrow> c \<and> read_trailer slice_read sha x y = Inr ((), d1, t1)"
    for c x y tag d1 t1 and m n :: u64 and p q f g u
    by (auto simp: rbind_Inr_iff)
  show ?thesis
    unfolding tagged_record_def u8_bind case_prod_conv split_if slice_trailer_iff [OF sha]
    by (auto simp: Let_def trailer_bytes_def boundary_exact(1,2) [OF sha ok] boundary_exact(1,2) [OF sha ok, unfolded boundary_def])
qed

section \<open>All records\<close>

text \<open>
  What the consumer holds of an entry: its record and the part of its content that it read, which is all of it when its
  plan has a buffer for every byte, since a read returns at least one byte.
\<close>

definition reads_all :: "nat list \<Rightarrow> nat \<Rightarrow> bool" where
  "reads_all ns k \<longleftrightarrow> k \<le> length ns \<and> (\<forall>n\<in>set ns. 0 < n)"

definition yields :: "(RecordV1 \<Rightarrow> nat list) \<Rightarrow> RecordV1 \<times> u8 list \<Rightarrow> FrameEntry \<Rightarrow> bool" where
  "yields plan y e \<longleftrightarrow> fst y = record_of e \<and> prefix (snd y) (entry_content e)
     \<and> (reads_all (plan (record_of e)) (length (entry_content e)) \<longrightarrow> snd y = entry_content e)"

abbreviation rest_of_frame :: "(u8 list \<Rightarrow> u8 list) \<Rightarrow> CustodyFrameHeaderV1 \<Rightarrow> FrameEntry list \<Rightarrow> FrameEntry list \<Rightarrow> u8 list" where
  "rest_of_frame sha h es xs \<equiv> concat (map (entry_bytes sha) xs) @ trailer_bytes (es @ xs)
     @ sha (entries_bytes sha h (es @ xs) @ trailer_bytes (es @ xs))"

lemma decode_entries_poisoned: "phase d = PhasePoisoned \<Longrightarrow> decode_entries rd sha plan d s = Inl Poisoned"
  by (simp add: decode_entries.simps [of rd sha plan d] next_entry_def)

context byte_reader
begin

lemma decode_entries_open:
  assumes "phase d = PhaseOpen" and "drain_pending rd sha d s = Inr ((), d0, s0)"
  shows "decode_entries rd sha plan d s =
    (case tagged_record rd sha d0 s0 of
       Inl e \<Rightarrow> Inl e
     | Inr (None, _) \<Rightarrow> Inr []
     | Inr (Some r, d1, s1) \<Rightarrow> (case consume rd sha d1 s1 (plan r) of (bytes, d2, s2) \<Rightarrow>
         rbind (decode_entries rd sha plan d2 s2) (\<lambda>rest. Inr ((r, bytes) # rest))))"
  using assms by (auto simp: decode_entries.simps [of rd sha plan d] next_entry_def next_record_def split: sum.splits prod.splits option.splits)

lemma decode_entries_drains:
  assumes "decode_entries rd sha plan d s = Inr ys" and "phase d = PhaseOpen"
  shows "\<exists>d0 s0. drain_pending rd sha d s = Inr ((), d0, s0)"
proof (cases "drain_pending rd sha d s")
  case (Inl e)
  with assms show ?thesis by (simp add: decode_entries.simps [of rd sha plan d] next_entry_def next_record_def)
qed auto

lemma tagged_slice:
  assumes "tagged_record rd sha d s = Inr (r, d1, s1)"
  shows "tagged_record slice_read sha d (remaining s) = Inr (r, d1, remaining s1)"
  using assms by (simp add: sim_tagged_record)

lemma drain_slice:
  assumes "drain_pending rd sha d s = Inr ((), d1, s1)"
  shows "drain_pending slice_read sha d (remaining s) = Inr ((), d1, remaining s1)"
  using assms by (simp add: sim_drain_pending)

lemma yielded_progress:
  assumes "read_yielded_content rd sha d s n = Inr (bytes, d1, s1)" and "0 < n"
  shows "unread d1 \<le> unread d - 1"
proof -
  obtain d2 s2 where r: "read_content_bytes rd d s n = Inr (bytes, d2, s2)" and d1: "unread d1 = 0 \<or> d1 = d2"
    using assms(1) by (auto simp: read_yielded_content_def rbind_Inr_iff finish_content_def unread_def read_frame_bytes_def
        split: if_splits option.splits)
  show ?thesis
  proof (cases "0 < unread d")
    case True
    from read_content_progress [OF r this assms(2)] d1 show ?thesis by auto
  next
    case False
    then have "d2 = d" using r by (auto simp: read_content_bytes_def unread_def chunk_length_def split: option.splits)
    with False d1 show ?thesis by auto
  qed
qed

lemma consume_all:
  assumes "phase d = PhaseOpen" and "consume rd sha d s ns = (bytes, d', s')" and "drain_pending rd sha d s = Inr q" and "reads_all ns (unread d)"
  shows "bytes = take (unread d) (remaining s)"
  using assms
proof (induction ns arbitrary: d s bytes q)
  case Nil
  then show ?case by (simp add: reads_all_def)
next
  case (Cons n ns)
  from Cons.prems(3) read_yielded_spec [of sha d s n] obtain bs d1 s1 where y: "read_yielded_content rd sha d s n = Inr (bs, d1, s1)"
    "phase d1 = phase d" "take (unread d) (remaining s) = bs @ take (unread d1) (remaining s1)"
    "map_source remaining (drain_pending rd sha d1 s1) = map_source remaining (drain_pending rd sha d s)"
    by (cases "read_yielded_content rd sha d s n") auto
  from y(1) Cons.prems(1,2) obtain rest where rest: "consume rd sha d1 s1 ns = (rest, d', s')" "bytes = bs @ rest"
    by (auto simp: consumer_read_def split: prod.splits)
  obtain q1 where q1: "drain_pending rd sha d1 s1 = Inr q1"
    using y(4) Cons.prems(3) by (cases "drain_pending rd sha d1 s1") (auto dest: sym)
  have "reads_all ns (unread d1)" using Cons.prems(4) yielded_progress [OF y(1)] by (auto simp: reads_all_def)
  from Cons.IH [OF _ rest(1) q1 this] y(2,3) rest(2) Cons.prems(1) show ?case by simp
qed

lemma consume_yields:
  assumes "phase d = PhaseOpen" and "consume rd sha d s ns = (bytes, d', s')" and "drain_pending rd sha d s = Inr q"
  shows "prefix bytes (take (unread d) (remaining s))
    \<and> (reads_all ns (length (take (unread d) (remaining s))) \<longrightarrow> bytes = take (unread d) (remaining s))"
proof
  show "prefix bytes (take (unread d) (remaining s))" using consume_spec [OF assms(1,2)] by (auto simp: prefix_def)
  have "unread d \<le> length (remaining s)"
  proof -
    have "\<exists>x. discard_content rd d s = Inr x" using assms(3) by (cases "discard_content rd d s") (auto simp: drain_pending_def)
    then show ?thesis using discard_content_spec [of d s] by (auto simp: discarded_def unread_def split: option.splits if_splits)
  qed
  then show "reads_all ns (length (take (unread d) (remaining s))) \<longrightarrow> bytes = take (unread d) (remaining s)"
    using consume_all [OF assms] by simp
qed

lemma sim_decoder_new: "decoder_new slice_read (remaining s) h b = map_sum id (map_prod id remaining) (decoder_new rd s h b)"
  by (cases "record_limit b"; cases "read_header rd \<lparr>dec_budget = b, dec_record_limit = projr (record_limit b), admitted = 0, dec_frame = [],
      dec_order = order_default, dec_entries = 0, dec_content_bytes = 0, pending = None, phase = PhaseOpen\<rparr> s h")
    (auto simp: decoder_new_def sim_read_header)

lemma entries_sound:
  assumes sha: "digest32 sha"
    and "decode_entries rd sha plan d s = Inr ys" and "phase d = PhaseOpen"
    and "drain_pending rd sha d s = Inr ((), boundary sha h b es, s0)" and "frame_ok sha b h es"
  shows "\<exists>xs. remaining s0 = rest_of_frame sha h es xs \<and> frame_ok sha b h (es @ xs) \<and> list_all2 (yields plan) ys xs"
  using assms(2-)
proof (induction ys arbitrary: d s es s0)
  case Nil
  from Nil(1) obtain d1 s1 where "tagged_record rd sha (boundary sha h b es) s0 = Inr (None, d1, s1)"
    unfolding decode_entries_open [OF Nil(2,3)] by (auto simp: rbind_Inr_iff split: sum.splits option.splits prod.splits)
  then have "remaining s0 = rest_of_frame sha h es []"
    using trailer_step_iff [OF sha Nil(4), of "remaining s0"] by (auto dest: tagged_slice)
  with Nil(4) show ?case by (intro exI [of _ "[]"]) simp
next
  case (Cons y ys)
  from Cons.prems(1) obtain r d1 s1 bytes d2 s2 where
    tag: "tagged_record rd sha (boundary sha h b es) s0 = Inr (Some r, d1, s1)"
    and cons: "consume rd sha d1 s1 (plan r) = (bytes, d2, s2)" and rest: "decode_entries rd sha plan d2 s2 = Inr ys" and y: "y = (r, bytes)"
    unfolding decode_entries_open [OF Cons.prems(2,3)] by (auto simp: rbind_Inr_iff split: sum.splits option.splits prod.splits)
  have ph: "phase d1 = PhaseOpen" using tagged_phase [OF tagged_slice [OF tag]] by simp
  have "phase d2 \<noteq> PhasePoisoned" using rest by (auto simp: decode_entries_poisoned)
  with consume_spec [OF ph cons] have open2: "phase d2 = PhaseOpen"
    and same: "map_source remaining (drain_pending rd sha d2 s2) = map_source remaining (drain_pending rd sha d1 s1)" by auto
  from decode_entries_drains [OF rest open2] obtain d3 s3 where d3: "drain_pending rd sha d2 s2 = Inr ((), d3, s3)" by blast
  with same have drain: "drain_pending slice_read sha d1 (remaining s1) = Inr ((), d3, remaining s3)" by (simp add: sim_drain_pending)
  then obtain s4 where drain1: "drain_pending rd sha d1 s1 = Inr ((), d3, s4)" unfolding sim_drain_pending map_source_Inr_iff by blast
  from record_step_sound [OF sha Cons.prems(4) tagged_slice [OF tag] drain]
  obtain e where e: "frame_ok sha b h (es @ [e])" "r = record_of e" "take (unread d1) (remaining s1) = entry_content e"
    "remaining s0 = entry_bytes sha e @ remaining s3" "d3 = boundary sha h b (es @ [e])" by (elim exE conjE)
  from Cons.IH [OF rest open2 d3 [unfolded e(5)] e(1)] obtain xs where xs: "remaining s3 = rest_of_frame sha h (es @ [e]) xs"
    "frame_ok sha b h ((es @ [e]) @ xs)" "list_all2 (yields plan) ys xs" by (elim exE conjE)
  have "yields plan y e" using y e(2,3) consume_yields [OF ph cons drain1] by (simp add: yields_def)
  with xs e(4) show ?case by (intro exI [of _ "e # xs"]) simp
qed

lemma entries_complete:
  assumes sha: "digest32 sha"
    and "frame_ok sha b h (es @ xs)" and "remaining s0 = rest_of_frame sha h es xs" and "phase d = PhaseOpen"
    and "drain_pending rd sha d s = Inr ((), boundary sha h b es, s0)"
  shows "\<exists>ys. decode_entries rd sha plan d s = Inr ys \<and> list_all2 (yields plan) ys xs"
  using assms(2-)
proof (induction xs arbitrary: d s es s0)
  case Nil
  then have "\<exists>d1 t1. tagged_record slice_read sha (boundary sha h b es) (remaining s0) = Inr (None, d1, t1)"
    using trailer_step_iff [OF sha, of b h es "remaining s0"] by simp
  then obtain d1 s1 where "tagged_record rd sha (boundary sha h b es) s0 = Inr (None, d1, s1)"
    unfolding sim_tagged_record map_source_Inr_iff by blast
  then have "decode_entries rd sha plan d s = Inr []" unfolding decode_entries_open [OF Nil(3,4)] by simp
  then show ?case by simp
next
  case (Cons e xs)
  have ok: "frame_ok sha b h es" "frame_ok sha b h (es @ [e])" "frame_ok sha b h ((es @ [e]) @ xs)"
    using Cons.prems(1) frame_ok_append [OF sha, of b h es "e # xs"] frame_ok_append [OF sha, of b h "es @ [e]" xs] by simp_all
  have "remaining s0 = entry_bytes sha e @ rest_of_frame sha h (es @ [e]) xs" using Cons.prems(2) by simp
  with record_step_complete [OF sha ok(1,2), of "rest_of_frame sha h (es @ [e]) xs"] obtain d1 t1 where
    t1: "tagged_record slice_read sha (boundary sha h b es) (remaining s0) = Inr (Some (record_of e), d1, t1)"
    "drain_pending slice_read sha d1 t1 = Inr ((), boundary sha h b (es @ [e]), rest_of_frame sha h (es @ [e]) xs)"
    "take (unread d1) t1 = entry_content e" by auto
  from t1(1) obtain s1 where s1: "tagged_record rd sha (boundary sha h b es) s0 = Inr (Some (record_of e), d1, s1)" "t1 = remaining s1"
    unfolding sim_tagged_record map_source_Inr_iff by blast
  obtain bytes d2 s2 where cons: "consume rd sha d1 s1 (plan (record_of e)) = (bytes, d2, s2)" by (metis prod_cases3)
  have ph: "phase d1 = PhaseOpen" using tagged_phase [OF t1(1)] by simp
  from t1(2) obtain s3 where drain1: "drain_pending rd sha d1 s1 = Inr ((), boundary sha h b (es @ [e]), s3)"
    unfolding s1(2) sim_drain_pending map_source_Inr_iff by blast
  with consume_spec [OF ph cons] have open2: "phase d2 = PhaseOpen"
    and same: "drain_pending slice_read sha d2 (remaining s2) = drain_pending slice_read sha d1 (remaining s1)"
    by (auto simp: sim_drain_pending)
  from same t1(2) obtain s4 where d2: "drain_pending rd sha d2 s2 = Inr ((), boundary sha h b (es @ [e]), s4)"
    "remaining s4 = rest_of_frame sha h (es @ [e]) xs"
    unfolding s1(2) sim_drain_pending [of sha d2 s2] by (auto simp: map_source_Inr_iff)
  from Cons.IH [OF ok(3) d2(2) open2 d2(1)] obtain ys where ys: "decode_entries rd sha plan d2 s2 = Inr ys" "list_all2 (yields plan) ys xs" by blast
  have "decode_entries rd sha plan d s = Inr ((record_of e, bytes) # ys)"
    unfolding decode_entries_open [OF Cons.prems(3,4)] using s1(1) cons ys(1) by simp
  moreover have "yields plan (record_of e, bytes) e" using t1(3) consume_yields [OF ph cons drain1] s1(2) by (simp add: yields_def)
  ultimately show ?case using ys(2) by auto
qed

lemma decode_all_sound:
  assumes "digest32 sha" and "header_valid h" and "decode_all rd sha plan s h b = Inr ys"
  shows "\<exists>es. remaining s = frame_of sha h es \<and> frame_ok sha b h es \<and> list_all2 (yields plan) ys es"
proof -
  from assms(3) obtain d s0 where new: "decoder_new rd s h b = Inr (d, s0)" and ys: "decode_entries rd sha plan d s0 = Inr ys"
    by (auto simp: decode_all_def rbind_Inr_iff)
  from new have "decoder_new slice_read (remaining s) h b = Inr (d, remaining s0)"
    by (auto simp: sim_decoder_new)
  then have start: "frame_ok sha b h []" "remaining s = header_bytes h @ remaining s0" "d = boundary sha h b []"
    unfolding decoder_new_iff [OF assms(1,2)] by simp_all
  have "drain_pending rd sha d s0 = Inr ((), boundary sha h b [], s0)"
    using start(3) by (simp add: drain_pending_def discard_content.simps [of rd] finish_content_def)
  from entries_sound [OF assms(1) ys _ this start(1)] start(3) obtain es where
    "remaining s0 = rest_of_frame sha h [] es" "frame_ok sha b h es" "list_all2 (yields plan) ys es" by auto
  with start(2) show ?thesis by (intro exI [of _ es]) (simp add: frame_of_def Let_def entries_bytes_def)
qed

lemma decode_all_complete:
  assumes "digest32 sha" and "header_valid h" and "remaining s = frame_of sha h es" and "frame_ok sha b h es"
  shows "\<exists>ys. decode_all rd sha plan s h b = Inr ys \<and> list_all2 (yields plan) ys es"
proof -
  have ok: "frame_ok sha b h []" using frame_ok_append [OF assms(1), of b h "[]" es] assms(4) by simp
  have "decoder_new slice_read (remaining s) h b = Inr (boundary sha h b [], rest_of_frame sha h [] es)"
    unfolding decoder_new_iff [OF assms(1,2)] using assms(3) ok by (simp add: frame_of_def Let_def entries_bytes_def)
  then obtain s0 where new: "decoder_new rd s h b = Inr (boundary sha h b [], s0)" "remaining s0 = rest_of_frame sha h [] es"
    by (cases "decoder_new rd s h b") (auto simp: sim_decoder_new)
  have "drain_pending rd sha (boundary sha h b []) s0 = Inr ((), boundary sha h b [], s0)"
    by (simp add: drain_pending_def discard_content.simps [of rd] finish_content_def)
  from entries_complete [OF assms(1) _ new(2) _ this, of plan] assms(4) new(1) show ?thesis by (simp add: decode_all_def)
qed

end

lemma yields_unique:
  assumes "list_all2 (yields plan) ys es" and "\<forall>e\<in>set es. reads_all (plan (record_of e)) (length (entry_content e))"
  shows "ys = map (\<lambda>e. (record_of e, entry_content e)) es"
  using assms by (induction rule: list_all2_induct) (auto simp: yields_def)

lemma entry_eq: "record_of e = record_of e' \<Longrightarrow> entry_content e = entry_content e' \<Longrightarrow> e = e'"
  by (cases e; cases e') auto

lemma content_in_frame: "e \<in> set es \<Longrightarrow> length (entry_content e) \<le> length (frame_of sha h es)"
proof -
  assume "e \<in> set es"
  then have "length (entry_content e) \<le> content_total es" by (auto simp: content_total_def intro: member_le_sum_list)
  with content_total_le [of es sha h] show ?thesis by (simp add: frame_of_def Let_def)
qed

lemma frame_of_inj:
  assumes "digest32 sha" and "header_valid h" and "frame_ok sha b h es" and "frame_ok sha b h es'" and "frame_of sha h es = frame_of sha h es'"
  shows "es = es'"
proof -
  let ?plan = "\<lambda>_. replicate (length (frame_of sha h es)) 1"
  let ?f = "\<lambda>e. (record_of e, entry_content e)"
  have all: "\<forall>e\<in>set xs. reads_all (?plan (record_of e)) (length (entry_content e))" if "frame_of sha h xs = frame_of sha h es" for xs
    using content_in_frame [of _ xs sha h] that by (auto simp: reads_all_def)
  have "decode_all slice_read sha ?plan (frame_of sha h es) h b = Inr (map ?f xs)"
    if "frame_ok sha b h xs" "frame_of sha h xs = frame_of sha h es" for xs
    using slice.decode_all_complete [OF assms(1,2) that(2) [symmetric] that(1), of ?plan] yields_unique [OF _ all [OF that(2)]] by auto
  from this [OF assms(3) refl] this [OF assms(4) assms(5) [symmetric]] have "map ?f es = map ?f es'" by simp
  then show ?thesis by (rule map_injective) (auto intro!: injI entry_eq)
qed

section \<open>The decoder and its round trip with the encoder\<close>

text \<open>
  C2: The decoder accepts exactly the frames of the specification. Whatever pieces the source gives its bytes in and whatever
  the consumer reads of each file, decoding a stream reaches its end exactly when the stream is the frame of a list of valid entries in canonical
  order that fits the budget, with nothing missing, changed or left over; the list is unique, and the consumer got its records in
  order, with a prefix of every content, all of it where it asked for all of it.
\<close>

theorem decoder_accepts_exact_frames:
  assumes "byte_reader rd remaining" and "digest32 sha" and "header_valid h"
  shows "case decode_all rd sha plan s h b of
      Inl e \<Rightarrow> \<nexists>es. frame_ok sha b h es \<and> remaining s = frame_of sha h es
    | Inr ys \<Rightarrow> (\<exists>!es. frame_ok sha b h es \<and> remaining s = frame_of sha h es)
        \<and> (\<exists>es. frame_ok sha b h es \<and> remaining s = frame_of sha h es \<and> list_all2 (yields plan) ys es)"
proof (cases "decode_all rd sha plan s h b")
  case (Inl e)
  then show ?thesis using byte_reader.decode_all_complete [OF assms, of s _ b plan] by auto
next
  case (Inr ys)
  from byte_reader.decode_all_sound [OF assms Inr] obtain es where
    es: "frame_ok sha b h es" "remaining s = frame_of sha h es" "list_all2 (yields plan) ys es" by blast
  then have "\<exists>!es. frame_ok sha b h es \<and> remaining s = frame_of sha h es"
    using frame_of_inj [OF assms(2,3)] by (intro ex1I [of _ es]) auto
  with es Inr show ?thesis by auto
qed

definition example_budget :: CustodyFrameBudgetV1 where
  "example_budget = \<lparr>max_entries = 10, max_frame_bytes = 1000\<rparr>"

abbreviation example_entries :: "FrameEntry list" where
  "example_entries \<equiv> map (input_entry (\<lambda>s. s)) example_inputs"

lemma example_facts:
  "header_valid example_header" "\<forall>i\<in>set example_inputs. input_typed i" "\<forall>i\<in>set example_inputs. input_declared (\<lambda>s. s) i"
  "frame_ok example_sha example_budget example_header example_entries"
  by code_simp+

theorem decoder_accepts_exact_frames_witness:
  "\<exists>ys. decode_all (chunk_read 3) example_sha (\<lambda>_. [2]) (frame_of example_sha example_header example_entries) example_header example_budget
     = Inr ys \<and> length ys = 3"
proof -
  note exact = decoder_accepts_exact_frames [OF chunks.byte_reader_axioms [of 3] example_sha_digest example_facts(1),
      where plan = "\<lambda>_. [2]" and s = "frame_of example_sha example_header example_entries" and b = example_budget]
  then obtain ys where ys: "decode_all (chunk_read 3) example_sha (\<lambda>_. [2]) (frame_of example_sha example_header example_entries)
      example_header example_budget = Inr ys"
    using example_facts(4) by (auto split: sum.splits)
  with exact obtain es where "frame_ok example_sha example_budget example_header es"
    "frame_of example_sha example_header example_entries = frame_of example_sha example_header es" "list_all2 (yields (\<lambda>_. [2])) ys es" by auto
  with frame_of_inj [OF example_sha_digest example_facts(1,4)] have "list_all2 (yields (\<lambda>_. [2])) ys example_entries" by metis
  with ys show ?thesis by (auto simp: example_inputs_def dest: list_all2_lengthD)
qed

text \<open>
  C3: Encoding and decoding are inverse. When the encoder finishes, whatever pieces its sources and its sink work in, decoding what it
  appended, from any source, gives every offered entry back in order with its path, mode, length, target and whole content (for a consumer that
  asks for it), and the digest in the encoder's summary is the digest of exactly these bytes.
\<close>

theorem coverage_frame_roundtrip:
  assumes "byte_reader rd remaining" and "byte_sink wr written_to"
    and "\<And>w. \<exists>w'. flush w = Inr w' \<and> written_to w' = written_to w"
    and "digest32 sha" and "header_valid h" and "\<forall>i\<in>set inputs. input_typed i" and "es = map (input_entry remaining) inputs"
    and "encode_all wr flush rd sha w h b inputs = Inr (summary, w')"
    and "byte_reader rd' remaining'" and "written_to w' = written_to w @ remaining' s"
    and "\<forall>e\<in>set es. reads_all (plan (record_of e)) (length (entry_content e))"
  shows "decode_all rd' sha plan s h b = Inr (map (\<lambda>e. (record_of e, entry_content e)) es)
    \<and> frame_sha256 summary = sha (remaining' s)"
proof -
  have "frame_channel rd remaining wr written_to" using assms(1,2) by (simp add: frame_channel_def)
  note enc = frame_channel.encode_all_follows [OF this assms(3-7), of b w]
  then have ok: "frame_ok sha b h es" and frame: "remaining' s = frame_of sha h es" and digest: "frame_sha256 summary = sha (frame_of sha h es)"
    using assms(8,10) by (auto split: if_splits)
  from byte_reader.decode_all_complete [OF assms(9,4,5) frame ok, of plan] obtain ys where
    "decode_all rd' sha plan s h b = Inr ys" "list_all2 (yields plan) ys es" by blast
  with yields_unique [OF _ assms(11)] digest frame show ?thesis by simp
qed

theorem coverage_frame_roundtrip_witness:
  "\<exists>summary w. encode_all (chunk_write 4) Inr (chunk_read 1) example_sha [] example_header example_budget example_inputs = Inr (summary, w)
     \<and> decode_all (chunk_read 2) example_sha (\<lambda>_. [1, 1, 1]) w example_header example_budget
       = Inr [(RecordDirectory [97] 493, []), (RecordRegular [97, 47, 98] 420 3, [1, 2, 3]), (RecordSymlink [99] [97, 47, 98], [])]
     \<and> frame_sha256 summary = example_sha w"
proof -
  obtain summary w where enc: "encode_all (chunk_write 4) Inr (chunk_read 1) example_sha [] example_header example_budget example_inputs
      = Inr (summary, w)"
    using channel.encode_all_follows [of Inr example_sha example_header example_inputs example_entries example_budget 4 1 "[]"]
      example_sha_digest example_facts by auto
  have "\<forall>e\<in>set example_entries. reads_all [1, 1, 1] (length (entry_content e))" by (simp add: example_inputs_def reads_all_def)
  then have "decode_all (chunk_read 2) example_sha (\<lambda>_. [1, 1, 1]) w example_header example_budget
      = Inr (map (\<lambda>e. (record_of e, entry_content e)) example_entries) \<and> frame_sha256 summary = example_sha w"
    using coverage_frame_roundtrip [OF chunks.byte_reader_axioms pieces.byte_sink_axioms _ example_sha_digest example_facts(1,2) refl enc
        chunks.byte_reader_axioms [of 2], where s = w and plan = "\<lambda>_. [1, 1, 1]"] by simp
  with enc show ?thesis by (simp add: example_inputs_def)
qed

end
