(* ===== verification/Spec2Isabelle.thy ===== *)
theory Spec2Isabelle
  imports Attempt_Activity Workflow_Fingerprint Template Fanout_Control Provider_Effects Budget_Admission Fixed_Grace_Timer Permission_Registry Custody_Roundtrip
begin

text \<open>
  A verification library for \<^verbatim>\<open>a2a-bridge\<close>, the bridge between clients of the A2A protocol and coding agents that
  speak ACP or run behind a provider API.

  \<^bold>\<open>The program.\<close> A request names a workflow: a graph of agent turns (\<^verbatim>\<open>graph.rs\<close>). Before anything runs, the
  bridge freezes what it is going to do: the controls of the run, the checkouts, and for every node the provider effects with their
  digests (\<^verbatim>\<open>execution_policy.rs\<close>). The scheduler runs the nodes (\<^verbatim>\<open>bridge-workflow\<close>), renders their prompts,
  asks the budget governance for every turn (\<^verbatim>\<open>governance.rs\<close> and the store), watches each turn for activity
  (\<^verbatim>\<open>turn_liveness.rs\<close>, \<^verbatim>\<open>attempt_activity.rs\<close>), waits for interactive permissions (\<^verbatim>\<open>permission.rs\<close>), and
  on a failure selects one trigger and acts on the sibling nodes (\<^verbatim>\<open>fanout.rs\<close>). Every failure becomes bounded, redacted
  evidence (\<^verbatim>\<open>diagnostics.rs\<close>). When a unit of work is sealed, its files travel in a coverage frame
  (\<^verbatim>\<open>custody_frame.rs\<close>). Paths without a directory are those of \<^verbatim>\<open>src/crates/bridge-core/src\<close>.

  \<^bold>\<open>Conventions.\<close> \<^verbatim>\<open>u8\<close> to \<^verbatim>\<open>u64\<close> are words of their width with the checked and saturating operations of
  \<^verbatim>\<open>Bridge_Prelude\<close>; \<^verbatim>\<open>usize\<close> is \<^typ>\<open>nat\<close> and \<^verbatim>\<open>i64\<close> is \<^typ>\<open>int\<close>. A \<^verbatim>\<open>str\<close> is its bytes, or the list of
  its scalar values where the code works on characters (\<^verbatim>\<open>Unicode_Text\<close>). A \<^verbatim>\<open>Result\<close> is a sum with the error on the
  left; a panic is \<^const>\<open>None\<close> where one can be reached. Ordered and hashed maps are association lists. An operation on
  state returns its outcome with the state it leaves. SHA-256, HMAC, the JSON encoder, random draws, clocks, the environment, the addition of
  floating-point numbers, byte sources and sinks are arguments of the definitions; what a theorem needs of them is a named hypothesis
  (a digest that does not collide on the inputs compared, a source that returns prefixes), and
  its witness instantiates it. The locales \<^verbatim>\<open>event_machine\<close> and \<^verbatim>\<open>growing_machine\<close> carry the inductions over
  histories; each state machine below interprets them.

  \<^bold>\<open>Errors and evidence.\<close>
  \<^item> \<^verbatim>\<open>Bridge_Errors\<close> (\<^verbatim>\<open>error.rs\<close>, \<^verbatim>\<open>diagnostics.rs\<close>): the errors with their protocol disposition, client message and
    resumability, and the admission rules of a failure diagnostic. A failure is retried only before its prompt was accepted.
  \<^item> \<^verbatim>\<open>Redaction\<close> (\<^verbatim>\<open>diagnostics.rs\<close>): the redactor with its passes. No known credential value, credential prefix or URL query
    survives, within the byte limit; a known value must not be a part of the markers the redactor writes. The passes over a text are recursions on what is left of it.
  \<^item> \<^verbatim>\<open>Diagnostics\<close>: codes, built diagnostics with their text budget, phase events and their observers (locale
    \<^verbatim>\<open>diagnostic_observer\<close>). A built diagnostic is bounded and redacted, apart from the static codes of
    the bridge; the event grammar is exact.
  \<^item> \<^verbatim>\<open>Node_Evidence\<close> (\<^verbatim>\<open>execution_policy.rs\<close>): the records of a node with their shrinking encoders (locale
    \<^verbatim>\<open>bounded_evidence\<close>). Encoding ends with a record within the bound; every bridge error has a cause.
  \<^item> \<^verbatim>\<open>Identities\<close> (\<^verbatim>\<open>ids.rs\<close> and the flight identities): parsers and minters (locale \<^verbatim>\<open>hex_identity\<close>).

  \<^bold>\<open>Turns.\<close>
  \<^item> \<^verbatim>\<open>Turn_Liveness\<close> (\<^verbatim>\<open>turn_liveness.rs\<close>): the tracker of a turn and the board of turns in flight. Each cause of a stop
    fires exactly when due; the bounded tracker refines the set of open calls, and stays paused once more than its capacity were open at once; the board
    refines the registrations.
  \<^item> \<^verbatim>\<open>Attempt_Activity\<close> (\<^verbatim>\<open>attempt_activity.rs\<close>, \<^verbatim>\<open>no_progress_warning.rs\<close>): recorders of progress (locale
    \<^verbatim>\<open>attempt_recorder\<close>). Progress recorded through turn scopes is exact against the history of the scope or flagged as overflowed;
    warnings cover silence.
  \<^item> \<^verbatim>\<open>Permission_Registry\<close> (\<^verbatim>\<open>permission.rs\<close>): pending permissions with their one-shot channels. At most one resolution,
    complete cancellation, harmless stale guards (below \<open>2 ^ 64\<close> registrations, where the token counter wraps).
  \<^item> \<^verbatim>\<open>Fixed_Grace_Timer\<close> (\<^verbatim>\<open>fixed_grace_timer.rs\<close>): the timer of a grace period. It is always restorable, and under every
    advancing clock it fires once.

  \<^bold>\<open>Workflows.\<close>
  \<^item> \<^verbatim>\<open>Workflow_Graph\<close> (\<^verbatim>\<open>graph.rs\<close>), \<^verbatim>\<open>Agent_Config\<close> (\<^verbatim>\<open>domain.rs\<close>): nodes, layered configuration, back-off, validation.
    Kahn's algorithm accepts exactly the well-formed graphs; its fuel is the number of nodes, and each round removes one.
  \<^item> \<^verbatim>\<open>Workflow_Fingerprint\<close> (\<^verbatim>\<open>graph.rs\<close>, \<^verbatim>\<open>workflow_history.rs\<close>): the canonical text of a workload as a prefix code
    (locale \<^verbatim>\<open>prefix_code\<close>). Two graphs share a fingerprint exactly when they have the same shape.
  \<^item> \<^verbatim>\<open>Template\<close> (\<^verbatim>\<open>bridge-workflow/src/template.rs\<close>): the renderer fills each variable once.
  \<^item> \<^verbatim>\<open>Fanout_Control\<close> (\<^verbatim>\<open>fanout.rs\<close>, \<^verbatim>\<open>scheduler_arbitration.rs\<close>, \<^verbatim>\<open>cancellation_settlement.rs\<close> of \<^verbatim>\<open>bridge-workflow\<close>): the
    trigger controller as a step relation, the arbitration of the scheduler and the owner of a clean-up. One trigger, actions once and after an authorised
    barrier, also across a restart; a round of the scheduler loses no completion and cancels exactly the nodes the cutoff leaves undrained.

  \<^bold>\<open>What is frozen.\<close>
  \<^item> \<^verbatim>\<open>Execution_Policy\<close> (\<^verbatim>\<open>execution_policy.rs\<close>): profiles, resolved controls, custody contracts, settlement of clean-ups.
  \<^item> \<^verbatim>\<open>Byte_Encoding\<close>, \<^verbatim>\<open>Checkout\<close>, \<^verbatim>\<open>Session_Cwd\<close> (\<^verbatim>\<open>session_cwd.rs\<close>): length-prefixed encodings (locale \<^verbatim>\<open>framed_code\<close>),
    frozen checkouts and working directories. A frozen target is one new segment under the root; digests identify their inputs.
  \<^item> \<^verbatim>\<open>Mcp_Servers\<close> (\<^verbatim>\<open>mcp.rs\<close>), \<^verbatim>\<open>Provider_Effects\<close> (\<^verbatim>\<open>execution_policy.rs\<close>): the delivery of MCP servers and the frozen effects
    of a provider. Digests identify effects, secrets are keyed, the matrix of a node is complete, and its fingerprint identifies the selection and
    everything its attempts launch (fields below \<open>2 ^ 64\<close> bytes).

  \<^bold>\<open>Budgets.\<close>
  \<^item> \<^verbatim>\<open>Accounting\<close> (\<^verbatim>\<open>accounting.rs\<close>, \<^verbatim>\<open>orch.rs\<close>), \<^verbatim>\<open>Governance\<close> (\<^verbatim>\<open>governance.rs\<close>), \<^verbatim>\<open>Budget_Admission\<close>
    (\<^verbatim>\<open>governance.rs\<close> and the usage operations of \<^verbatim>\<open>sqlite.rs\<close> in \<^verbatim>\<open>bridge-store\<close>): usage rows, policies and the admission of a turn over the
    tables as records, where an error rolls the tables back. A policy is canonical: it depends on the rules and allowances
    and not on their order. In every history the turns charged to an owner stay within its limit.

  \<^bold>\<open>Custody.\<close>
  \<^item> \<^verbatim>\<open>Custody_Frame\<close>, \<^verbatim>\<open>Custody_Stream\<close>, \<^verbatim>\<open>Custody_Encoder\<close>, \<^verbatim>\<open>Custody_Decoder\<close>, \<^verbatim>\<open>Custody_Roundtrip\<close> (\<^verbatim>\<open>custody_frame.rs\<close>): the
    grammar and the canonical order, byte sources and sinks (locales \<^verbatim>\<open>byte_reader\<close>, \<^verbatim>\<open>byte_sink\<close>, \<^verbatim>\<open>frame_channel\<close>), the encoder, the decoder with a
    consumer, and both against the frame as a function of its entries. The order check with its stack is exact; the encoder writes the
    specified frame or refuses; the decoder accepts exactly the specified frames; encoding and decoding are inverse. All of it holds in whatever pieces
    sources, sinks and consumers work. Loops over content end because the remaining length falls, and the loop over entries because
    the budget bounds their number.

  \<^bold>\<open>Not modelled.\<close> The library covers the deterministic core. Left out are:
  \<^item> the processes and the input and output around it: the command line and its compatibility scheduler (\<^verbatim>\<open>bin/a2a-bridge\<close>), the servers and clients
    of the protocols (\<^verbatim>\<open>bridge-a2a-inbound\<close>, \<^verbatim>\<open>bridge-a2a-outbound\<close>, \<^verbatim>\<open>bridge-acp\<close>, \<^verbatim>\<open>bridge-api\<close>, \<^verbatim>\<open>bridge-mcp\<close>, \<^verbatim>\<open>lsp-mcp\<close>), containers, Git worktrees,
    the rest of the store, and the asynchronous executor and coordinator. Their behaviour is that of the operating system, the network,
    SQLite, Git and the async runtime, which the library has no sources of;
  \<^item> the effects of custody beyond the frame (walks, exports, restores through the file system and Git);
  \<^item> serde's wire forms, \<^verbatim>\<open>Debug\<close> and \<^verbatim>\<open>Display\<close> texts, metrics, and wall-clock and memory use;
  \<^item> failures of the database engine, and the bytes a refused encoder operation already gave to its sink.
\<close>

end
